(* ===== verification/Alc_Prelude.thy ===== *)
theory Alc_Prelude
  imports Main "HOL-Library.Word"
begin

unbundle bit_operations_syntax

text \<open>
  Shared vocabulary of the development: the machine types of \<^verbatim>\<open>src/DB/common.h\<close>, the value
  type for undefined behaviour of the C sources, the little-endian image of an integer in memory
  (what \<^verbatim>\<open>memcpy(row, &icol, n)\<close> writes and what a cast such as \<^verbatim>\<open>*(uint32 *)data\<close> reads on the
  x86-64 hosts the program targets), and the list and word lemmas the components share.
\<close>

named_theorems alc_nat "moves word equations to natural numbers"

type_synonym byte = "8 word"
type_synonym ushort16 = "16 word"
type_synonym uint32 = "32 word"
type_synonym ulong = "64 word"
type_synonym uint128 = "128 word"

text \<open>
  What a run of the C code does beyond returning: an access outside an object or through
  \<^verbatim>\<open>NULL\<close>, a failed assertion, a read of memory that was not written, or a loop that does not end within the
  fuel of its model.
\<close>

datatype c_ub = OOB_read | OOB_write | Assert_fail | Null_deref | Uninit_read | No_return

type_synonym 'a c_res = "c_ub + 'a"

text \<open>The column types of \<^verbatim>\<open>src/DB/common.h\<close>.\<close>

datatype coltype = COL_TYPE_NONE | COL_TYPE_INT | COL_TYPE_LONG | COL_TYPE_STRING | COL_TYPE_FLOAT | COL_TYPE_U128
  | COL_TYPE_LUAO | COL_TYPE_FUNC | COL_TYPE_BOOL | COL_TYPE_CNAME | COL_TYPE_ERR

definition C_IS_NUM :: "coltype \<Rightarrow> bool" where
  "C_IS_NUM ct \<longleftrightarrow> ct = COL_TYPE_INT \<or> ct = COL_TYPE_LONG \<or> ct = COL_TYPE_U128"

text \<open>Reading and writing one cell of a C array.\<close>

definition c_read :: "'a list \<Rightarrow> nat \<Rightarrow> 'a c_res" where
  "c_read xs i = (if i < length xs then Inr (xs ! i) else Inl OOB_read)"

definition c_write :: "'a list \<Rightarrow> nat \<Rightarrow> 'a \<Rightarrow> 'a list c_res" where
  "c_write xs i v = (if i < length xs then Inr (xs[i := v]) else Inl OOB_write)"

text \<open>Sequencing of computations that may run into undefined behaviour.\<close>

definition c_bind :: "'a c_res \<Rightarrow> ('a \<Rightarrow> 'b c_res) \<Rightarrow> 'b c_res" where
  "c_bind r f = (case r of Inl e \<Rightarrow> Inl e | Inr x \<Rightarrow> f x)"

text \<open>The first \<open>n\<close> bytes of the memory image of a word, and the word read back from bytes.\<close>

primrec le_bytes :: "nat \<Rightarrow> 'a::len word \<Rightarrow> byte list" where
  "le_bytes 0 w = []"
| "le_bytes (Suc n) w = ucast w # le_bytes n (drop_bit 8 w)"

primrec le_word :: "byte list \<Rightarrow> 'a::len word" where
  "le_word [] = 0"
| "le_word (b # bs) = ucast b OR push_bit 8 (le_word bs)"

text \<open>The text of a C string literal as bytes.\<close>

definition bytes_of :: "string \<Rightarrow> byte list" where
  "bytes_of s = map of_char s"

subsection \<open>Lemmas on the vocabulary\<close>

lemma c_bind_simps [simp]:
  "c_bind (Inr x) f = f x"
  "c_bind (Inl e) f = Inl e"
  by (simp_all add: c_bind_def)

lemma c_bind_cong [fundef_cong]:
  "r = r' \<Longrightarrow> (\<And>x. r' = Inr x \<Longrightarrow> f x = g x) \<Longrightarrow> c_bind r f = c_bind r' g"
  by (auto simp: c_bind_def split: sum.splits)

lemma c_bind_Inr_iff: "c_bind r f = Inr y \<longleftrightarrow> (\<exists>x. r = Inr x \<and> f x = Inr y)"
  by (cases r) auto

text \<open>Case splits for \<open>split:\<close>, as for an option.\<close>

lemma c_bind_split: "P (c_bind r f) \<longleftrightarrow> (\<forall>e. r = Inl e \<longrightarrow> P (Inl e)) \<and> (\<forall>x. r = Inr x \<longrightarrow> P (f x))"
  by (cases r) auto

lemma c_bind_split_asm:
  "P (c_bind r f) \<longleftrightarrow> \<not> ((\<exists>e. r = Inl e \<and> \<not> P (Inl e)) \<or> (\<exists>x. r = Inr x \<and> \<not> P (f x)))"
  by (cases r) auto

lemmas c_bind_splits = c_bind_split c_bind_split_asm

lemma c_read_Inr [simp]: "i < length xs \<Longrightarrow> c_read xs i = Inr (xs ! i)"
  by (simp add: c_read_def)

lemma c_write_Inr [simp]: "i < length xs \<Longrightarrow> c_write xs i v = Inr (xs[i := v])"
  by (simp add: c_write_def)

lemma length_le_bytes [simp]: "length (le_bytes n w) = n"
  by (induction n arbitrary: w) auto

lemma bit_le_word:
  "bit (le_word bs :: 'a::len word) k \<longleftrightarrow>
     k < LENGTH('a) \<and> k div 8 < length bs \<and> bit (bs ! (k div 8)) (k mod 8)"
proof (induction bs arbitrary: k)
  case Nil
  then show ?case by simp
next
  case (Cons b bs)
  show ?case
  proof (cases "k < 8")
    case True
    then show ?thesis
      by (auto simp: bit_or_iff bit_push_bit_iff bit_ucast_iff)
  next
    case False
    then have k: "k div 8 = Suc ((k - 8) div 8)" "k mod 8 = (k - 8) mod 8"
      by (simp_all add: le_div_geq le_mod_geq)
    have nb: "\<not> bit b k"
      using False by (auto dest: bit_imp_le_length)
    show ?thesis
      using False Cons.IH [of "k - 8"]
      by (auto simp: bit_or_iff bit_push_bit_iff bit_ucast_iff k nb)
  qed
qed

lemma nth_le_bytes: "i < n \<Longrightarrow> le_bytes n w ! i = ucast (drop_bit (8 * i) w)"
proof (induction n arbitrary: w i)
  case 0
  then show ?case by simp
next
  case (Suc n)
  then show ?case by (cases i) (auto simp: ac_simps)
qed

lemma le_word_le_bytes: "(le_word (le_bytes n w) :: 'a::len word) = take_bit (8 * n) w"
proof (rule bit_eqI)
  fix k
  assume "possible_bit TYPE('a word) k"
  then have k: "k < LENGTH('a)" by simp
  have "8 * (k div 8) + k mod 8 = k" by simp
  moreover have "k div 8 < n \<longleftrightarrow> k < 8 * n" by (simp add: div_less_iff_less_mult mult.commute)
  ultimately show "bit (le_word (le_bytes n w) :: 'a word) k = bit (take_bit (8 * n) w) k"
    using k by (auto simp: bit_le_word nth_le_bytes bit_ucast_iff bit_drop_bit_eq bit_take_bit_iff)
qed

lemma le_word_le_bytes_id:
  assumes "unat w < 2 ^ (8 * n)"
  shows "(le_word (le_bytes n w) :: 'a::len word) = w"
proof -
  have "take_bit (8 * n) w = w"
  proof (cases "8 * n < LENGTH('a)")
    case True
    have "unat (take_bit (8 * n) w) = unat w mod 2 ^ (8 * n)"
      unfolding unsigned_take_bit_eq by (simp add: take_bit_eq_mod)
    with assms have "unat (take_bit (8 * n) w) = unat w" by simp
    then show ?thesis by (simp add: word_unat_eq_iff)
  next
    case False
    then show ?thesis by (simp add: take_bit_word_eq_self)
  qed
  then show ?thesis by (simp add: le_word_le_bytes)
qed

lemma hd_le_bytes: "0 < n \<Longrightarrow> le_bytes n w = ucast w # tl (le_bytes n w)"
  by (cases n) auto

lemma unat_push_bit8 [alc_nat]: "unat (push_bit n w :: byte) = (unat w * 2 ^ n) mod 256"
  unfolding unsigned_push_bit_eq by (simp add: take_bit_eq_mod push_bit_eq_mult)

lemma unat_drop_bit_alc [alc_nat]: "unat (drop_bit n w :: 'a::len word) = unat w div 2 ^ n"
proof -
  have "take_bit LENGTH('a) (unat w) = unat w"
    by (simp add: take_bit_nat_eq_self_iff)
  then show ?thesis
    unfolding unsigned_drop_bit_eq by (simp add: drop_bit_eq_div)
qed

lemma word_eq_of_nat: "unat x = k \<Longrightarrow> x = of_nat k"
  by auto

lemma unat_plus8 [alc_nat]: "unat (v + w :: byte) = (unat v + unat w) mod 256"
  by (simp add: unat_word_ariths)

lemma unat_byte_less [simp]: "unat (b :: byte) < 256"
  using unsigned_less [of b, where ?'a = nat] by simp

lemma bind_list_update_append [simp]:
  "i = length xs \<Longrightarrow> (xs @ y # ys)[i := v] = xs @ v # ys"
  by simp

lemma replicate_Suc_split: "0 < n \<Longrightarrow> replicate n x = x # replicate (n - 1) x"
  by (cases n) auto

end
