(* ===== verification/Alc_SixBit.thy ===== *)
theory Alc_SixBit
  imports Alc_Prelude
begin

text \<open>
  Six-bit string compression, \<^verbatim>\<open>src/DB/sixbit.c\<close>. A \<^verbatim>\<open>uchar **dest\<close> cursor is the buffer together
  with the index of the cell it points to; every access is checked against the buffer, so a run
  that leaves it is an \<open>Inl\<close>. The packing buffer is the zeroed \<^verbatim>\<open>malloc(src_len + 1)\<close>; the cells of
  the unpacked buffer that are never written are \<open>None\<close>.
\<close>

definition sixbitchars :: "byte list" where
  "sixbitchars = bytes_of (''abcdefghijklmnopqrstuvwxyzABCDEFGHIJKLMNOPQRSTUVWXYZ _+-.,'' @
     [CHR 0x27, CHR 0x22] @ ''#/'' @ [CHR 0x5C])"

text \<open>The two loops of \<^verbatim>\<open>init_six_bit_strings\<close> over the zeroed 256-byte tables.\<close>

definition to_six_bit_strings :: "byte list" where
  "to_six_bit_strings =
     fold (\<lambda>i t. t[unat (sixbitchars ! i) := of_nat (i + 1)]) [0..<length sixbitchars]
       (replicate 256 0)"

definition from_six_bit_strings :: "byte list" where
  "from_six_bit_strings =
     fold (\<lambda>i t. t[i + 1 := sixbitchars ! i]) [0..<length sixbitchars] (replicate 256 0)"

text \<open>
  \<^verbatim>\<open>six_bit_pack\<close>: \<open>None\<close> is the return value 0. The table is indexed with \<^verbatim>\<open>(int)s_c\<close>, and \<^verbatim>\<open>char\<close> is
  signed, so a byte of 128 or more reads before the table.
\<close>

definition six_bit_pack :: "byte \<Rightarrow> nat \<Rightarrow> byte list \<times> nat \<Rightarrow> (byte list \<times> nat) option c_res" where
  "six_bit_pack s_c s_i cur = (case cur of (buf, p) \<Rightarrow>
     if sint s_c < 0 then Inl OOB_read else
     c_bind (c_read to_six_bit_strings (nat (sint s_c))) (\<lambda>s_p.
     if s_p = 0 then Inr None
     else let state = s_i mod 4 in
     if state = 0 then
       c_bind (c_read buf p) (\<lambda>d. c_bind (c_write buf p (d + push_bit 2 s_p)) (\<lambda>buf.
         Inr (Some (buf, p))))
     else if state = 1 then
       c_bind (c_read buf p) (\<lambda>d. c_bind (c_write buf p (d + drop_bit 4 s_p)) (\<lambda>buf.
       c_bind (c_read buf (p + 1)) (\<lambda>d. c_bind (c_write buf (p + 1) (d + push_bit 4 s_p)) (\<lambda>buf.
         Inr (Some (buf, p + 1))))))
     else if state = 2 then
       c_bind (c_read buf p) (\<lambda>d. c_bind (c_write buf p (d + drop_bit 2 s_p)) (\<lambda>buf.
       c_bind (c_read buf (p + 1)) (\<lambda>d. c_bind (c_write buf (p + 1) (d + push_bit 6 s_p)) (\<lambda>buf.
         Inr (Some (buf, p + 1))))))
     else
       c_bind (c_read buf p) (\<lambda>d. c_bind (c_write buf p (d + s_p)) (\<lambda>buf.
         Inr (Some (buf, p + 1))))))"

definition six_bit_unpack :: "nat \<Rightarrow> byte list \<times> nat \<Rightarrow> (byte \<times> nat) c_res" where
  "six_bit_unpack s_i cur = (case cur of (buf, p) \<Rightarrow>
     let state = s_i mod 4 in
     c_bind (c_read buf p) (\<lambda>b1.
     c_bind
       (if state = 0 then Inr (drop_bit 2 b1, 0, p)
        else if state = 1 then
          c_bind (c_read buf (p + 1)) (\<lambda>b2.
            Inr (drop_bit 2 (push_bit 6 b1), drop_bit 4 b2, p + 1))
        else if state = 2 then
          c_bind (c_read buf (p + 1)) (\<lambda>b2.
            Inr (drop_bit 2 (push_bit 4 b1), drop_bit 6 b2, p + 1))
        else Inr (drop_bit 2 (push_bit 2 b1), 0, p + 1))
     (\<lambda>(b1, b2, p'). let b3 = b1 + b2 :: byte in
        c_bind (c_read from_six_bit_strings (unat b3)) (\<lambda>u. Inr (u, p')))))"

text \<open>The packing loop: the characters still to pack, the loop counter and the cursor.\<close>

fun createSixBit_loop ::
  "byte list \<Rightarrow> nat \<Rightarrow> byte list \<times> nat \<Rightarrow> (byte list \<times> nat) option c_res" where
  "createSixBit_loop [] i cur = Inr (Some cur)"
| "createSixBit_loop (c # cs) i cur =
     c_bind (six_bit_pack c i cur) (\<lambda>r.
       case r of None \<Rightarrow> Inr None | Some cur' \<Rightarrow> createSixBit_loop cs (i + 1) cur')"

text \<open>\<open>Inr None\<close> is the \<^verbatim>\<open>NULL\<close> return; the number is \<^verbatim>\<open>*new_len\<close>.\<close>

definition createSixBit_n :: "byte list \<Rightarrow> (byte list \<times> nat) option c_res" where
  "createSixBit_n src = (let dest = replicate (length src + 1) 0 in
     if src = [] then Inr (Some (dest, 0))
     else c_bind (createSixBit_loop src 0 (dest, 0)) (\<lambda>r.
       case r of None \<Rightarrow> Inr None | Some (dest, p) \<Rightarrow> Inr (Some (dest, p + 1))))"

definition createSixBit :: "byte list \<Rightarrow> (byte list \<times> nat) option c_res" where
  "createSixBit src = createSixBit_n (takeWhile (\<lambda>c. c \<noteq> 0) src)"

text \<open>The unpacking loop: \<open>k\<close> iterations left, counter \<open>i\<close>, read cursor, buffer and length.\<close>

fun unpackSixBit_loop ::
  "nat \<Rightarrow> nat \<Rightarrow> byte list \<times> nat \<Rightarrow> byte option list \<Rightarrow> nat \<Rightarrow> (byte option list \<times> nat) c_res" where
  "unpackSixBit_loop 0 i cur fdest len = Inr (fdest, len)"
| "unpackSixBit_loop (Suc k) i (src, p) fdest len =
     c_bind (six_bit_unpack i (src, p)) (\<lambda>(u, p').
       if u \<noteq> 0 then
         c_bind (c_write fdest i (Some u)) (\<lambda>fdest.
           unpackSixBit_loop k (i + 1) (src, p') fdest (len + 1))
       else unpackSixBit_loop k (i + 1) (src, p') fdest len)"

definition unpackSixBit :: "byte list \<Rightarrow> uint32 \<Rightarrow> (byte option list \<times> nat) c_res" where
  "unpackSixBit src s_len =
     (let was_len = unat ((s_len * 4) div 3) in
      c_bind (unpackSixBit_loop was_len 0 (src, 0) (replicate (was_len + 1) None) 0)
        (\<lambda>(fdest, len). c_bind (c_write fdest len (Some 0)) (\<lambda>fdest. Inr (fdest, len))))"

subsection \<open>Reference encoding\<close>

text \<open>The bytes a string of six-bit codes should become: four codes to three bytes.\<close>

fun six_stream :: "byte list \<Rightarrow> byte list" where
  "six_stream [] = [0]"
| "six_stream [a] = [push_bit 2 a]"
| "six_stream [a, b] = [push_bit 2 a + drop_bit 4 b, push_bit 4 b]"
| "six_stream [a, b, c] = [push_bit 2 a + drop_bit 4 b, push_bit 4 b + drop_bit 2 c, push_bit 6 c]"
| "six_stream (a # b # c # d # r) =
     (push_bit 2 a + drop_bit 4 b) # (push_bit 4 b + drop_bit 2 c) # (push_bit 6 c + d) # six_stream r"

definition six_code :: "byte \<Rightarrow> byte" where
  "six_code c = to_six_bit_strings ! unat c"

definition packable :: "byte \<Rightarrow> bool" where
  "packable c \<longleftrightarrow> unat c < 128 \<and> six_code c \<noteq> 0"

definition six_extra :: "nat \<Rightarrow> nat" where
  "six_extra n = (if n mod 4 = 0 \<or> n mod 4 = 3 then 1 else 0)"

subsection \<open>The tables\<close>

lemma length_fold_update: "length (fold (\<lambda>i t. t[f i := g i]) js xs) = length xs"
  by (induction js arbitrary: xs) auto

lemma length_six_tables [simp]:
  "length to_six_bit_strings = 256" "length from_six_bit_strings = 256"
  by (simp_all add: to_six_bit_strings_def from_six_bit_strings_def length_fold_update)

lemma fold_update_nth:
  assumes "distinct (map f js)" and "j \<in> set js" and "f j < length xs"
  shows "fold (\<lambda>i t. t[f i := g i]) js xs ! f j = g j"
  using assms
proof (induction js arbitrary: xs)
  case Nil
  then show ?case by simp
next
  case (Cons i js)
  have other: "fold (\<lambda>i t. t[f i := g i]) js ys ! k = ys ! k" if "k \<notin> f ` set js" for ys k
    using that by (induction js arbitrary: ys) auto
  show ?case
  proof (cases "j = i")
    case True
    with Cons.prems show ?thesis by (auto simp: other)
  next
    case False
    with Cons show ?thesis by auto
  qed
qed

lemma fold_update_other:
  "k \<notin> f ` set js \<Longrightarrow> fold (\<lambda>i t. t[f i := g i]) js xs ! k = xs ! k"
  by (induction js arbitrary: xs) auto

lemma length_sixbitchars [simp]: "length sixbitchars = 63"
  by (simp add: sixbitchars_def bytes_of_def)

lemma distinct_sixbitchars: "distinct sixbitchars"
  by code_simp

lemma sixbitchars_cases:
  assumes "six_code c \<noteq> 0"
  obtains i where "i < 63" "c = sixbitchars ! i" "six_code c = of_nat (i + 1)"
proof -
  have "unat c \<in> (\<lambda>i. unat (sixbitchars ! i)) ` set [0..<length sixbitchars]"
  proof (rule ccontr)
    assume "\<not> ?thesis"
    then have "six_code c = 0"
      by (simp add: six_code_def to_six_bit_strings_def fold_update_other)
    with assms show False ..
  qed
  then obtain i where i: "i < 63" "unat c = unat (sixbitchars ! i)"
    by auto
  then have c: "c = sixbitchars ! i" by (simp add: word_unat_eq_iff)
  have inj: "distinct (map (\<lambda>i. unat (sixbitchars ! i)) [0..<length sixbitchars])"
    by (auto simp: distinct_map inj_on_def nth_eq_iff_index_eq [OF distinct_sixbitchars]
        simp flip: word_unat_eq_iff)
  have "six_code c = of_nat (i + 1)"
    using fold_update_nth [OF inj, where j = i and xs = "replicate 256 0"
        and g = "\<lambda>i. of_nat (i + 1) :: byte"] i
    by (simp add: six_code_def to_six_bit_strings_def c)
  with i c show ?thesis using that by blast
qed

lemma from_six_Suc: "i < 63 \<Longrightarrow> from_six_bit_strings ! (i + 1) = sixbitchars ! i"
  using fold_update_nth [where f = "\<lambda>i. i + 1" and js = "[0..<length sixbitchars]" and j = i
      and g = "\<lambda>i. sixbitchars ! i" and xs = "replicate 256 0"]
  by (simp add: from_six_bit_strings_def distinct_map)

lemma from_six_0 [simp]: "from_six_bit_strings ! 0 = 0"
  by (simp add: from_six_bit_strings_def fold_update_other)

lemma six_code_inverse:
  assumes "six_code c \<noteq> 0"
  shows "unat (six_code c) < 64" "from_six_bit_strings ! unat (six_code c) = c"
proof -
  obtain i where i: "i < 63" "c = sixbitchars ! i" "six_code c = of_nat (i + 1)"
    using sixbitchars_cases [OF assms] .
  then have "unat (six_code c) = i + 1"
    by (simp add: unat_of_nat del: of_nat_add of_nat_Suc)
  with i from_six_Suc [of i]
  show "unat (six_code c) < 64" "from_six_bit_strings ! unat (six_code c) = c"
    by simp_all
qed

lemma sint_ascii:
  assumes "unat (c :: byte) < 128"
  shows "sint c = int (unat c)"
proof -
  have "nat (uint c) < 128" using assms by simp
  then have "uint c < 128" by linarith
  then have "-128 \<le> uint c \<and> uint c < 128" using uint_ge_0 [of c] by linarith
  then show ?thesis by (simp add: sint_uint signed_take_bit_int_eq_self_iff)
qed

lemma sint_not_ascii:
  assumes "128 \<le> unat (c :: byte)"
  shows "sint c < 0"
proof -
  have "unat c div 2 ^ 7 = 1"
    using assms by (intro div_nat_eqI) simp_all
  then have "bit (unat c) 7" by (simp add: bit_iff_odd)
  then have "bit c 7" by (simp add: bit_unsigned_iff)
  then show ?thesis using bit_last_iff [of c] by simp
qed

subsection \<open>Packing\<close>

lemma packable_read:
  assumes "packable c"
  shows "\<not> sint c < 0" "c_read to_six_bit_strings (nat (sint c)) = Inr (six_code c)"
    "six_code c \<noteq> 0"
  using assms by (simp_all add: packable_def sint_ascii six_code_def)

lemma six_bit_pack_steps:
  assumes "packable c" and p: "p = length pre"
  shows
    "i mod 4 = 0 \<Longrightarrow> six_bit_pack c i (pre @ d # zs, p) =
       Inr (Some (pre @ (d + push_bit 2 (six_code c)) # zs, p))"
    "i mod 4 = 1 \<Longrightarrow> six_bit_pack c i (pre @ d # e # zs, p) =
       Inr (Some (pre @ (d + drop_bit 4 (six_code c)) # (e + push_bit 4 (six_code c)) # zs, p + 1))"
    "i mod 4 = 2 \<Longrightarrow> six_bit_pack c i (pre @ d # e # zs, p) =
       Inr (Some (pre @ (d + drop_bit 2 (six_code c)) # (e + push_bit 6 (six_code c)) # zs, p + 1))"
    "i mod 4 = 3 \<Longrightarrow> six_bit_pack c i (pre @ d # zs, p) =
       Inr (Some (pre @ (d + six_code c) # zs, p + 1))"
  using packable_read [OF assms(1)]
  by (simp_all add: six_bit_pack_def p nth_append list_update_append Let_def)

lemma mod4_Suc:
  "i mod 4 = 0 \<Longrightarrow> Suc i mod 4 = 1"
  "i mod 4 = 0 \<Longrightarrow> Suc (Suc i) mod 4 = 2"
  "i mod 4 = 0 \<Longrightarrow> Suc (Suc (Suc i)) mod 4 = 3"
  "i mod 4 = 0 \<Longrightarrow> (3 + i) mod 4 = 3"
  "i mod 4 = 0 \<Longrightarrow> Suc (Suc (Suc (Suc i))) mod 4 = 0"
  by presburger+

lemma pack_one:
  "packable a \<Longrightarrow> i mod 4 = 0 \<Longrightarrow>
   createSixBit_loop (a # cs) i (pre @ 0 # zs, length pre) =
     createSixBit_loop cs (Suc i) (pre @ push_bit 2 (six_code a) # zs, length pre)"
  by (simp add: six_bit_pack_steps(1))

lemma pack_two:
  "packable a \<Longrightarrow> packable b \<Longrightarrow> i mod 4 = 0 \<Longrightarrow>
   createSixBit_loop (a # b # cs) i (pre @ 0 # 0 # zs, length pre) =
     createSixBit_loop cs (Suc (Suc i))
       ((pre @ [push_bit 2 (six_code a) + drop_bit 4 (six_code b)]) @ push_bit 4 (six_code b) # zs,
        length (pre @ [push_bit 2 (six_code a) + drop_bit 4 (six_code b)]))"
  by (simp add: pack_one six_bit_pack_steps(2) mod4_Suc del: createSixBit_loop.simps(2)
      add: createSixBit_loop.simps(2) [of b])

lemma pack_three:
  assumes "packable a" "packable b" "packable c" "i mod 4 = 0"
  defines "x \<equiv> push_bit 2 (six_code a) + drop_bit 4 (six_code b)"
  defines "y \<equiv> push_bit 4 (six_code b) + drop_bit 2 (six_code c)"
  shows "createSixBit_loop (a # b # c # cs) i (pre @ 0 # 0 # 0 # zs, length pre) =
     createSixBit_loop cs (Suc (Suc (Suc i)))
       ((pre @ [x, y]) @ push_bit 6 (six_code c) # zs, length (pre @ [x, y]))"
proof -
  have "six_bit_pack c (Suc (Suc i)) ((pre @ [x]) @ push_bit 4 (six_code b) # 0 # zs, length (pre @ [x]))
      = Inr (Some ((pre @ [x]) @ y # (0 + push_bit 6 (six_code c)) # zs, length (pre @ [x]) + 1))"
    unfolding y_def by (rule six_bit_pack_steps(3)) (simp_all add: assms(1-4) mod4_Suc)
  then show ?thesis
    unfolding pack_two [OF assms(1,2,4)] x_def [symmetric]
    by (simp add: createSixBit_loop.simps(2) [of c])
qed

lemma pack_four:
  assumes "packable a" "packable b" "packable c" "packable d" "i mod 4 = 0"
  defines "x \<equiv> push_bit 2 (six_code a) + drop_bit 4 (six_code b)"
  defines "y \<equiv> push_bit 4 (six_code b) + drop_bit 2 (six_code c)"
  defines "z \<equiv> push_bit 6 (six_code c) + six_code d"
  shows "createSixBit_loop (a # b # c # d # cs) i (pre @ 0 # 0 # 0 # zs, length pre) =
     createSixBit_loop cs (Suc (Suc (Suc (Suc i)))) ((pre @ [x, y, z]) @ zs, length (pre @ [x, y, z]))"
proof -
  have "six_bit_pack d (Suc (Suc (Suc i))) ((pre @ [x, y]) @ push_bit 6 (six_code c) # zs, length (pre @ [x, y]))
      = Inr (Some ((pre @ [x, y]) @ z # zs, length (pre @ [x, y]) + 1))"
    unfolding z_def by (rule six_bit_pack_steps(4)) (simp_all add: assms(1-5) mod4_Suc)
  then show ?thesis
    unfolding pack_three [OF assms(1-3,5)] x_def [symmetric] y_def [symmetric]
    by (simp add: createSixBit_loop.simps(2) [of d])
qed

lemma six_stream_nonempty [simp]: "six_stream xs \<noteq> []"
  by (cases xs rule: six_stream.cases) auto

text \<open>From a cursor at a group boundary the loop writes exactly the reference encoding.\<close>

lemma createSixBit_loop_stream:
  assumes "list_all packable s" and "i mod 4 = 0" and "length s < m"
  shows "createSixBit_loop s i (pre @ replicate m 0, length pre) =
     Inr (Some (pre @ six_stream (map six_code s) @
        replicate (m - length (six_stream (map six_code s))) 0,
        length pre + length (six_stream (map six_code s)) - 1))"
  using assms
proof (induction "map six_code s" arbitrary: s i m pre rule: six_stream.induct)
  case 1
  then show ?case by (cases m) auto
next
  case (2 a)
  then obtain c m' where "s = [c]" "m = Suc m'" by (cases m) auto
  with 2 show ?case by (simp add: pack_one del: createSixBit_loop.simps(2))
next
  case (3 a b)
  then obtain c d m' where "s = [c, d]" "m = Suc (Suc m')"
    by (cases m rule: nat.exhaust [OF _ nat.exhaust]) (auto simp: map_eq_Cons_conv Suc_less_eq2)
  with 3 show ?case by (simp add: pack_two del: createSixBit_loop.simps(2))
next
  case (4 a b c)
  then obtain d e f m' where "s = [d, e, f]" "m = Suc (Suc (Suc m'))"
    by (auto simp: map_eq_Cons_conv Suc_less_eq2)
  with 4 show ?case by (simp add: pack_three del: createSixBit_loop.simps(2))
next
  case (5 a b c d r)
  then obtain e f g h s' where s: "s = e # f # g # h # s'" "r = map six_code s'"
    by (auto simp: map_eq_Cons_conv)
  with 5 obtain m' where m: "m = Suc (Suc (Suc m'))" "length s' < m'"
    by (auto simp: Suc_less_eq2)
  let ?xyz = "[push_bit 2 (six_code e) + drop_bit 4 (six_code f),
    push_bit 4 (six_code f) + drop_bit 2 (six_code g), push_bit 6 (six_code g) + six_code h]"
  have "0 < length (six_stream (map six_code s'))"
    by (simp add: six_stream_nonempty)
  moreover have "createSixBit_loop s (i) (pre @ replicate m 0, length pre) =
      createSixBit_loop s' (Suc (Suc (Suc (Suc i)))) ((pre @ ?xyz) @ replicate m' 0, length (pre @ ?xyz))"
    using 5(3,4) s m pack_four by simp
  moreover note 5(1) [OF s(2) _ _ m(2), of "Suc (Suc (Suc (Suc i)))" "pre @ ?xyz"]
  ultimately show ?case
    using 5(3,4) s m by (simp add: mod4_Suc)
qed

subsection \<open>Unpacking\<close>

lemma six_nat_hi:
  assumes "a < 64" "b < (64::nat)"
  shows "(a * 4 mod 256 + b div 16) mod 256 = a * 4 + b div 16"
    "(a * 4 + b div 16) div 4 = a"
    "(a * 4 + b div 16) * 64 mod 256 div 4 = b div 16 * 16"
proof -
  have q: "b div 16 < 4" using assms by (simp add: div_less_iff_less_mult)
  show "(a * 4 mod 256 + b div 16) mod 256 = a * 4 + b div 16" "(a * 4 + b div 16) div 4 = a"
    using assms(1) q by simp_all
  have "(a * 4 + b div 16) * 64 = (b div 16 * 64) + 256 * a" by simp
  then have "(a * 4 + b div 16) * 64 mod 256 = b div 16 * 64"
    using q by (simp only: mod_mult_self2) simp
  then show "(a * 4 + b div 16) * 64 mod 256 div 4 = b div 16 * 16" by simp
qed

lemma six_nat_mid:
  assumes "b < 64" "c < (64::nat)"
  shows "(b * 16 mod 256 + c div 4) mod 256 = (b mod 16) * 16 + c div 4"
    "((b mod 16) * 16 + c div 4) div 16 = b mod 16"
    "((b mod 16) * 16 + c div 4) * 16 mod 256 div 4 = c div 4 * 4"
proof -
  have q: "c div 4 < 16" using assms by (simp add: div_less_iff_less_mult)
  have r: "b mod 16 < 16" by simp
  have b16: "b * 16 mod 256 = (b mod 16) * 16"
    using mult_mod_left [of b 16 16] by simp
  show "(b * 16 mod 256 + c div 4) mod 256 = (b mod 16) * 16 + c div 4"
    unfolding b16 using q r by simp
  show "((b mod 16) * 16 + c div 4) div 16 = b mod 16" using q by simp
  have "((b mod 16) * 16 + c div 4) * 16 = (c div 4 * 16) + 256 * (b mod 16)" by simp
  then have "((b mod 16) * 16 + c div 4) * 16 mod 256 = c div 4 * 16"
    using q by (simp only: mod_mult_self2) simp
  then show "((b mod 16) * 16 + c div 4) * 16 mod 256 div 4 = c div 4 * 4" by simp
qed

lemma six_nat_lo:
  assumes "c < 64" "d < (64::nat)"
  shows "(c * 64 mod 256 + d) mod 256 = (c mod 4) * 64 + d"
    "((c mod 4) * 64 + d) div 64 = c mod 4"
    "((c mod 4) * 64 + d) * 4 mod 256 div 4 = d"
proof -
  have r: "c mod 4 < 4" by simp
  have c64: "c * 64 mod 256 = (c mod 4) * 64"
    using mult_mod_left [of c 4 64] by simp
  show "(c * 64 mod 256 + d) mod 256 = (c mod 4) * 64 + d"
    unfolding c64 using assms r by simp
  show "((c mod 4) * 64 + d) div 64 = c mod 4" using assms by simp
  have "((c mod 4) * 64 + d) * 4 = d * 4 + 256 * (c mod 4)" by simp
  then have "((c mod 4) * 64 + d) * 4 mod 256 = d * 4"
    using assms by (simp only: mod_mult_self2) simp
  then show "((c mod 4) * 64 + d) * 4 mod 256 div 4 = d" by simp
qed
lemma six_group_inverse:
  assumes "unat a < 64" "unat b < 64" "unat c < 64" "unat (d :: byte) < 64"
  shows "drop_bit 2 (push_bit 2 a + drop_bit 4 b) = a"
    "drop_bit 2 (push_bit 6 (push_bit 2 a + drop_bit 4 b)) + drop_bit 4 (push_bit 4 b + drop_bit 2 c) = b"
    "drop_bit 2 (push_bit 4 (push_bit 4 b + drop_bit 2 c)) + drop_bit 6 (push_bit 6 c + d) = c"
    "drop_bit 2 (push_bit 2 (push_bit 6 c + d)) = d"
  using assms
  by (simp_all add: word_unat_eq_iff alc_nat six_nat_hi six_nat_mid six_nat_lo)

lemma six_group_inverse0:
  assumes "unat a < 64" "unat b < 64" "unat (c :: byte) < 64"
  shows "drop_bit 2 (push_bit 2 a) = a"
    "drop_bit 2 (push_bit 6 (push_bit 2 a + drop_bit 4 b)) + drop_bit 4 (push_bit 4 b) = b"
    "drop_bit 2 (push_bit 4 (push_bit 4 b + drop_bit 2 c)) + drop_bit 6 (push_bit 6 c) = c"
    "drop_bit 2 (push_bit 2 (push_bit 6 c)) = 0"
  using six_group_inverse [of a 0 0 0] six_group_inverse [of a b 0 0] six_group_inverse [of a b c 0]
    assms by simp_all

lemma six_bit_unpack_steps:
  assumes p: "p = length pre"
  shows
    "i mod 4 = 0 \<Longrightarrow> six_bit_unpack i (pre @ x # zs, p) =
       Inr (from_six_bit_strings ! unat (drop_bit 2 x), p)"
    "i mod 4 = 1 \<Longrightarrow> six_bit_unpack i (pre @ x # y # zs, p) =
       Inr (from_six_bit_strings ! unat (drop_bit 2 (push_bit 6 x) + drop_bit 4 y), p + 1)"
    "i mod 4 = 2 \<Longrightarrow> six_bit_unpack i (pre @ x # y # zs, p) =
       Inr (from_six_bit_strings ! unat (drop_bit 2 (push_bit 4 x) + drop_bit 6 y), p + 1)"
    "i mod 4 = 3 \<Longrightarrow> six_bit_unpack i (pre @ x # zs, p) =
       Inr (from_six_bit_strings ! unat (drop_bit 2 (push_bit 2 x)), p + 1)"
  by (simp_all add: six_bit_unpack_def p nth_append Let_def)

text \<open>One iteration that finds a character stores it at the end of the written part.\<close>

lemma unpack_iter:
  assumes "six_bit_unpack i (src, p) = Inr (u, p')" and "u \<noteq> 0" and "i = length out"
  shows "unpackSixBit_loop (Suc k) i (src, p) (out @ None # fs) len =
     unpackSixBit_loop k (Suc i) (src, p') ((out @ [Some u]) @ fs) (Suc len)"
  using assms by simp

lemma six_code_facts:
  assumes "packable c"
  shows "unat (six_code c) < 64" "from_six_bit_strings ! unat (six_code c) = c" "c \<noteq> 0"
proof -
  have nz: "six_code c \<noteq> 0" using assms by (simp add: packable_def)
  show "unat (six_code c) < 64" "from_six_bit_strings ! unat (six_code c) = c"
    using six_code_inverse [OF nz] by simp_all
  show "c \<noteq> 0"
  proof
    assume "c = 0"
    moreover have "six_code 0 = 0"
      by code_simp
    ultimately show False using nz by simp
  qed
qed


text \<open>The four reads of a group, on codes \<open>a b c d\<close> below 64, absent codes being 0.\<close>

lemma unpack_codes:
  assumes "unat a < 64" "unat b < 64" "unat c < 64" "unat d < 64" "p = length pre"
  shows
    "i mod 4 = 0 \<Longrightarrow> six_bit_unpack i (pre @ (push_bit 2 a + drop_bit 4 b) # zs, p) =
       Inr (from_six_bit_strings ! unat a, p)"
    "i mod 4 = 1 \<Longrightarrow> six_bit_unpack i (pre @ (push_bit 2 a + drop_bit 4 b) #
          (push_bit 4 b + drop_bit 2 c) # zs, p) = Inr (from_six_bit_strings ! unat b, p + 1)"
    "i mod 4 = 2 \<Longrightarrow> six_bit_unpack i (pre @ (push_bit 4 b + drop_bit 2 c) #
          (push_bit 6 c + d) # zs, p) = Inr (from_six_bit_strings ! unat c, p + 1)"
    "i mod 4 = 3 \<Longrightarrow> six_bit_unpack i (pre @ (push_bit 6 c + d) # zs, p) =
       Inr (from_six_bit_strings ! unat d, p + 1)"
  using six_group_inverse [OF assms(1-4)] by (simp_all add: six_bit_unpack_steps assms(5))

lemma unpack_group:
  fixes a b c d :: byte and pre rest :: "byte list"
  assumes "i mod 4 = 0"
    and "unat a < 64" "unat b < 64" "unat c < 64" "unat d < 64"
  defines "x \<equiv> push_bit 2 a + drop_bit 4 b"
  defines "y \<equiv> push_bit 4 b + drop_bit 2 c"
  defines "z \<equiv> push_bit 6 c + d"
  shows "six_bit_unpack i (pre @ x # y # z # rest, length pre) =
      Inr (from_six_bit_strings ! unat a, length pre)"
    "six_bit_unpack (Suc i) (pre @ x # y # z # rest, length pre) =
      Inr (from_six_bit_strings ! unat b, Suc (length pre))"
    "six_bit_unpack (Suc (Suc i)) (pre @ x # y # z # rest, Suc (length pre)) =
      Inr (from_six_bit_strings ! unat c, Suc (Suc (length pre)))"
    "six_bit_unpack (Suc (Suc (Suc i))) (pre @ x # y # z # rest, Suc (Suc (length pre))) =
      Inr (from_six_bit_strings ! unat d, Suc (Suc (Suc (length pre))))"
  unfolding x_def y_def z_def
  using unpack_codes(1) [OF assms(2-5), of "length pre" pre i]
    unpack_codes(2) [OF assms(2-5), of "length pre" pre "Suc i"]
    unpack_codes(3) [OF assms(2-5), of "Suc (length pre)" "pre @ [x]" "Suc (Suc i)"]
    unpack_codes(4) [OF assms(2-5), of "Suc (Suc (length pre))" "pre @ [x, y]" "Suc (Suc (Suc i))"]
    mod4_Suc [OF assms(1)] assms(1)
  by (simp_all add: x_def y_def)

lemma unpack_tail:
  assumes "i mod 4 = 0" and "i = length out" and "list_all packable s" and "length s < 4"
  shows "unpackSixBit_loop (length s + six_extra (length s)) i
       (pre @ six_stream (map six_code s) @ rest, length pre)
       (out @ replicate (length s) None @ fs) len =
     Inr (out @ map Some s @ fs, len + length s)"
proof -
  from assms(4) consider "s = []" | a where "s = [a]" | a b where "s = [a, b]"
    | a b c where "s = [a, b, c]"
    by (cases s rule: six_stream.cases) auto
  then show ?thesis
  proof cases
    case 1
    with assms show ?thesis by (simp add: six_extra_def six_bit_unpack_steps)
  next
    case (2 a)
    with assms unpack_codes(1) [of "six_code a" 0 0 0 "length pre" pre i rest]
    show ?thesis by (simp add: six_extra_def six_code_facts)
  next
    case (3 a b)
    let ?x = "push_bit 2 (six_code a) + drop_bit 4 (six_code b)"
    from 3 assms have "packable a" "packable b" by simp_all
    note f = six_code_facts [OF \<open>packable a\<close>] six_code_facts [OF \<open>packable b\<close>]
    have u: "six_bit_unpack i (pre @ ?x # push_bit 4 (six_code b) # rest, length pre) = Inr (a, length pre)"
      "six_bit_unpack (Suc i) (pre @ ?x # push_bit 4 (six_code b) # rest, length pre) =
         Inr (b, Suc (length pre))"
      using f mod4_Suc [OF assms(1)] assms(1)
        unpack_codes(1) [of "six_code a" "six_code b" 0 0 "length pre" pre i]
        unpack_codes(2) [of "six_code a" "six_code b" 0 0 "length pre" pre "Suc i" rest]
      by simp_all
    from 3 assms u f show ?thesis
      by (simp add: six_extra_def list_update_append)
  next
    case (4 a b c)
    from 4 assms have "packable a" "packable b" "packable c" by simp_all
    note f = six_code_facts [OF \<open>packable a\<close>] six_code_facts [OF \<open>packable b\<close>]
      six_code_facts [OF \<open>packable c\<close>]
    note g = unpack_group [OF assms(1) f(1,4,7), of 0 pre rest]
    from 4 assms g f show ?thesis
      by (simp add: six_extra_def list_update_append)
  qed
qed

lemma unpack_four:
  assumes "i mod 4 = 0" and "i = length out"
    and "packable a" "packable b" "packable c" "packable d"
  defines "x \<equiv> push_bit 2 (six_code a) + drop_bit 4 (six_code b)"
  defines "y \<equiv> push_bit 4 (six_code b) + drop_bit 2 (six_code c)"
  defines "z \<equiv> push_bit 6 (six_code c) + six_code d"
  shows "unpackSixBit_loop (Suc (Suc (Suc (Suc k)))) i (pre @ x # y # z # rest, length pre)
       (out @ None # None # None # None # fs) len =
     unpackSixBit_loop k (Suc (Suc (Suc (Suc i)))) ((pre @ [x, y, z]) @ rest, length (pre @ [x, y, z]))
       ((out @ map Some [a, b, c, d]) @ fs) (Suc (Suc (Suc (Suc len))))"
proof -
  note f = six_code_facts [OF assms(3)] six_code_facts [OF assms(4)]
    six_code_facts [OF assms(5)] six_code_facts [OF assms(6)]
  note g = unpack_group [OF assms(1) f(1,4,7,10), of pre rest, folded x_def y_def z_def]
  show ?thesis
    using g f assms(2) by (simp add: list_update_append)
qed

text \<open>Unpacking the reference encoding writes the characters back, in order.\<close>

lemma unpackSixBit_loop_stream:
  assumes "list_all packable s" and "i mod 4 = 0" and "i = length out"
  shows "unpackSixBit_loop (length s + six_extra (length s)) i
       (pre @ six_stream (map six_code s) @ rest, length pre)
       (out @ replicate (length s) None @ fs) len =
     Inr (out @ map Some s @ fs, len + length s)"
  using assms
proof (induction s arbitrary: i pre out len rule: length_induct)
  case (1 s)
  show ?case
  proof (cases "length s < 4")
    case True
    with 1 show ?thesis by (intro unpack_tail) auto
  next
    case False
    then obtain a b c d r where s: "s = a # b # c # d # r"
      by (cases s rule: six_stream.cases) auto
    let ?xyz = "[push_bit 2 (six_code a) + drop_bit 4 (six_code b),
      push_bit 4 (six_code b) + drop_bit 2 (six_code c), push_bit 6 (six_code c) + six_code d]"
    have ex: "six_extra (length s) = six_extra (length r)"
      by (simp add: s six_extra_def)
    have pk: "packable a" "packable b" "packable c" "packable d" "list_all packable r"
      using 1(2) s by simp_all
    have "unpackSixBit_loop (length s + six_extra (length s)) i
        (pre @ six_stream (map six_code s) @ rest, length pre)
        (out @ replicate (length s) None @ fs) len =
      unpackSixBit_loop (length r + six_extra (length r)) (Suc (Suc (Suc (Suc i))))
        ((pre @ ?xyz) @ six_stream (map six_code r) @ rest, length (pre @ ?xyz))
        ((out @ map Some [a, b, c, d]) @ replicate (length r) None @ fs) (Suc (Suc (Suc (Suc len))))"
      using unpack_four [OF 1(3,4) pk(1-4), of "length r + six_extra (length r)" pre
          "six_stream (map six_code r) @ rest" "replicate (length r) None @ fs" len] ex s
      by simp
    also have "\<dots> = Inr ((out @ map Some [a, b, c, d]) @ map Some r @ fs,
        Suc (Suc (Suc (Suc len))) + length r)"
      using 1(1) [rule_format, of r "Suc (Suc (Suc (Suc i)))" "out @ map Some [a, b, c, d]"
          "pre @ ?xyz" "Suc (Suc (Suc (Suc len)))"] pk(5) mod4_Suc(5) [OF 1(3)] 1(4) s
      by simp
    finally show ?thesis by (simp add: s)
  qed
qed

subsection \<open>Properties of the component\<close>

lemma length_six_stream: "length (six_stream xs) = 3 * length xs div 4 + 1"
  by (induction xs rule: six_stream.induct) auto

lemma six_was_len: "(3 * n div 4 + 1) * 4 div 3 = n + six_extra n"
  unfolding six_extra_def by presburger

lemma createSixBit_loop_append:
  "createSixBit_loop (p @ q) i cur =
     c_bind (createSixBit_loop p i cur) (\<lambda>r. case r of None \<Rightarrow> Inr None
       | Some cur' \<Rightarrow> createSixBit_loop q (i + length p) cur')"
proof (induction p arbitrary: i cur)
  case Nil
  then show ?case by simp
next
  case (Cons c p)
  then show ?case
    by (cases "six_bit_pack c i cur") (auto split: option.splits)
qed

lemma six_bit_pack_reject:
  assumes "\<not> packable c"
  shows "six_bit_pack c i cur = (if unat c < 128 then Inr None else Inl OOB_read)"
proof (cases "unat c < 128")
  case True
  with assms have "to_six_bit_strings ! unat c = 0"
    by (simp add: packable_def six_code_def)
  with True show ?thesis
    by (cases cur) (simp add: six_bit_pack_def sint_ascii)
next
  case False
  then show ?thesis
    by (cases cur) (simp add: six_bit_pack_def sint_not_ascii)
qed

lemma createSixBit_n_eq:
  "createSixBit_n src =
     (case dropWhile packable src of
        [] \<Rightarrow> let enc = six_stream (map six_code src) in
          Inr (Some (enc @ replicate (length src + 1 - length enc) 0,
                     if src = [] then 0 else length enc))
      | c # _ \<Rightarrow> if unat c < 128 then Inr None else Inl OOB_read)"
proof (cases "dropWhile packable src")
  case Nil
  then have pk: "list_all packable src"
    by (simp add: list_all_iff)
  show ?thesis
    unfolding Nil list.case using createSixBit_loop_stream [OF pk, of 0 "length src + 1" "[]"]
      length_six_stream [of "map six_code src"]
    by (auto simp: createSixBit_n_def Let_def)
next
  case (Cons c cs)
  let ?p = "takeWhile packable src"
  have src: "src = ?p @ c # cs"
    using takeWhile_dropWhile_id [of packable src] Cons by simp
  have pk: "list_all packable ?p"
    by (auto simp: list_all_iff dest: set_takeWhileD)
  have bad: "\<not> packable c"
    using Cons by (simp add: dropWhile_eq_Cons_conv)
  have len: "length ?p < length src + 1" by (simp add: less_Suc_eq_le length_takeWhile_le)
  obtain cur where "createSixBit_loop ?p 0 (replicate (length src + 1) 0, 0) = Inr (Some cur)"
    using createSixBit_loop_stream [OF pk _ len, of 0 "[]"] by simp
  then have "createSixBit_loop src 0 (replicate (length src + 1) 0, 0) =
      (if unat c < 128 then Inr None else Inl OOB_read)"
    by (subst src) (simp add: createSixBit_loop_append six_bit_pack_reject [OF bad])
  moreover have "src \<noteq> []" using src by auto
  ultimately show ?thesis
    by (simp add: createSixBit_n_def Cons Let_def)
qed

text \<open>
  C10. \<^verbatim>\<open>_createSixBit\<close> on every input. A string of table characters becomes the reference encoding
  inside the allocated buffer, with \<^verbatim>\<open>new_len\<close> the number of encoded bytes; the first character
  that is not in the table makes the function return \<^verbatim>\<open>NULL\<close> when it is ASCII, and reads outside
  the translation table when it is a byte of 128 or more.
\<close>

theorem createSixBit_outcome:
  "createSixBit_n src =
     (case dropWhile packable src of
        [] \<Rightarrow> let enc = six_stream (map six_code src) in
          Inr (Some (enc @ replicate (length src + 1 - length enc) 0,
                     if src = [] then 0 else length enc))
      | c # _ \<Rightarrow> if unat c < 128 then Inr None else Inl OOB_read)"
  by (rule createSixBit_n_eq)

lemma unat_was_len:
  assumes "n < 2 ^ 30"
  shows "unat ((of_nat n * 4 :: uint32) div 3) = n * 4 div 3"
proof -
  have "unat (of_nat n * 4 :: uint32) = n * 4"
    using assms by (simp add: unat_word_ariths unat_of_nat)
  then show ?thesis by (simp add: unat_div)
qed

lemma sixbit_restores:
  assumes "list_all packable src" and "length src < 2 ^ 30"
  shows "\<exists>dest n fdest. createSixBit_n src = Inr (Some (dest, n)) \<and> n \<le> length dest \<and>
     unpackSixBit (take n dest) (of_nat n) = Inr (fdest, length src) \<and>
     take (length src + 1) fdest = map Some src @ [Some 0]"
proof (cases "src = []")
  case True
  then show ?thesis
    by (simp add: createSixBit_n_def unpackSixBit_def Let_def)
next
  case False
  let ?enc = "six_stream (map six_code src)" and ?e = "six_extra (length src)"
  let ?n = "length ?enc"
  have dw: "dropWhile packable src = []"
    using assms(1) by (simp add: list_all_iff)
  have cr: "createSixBit_n src = Inr (Some (?enc @ replicate (length src + 1 - ?n) 0, ?n))"
    using createSixBit_n_eq [of src] dw False by (simp add: Let_def)
  have n: "?n < 2 ^ 30"
    using assms(2) length_six_stream [of "map six_code src"] False
    by (cases src) (auto simp: length_six_stream)
  have was: "unat ((of_nat ?n * 4 :: uint32) div 3) = length src + ?e"
    using unat_was_len [OF n] six_was_len [of "length src"]
    by (simp only: length_six_stream length_map)
  have "unpackSixBit_loop (length src + ?e) 0 ([] @ ?enc @ [], length ([] :: byte list))
      ([] @ replicate (length src) None @ replicate (?e + 1) None) 0 =
      Inr ([] @ map Some src @ replicate (?e + 1) None, 0 + length src)"
    by (rule unpackSixBit_loop_stream) (simp_all add: assms(1))
  moreover have "replicate (length src) (None :: byte option) @ replicate (?e + 1) None =
      replicate (length src + ?e + 1) None" by (simp only: replicate_add add.assoc)
  ultimately have "unpackSixBit ?enc (of_nat ?n) =
      Inr (map Some src @ Some 0 # replicate ?e None, length src)"
    by (simp only: unpackSixBit_def was Let_def append_Nil append_Nil2 list.size)
      (simp del: replicate_Suc, simp)
  with cr show ?thesis by auto
qed

text \<open>
  C9. Round trip: a string of table characters shorter than \<open>2 ^ 30\<close> is packed, and unpacking the
  \<^verbatim>\<open>new_len\<close> packed bytes stays inside both buffers and yields the string, its length and the
  terminating zero.
\<close>

theorem sixbit_roundtrip:
  assumes "list_all packable src" and "length src < 2 ^ 30"
  shows "\<exists>dest n fdest. createSixBit_n src = Inr (Some (dest, n)) \<and> n \<le> length dest \<and>
     unpackSixBit (take n dest) (of_nat n) = Inr (fdest, length src) \<and>
     take (length src + 1) fdest = map Some src @ [Some 0]"
  by (rule sixbit_restores [OF assms])

theorem sixbit_roundtrip_witness:
  "list_all packable (bytes_of ''Hello'') \<and>
   (\<exists>dest n fdest. createSixBit_n (bytes_of ''Hello'') = Inr (Some (dest, n)) \<and> n \<le> length dest \<and>
     unpackSixBit (take n dest) (of_nat n) = Inr (fdest, length (bytes_of ''Hello'')) \<and>
     take (length (bytes_of ''Hello'') + 1) fdest = map Some (bytes_of ''Hello'') @ [Some 0])"
proof -
  have "list_all packable (bytes_of ''Hello'')"
    by code_simp
  then show ?thesis
    using sixbit_roundtrip [of "bytes_of ''Hello''"] by (simp add: bytes_of_def)
qed

end
