(* ===== verification/Alc_CStr.thy ===== *)
theory Alc_CStr
  imports Alc_Prelude
begin

text \<open>
  C strings. A string object is the list of its characters before the terminating NUL, a pointer into it is
  an offset; the terminator can be read and nothing behind it. The functions of \<^verbatim>\<open>string.h\<close>, \<^verbatim>\<open>strings.h\<close> and
  \<^verbatim>\<open>ctype.h\<close> that the parsers call, in the C locale.
\<close>

abbreviation NUL :: char where "NUL \<equiv> CHR 0x00"
abbreviation SQUOTE :: char where "SQUOTE \<equiv> CHR 0x27"
abbreviation DQUOTE :: char where "DQUOTE \<equiv> CHR 0x22"
abbreviation BACKSLASH :: char where "BACKSLASH \<equiv> CHR 0x5C"
abbreviation BACKTICK :: char where "BACKTICK \<equiv> CHR 0x60"

text \<open>\<^verbatim>\<open>*p\<close>\<close>

definition c_char :: "string \<Rightarrow> nat \<Rightarrow> char c_res" where
  "c_char s p = (if p < length s then Inr (s ! p) else if p = length s then Inr NUL else Inl OOB_read)"

text \<open>The offset of the first element with a property, counted from \<open>p\<close>.\<close>

fun find_at :: "('a \<Rightarrow> bool) \<Rightarrow> 'a list \<Rightarrow> nat \<Rightarrow> nat option" where
  "find_at P [] p = None"
| "find_at P (c # cs) p = (if P c then Some p else find_at P cs (Suc p))"

text \<open>\<^verbatim>\<open>strchr(s + p, c)\<close> for \<open>c\<close> other than NUL.\<close>

definition c_strchr :: "string \<Rightarrow> nat \<Rightarrow> char \<Rightarrow> nat option c_res" where
  "c_strchr s p c = (if p \<le> length s then Inr (find_at (\<lambda>d. d = c) (drop p s) p) else Inl OOB_read)"

definition c_toupper :: "char \<Rightarrow> char" where
  "c_toupper c = (if 97 \<le> (of_char c :: nat) \<and> (of_char c :: nat) \<le> 122 then char_of ((of_char c :: nat) - 32) else c)"

text \<open>\<^verbatim>\<open>!strcasecmp(s, t)\<close> and \<^verbatim>\<open>!strncasecmp(s + p, t, strlen(t))\<close>; \<^verbatim>\<open>!strncmp(s + p, t, strlen(t))\<close>.\<close>

definition c_caseeq :: "string \<Rightarrow> string \<Rightarrow> bool" where
  "c_caseeq s t \<longleftrightarrow> map c_toupper s = map c_toupper t"

definition c_strncase_at :: "string \<Rightarrow> nat \<Rightarrow> string \<Rightarrow> bool c_res" where
  "c_strncase_at s p t = (if p \<le> length s then Inr (map c_toupper (take (length t) (drop p s)) = map c_toupper t)
     else Inl OOB_read)"

definition c_strncmp_at :: "string \<Rightarrow> nat \<Rightarrow> string \<Rightarrow> bool c_res" where
  "c_strncmp_at s p t = (if p \<le> length s then Inr (take (length t) (drop p s) = t) else Inl OOB_read)"

definition ISBLANK :: "char \<Rightarrow> bool" where "ISBLANK c \<longleftrightarrow> c = CHR 0x20 \<or> c = CHR 0x09"
definition ISDIGIT :: "char \<Rightarrow> bool" where "ISDIGIT c \<longleftrightarrow> 48 \<le> (of_char c :: nat) \<and> (of_char c :: nat) \<le> 57"
definition ISALPHA :: "char \<Rightarrow> bool" where
  "ISALPHA c \<longleftrightarrow> 65 \<le> (of_char c :: nat) \<and> (of_char c :: nat) \<le> 90 \<or> 97 \<le> (of_char c :: nat) \<and> (of_char c :: nat) \<le> 122"

text \<open>\<^verbatim>\<open>SKIP_SPACES\<close>: the loop stops at the latest on the terminator.\<close>

definition skip_spaces :: "string \<Rightarrow> nat \<Rightarrow> nat c_res" where
  "skip_spaces s p = (if p \<le> length s then Inr (p + length (takeWhile ISBLANK (drop p s))) else Inl OOB_read)"

subsection \<open>Lemmas\<close>

lemma c_char_simps [simp]:
  "p < length s \<Longrightarrow> c_char s p = Inr (s ! p)"
  "c_char s (length s) = Inr NUL"
  by (simp_all add: c_char_def)

lemma c_char_Inr: "p \<le> length s \<Longrightarrow> \<exists>c. c_char s p = Inr c"
  by (cases "p = length s") (auto simp: c_char_def)

lemma find_at_Some:
  "find_at P xs p = Some q \<longleftrightarrow>
     p \<le> q \<and> q - p < length xs \<and> P (xs ! (q - p)) \<and> (\<forall>i < q - p. \<not> P (xs ! i))"
proof (induction xs arbitrary: p)
  case Nil
  then show ?case by simp
next
  case (Cons x xs)
  show ?case
  proof (cases "q \<le> p")
    case True
    with Cons.IH [of "Suc p"] show ?thesis by auto
  next
    case False
    then obtain d where d: "q - p = Suc d" "q - Suc p = d" by (metis Suc_diff_Suc diff_Suc_Suc not_le)
    with False Cons.IH [of "Suc p"] show ?thesis by (auto simp: All_less_Suc2)
  qed
qed

lemma find_at_None: "find_at P xs p = None \<longleftrightarrow> (\<forall>x \<in> set xs. \<not> P x)"
  by (induction xs arbitrary: p) auto

text \<open>The result of \<^verbatim>\<open>strchr\<close> as the least offset.\<close>

lemma c_strchr_Some:
  "c_strchr s p c = Inr (Some q) \<longleftrightarrow> p \<le> q \<and> q < length s \<and> s ! q = c \<and> (\<forall>i. p \<le> i \<and> i < q \<longrightarrow> s ! i \<noteq> c)"
proof (cases "p \<le> length s")
  case True
  have "(\<forall>i < q - p. drop p s ! i \<noteq> c) \<longleftrightarrow> (\<forall>i. p \<le> i \<and> i < q \<longrightarrow> s ! i \<noteq> c)" if "p \<le> q" "q < length s"
  proof
    assume H: "\<forall>i < q - p. drop p s ! i \<noteq> c"
    show "\<forall>i. p \<le> i \<and> i < q \<longrightarrow> s ! i \<noteq> c"
      using H [rule_format, of "i - p" for i] that by (metis True add_diff_inverse_nat diff_less_mono not_less nth_drop)
  next
    assume "\<forall>i. p \<le> i \<and> i < q \<longrightarrow> s ! i \<noteq> c"
    with that show "\<forall>i < q - p. drop p s ! i \<noteq> c" by auto
  qed
  with True show ?thesis by (auto simp: c_strchr_def find_at_Some)
qed (auto simp: c_strchr_def)

lemma c_strchr_None:
  "c_strchr s p c = Inr None \<longleftrightarrow> p \<le> length s \<and> (\<forall>i. p \<le> i \<and> i < length s \<longrightarrow> s ! i \<noteq> c)"
proof (cases "p \<le> length s")
  case True
  have "(\<forall>d \<in> set (drop p s). d \<noteq> c) \<longleftrightarrow> (\<forall>i. p \<le> i \<and> i < length s \<longrightarrow> s ! i \<noteq> c)"
  proof
    assume H: "\<forall>d \<in> set (drop p s). d \<noteq> c"
    show "\<forall>i. p \<le> i \<and> i < length s \<longrightarrow> s ! i \<noteq> c"
    proof (intro allI impI)
      fix i
      assume "p \<le> i \<and> i < length s"
      then have "s ! i \<in> set (drop p s)"
        by (auto simp: in_set_conv_nth intro!: exI [of _ "i - p"])
      with H show "s ! i \<noteq> c" by blast
    qed
  next
    assume H: "\<forall>i. p \<le> i \<and> i < length s \<longrightarrow> s ! i \<noteq> c"
    show "\<forall>d \<in> set (drop p s). d \<noteq> c"
    proof
      fix d
      assume "d \<in> set (drop p s)"
      then obtain i where "i < length s - p" "d = s ! (p + i)" by (auto simp: in_set_conv_nth)
      with H [rule_format, of "p + i"] show "d \<noteq> c" by simp
    qed
  qed
  with True show ?thesis by (auto simp: c_strchr_def find_at_None)
qed (auto simp: c_strchr_def)

lemma c_strchr_total: "p \<le> length s \<Longrightarrow> \<exists>r. c_strchr s p c = Inr r"
  by (simp add: c_strchr_def)

lemma skip_spaces_le: "skip_spaces s p = Inr q \<Longrightarrow> p \<le> q \<and> q \<le> length s"
  using length_takeWhile_le [of ISBLANK "drop p s"] by (auto simp: skip_spaces_def split: if_splits)

end
