(* ===== verification/Alc_Parser.thy ===== *)
theory Alc_Parser
  imports Alc_CStr
begin

text \<open>
  The lexical helpers of \<^verbatim>\<open>src/DB/parser.c\<close>: search for unescaped characters, quoted text, balanced parentheses,
  the tokens of a statement, and the split of a SCAN or SELECT command line. A pointer result is an offset,
  \<^verbatim>\<open>NULL\<close> is \<open>None\<close>.
\<close>

subsection \<open>Search for a character\<close>

fun strnchr :: "string \<Rightarrow> nat \<Rightarrow> char \<Rightarrow> nat \<Rightarrow> nat option c_res" where
  "strnchr s p c 0 = Inr None"
| "strnchr s p c (Suc n) =
     c_bind (c_char s p) (\<lambda>d. if d = c then Inr (Some p) else strnchr s (p + 1) c n)"

text \<open>The backslashes right before offset \<open>n\<close>, counted down to \<open>beg\<close>.\<close>

fun num_backslash :: "string \<Rightarrow> nat \<Rightarrow> nat \<Rightarrow> nat" where
  "num_backslash s beg 0 = 0"
| "num_backslash s beg (Suc n) =
     (if beg \<le> n \<and> s ! n = BACKSLASH then Suc (num_backslash s beg n) else 0)"

lemma c_strchr_le: "c_strchr s p c = Inr (Some q) \<Longrightarrow> p \<le> q \<and> q \<le> length s"
  by (simp add: c_strchr_Some)

lemma strnchr_le: "strnchr s p c n = Inr (Some q) \<Longrightarrow> p \<le> q \<and> q \<le> length s"
  by (induction s p c n rule: strnchr.induct) (fastforce simp: c_bind_Inr_iff c_char_def split: if_splits)+

text \<open>The loop of \<^verbatim>\<open>_strn_next_unescaped_chr\<close>; \<open>len\<close> is \<open>None\<close> for -1.\<close>

definition nextchr :: "nat option \<Rightarrow> string \<Rightarrow> nat \<Rightarrow> char \<Rightarrow> nat option c_res" where
  "nextchr len s nextc x = (case len of None \<Rightarrow> c_strchr s nextc x | Some n \<Rightarrow> strnchr s nextc x n)"

lemma nextchr_le: "nextchr len s p c = Inr (Some q) \<Longrightarrow> p \<le> q \<and> q \<le> length s"
  unfolding nextchr_def using c_strchr_le strnchr_le by (cases len) auto

function next_unescaped_loop :: "nat option \<Rightarrow> string \<Rightarrow> nat \<Rightarrow> char \<Rightarrow> nat \<Rightarrow> nat option c_res" where
  "next_unescaped_loop len s beg x nextc =
     c_bind (nextchr len s nextc x) (\<lambda>r. case r of
         None \<Rightarrow> Inr None
       | Some q \<Rightarrow>
           if q \<noteq> beg \<and> num_backslash s beg q mod 2 = 1 then next_unescaped_loop len s beg x (q + 1)
           else Inr (Some q))"
  by pat_completeness auto
termination
  by (relation "measure (\<lambda>(len, s, beg, x, nextc). Suc (length s) - nextc)") (auto dest: nextchr_le)

declare next_unescaped_loop.simps [simp del]

definition strn_next_unescaped :: "string \<Rightarrow> nat \<Rightarrow> nat \<Rightarrow> char \<Rightarrow> int \<Rightarrow> nat option c_res" where
  "strn_next_unescaped s beg p x len =
     next_unescaped_loop (if len \<ge> 0 then Some (nat len) else None) s beg x (p + 1)"

definition str_next_unescaped_chr :: "string \<Rightarrow> nat \<Rightarrow> nat \<Rightarrow> char \<Rightarrow> nat option c_res" where
  "str_next_unescaped_chr s beg p x = strn_next_unescaped s beg p x (- 1)"

definition strn_next_unescaped_chr :: "string \<Rightarrow> nat \<Rightarrow> nat \<Rightarrow> char \<Rightarrow> int \<Rightarrow> nat option c_res" where
  "strn_next_unescaped_chr s beg p x len = strn_next_unescaped s beg p x len"

subsection \<open>Case-insensitive search\<close>

text \<open>
  \<^verbatim>\<open>DXDB_strcasestr\<close>: the state is \<^verbatim>\<open>startn\<close> and the offset \<^verbatim>\<open>np\<close> in the needle (\<open>None\<close> for 0); the needle's
  terminator is read as NUL, which no character before the end of the haystack equals.
\<close>

fun strcasestr_loop :: "string \<Rightarrow> string \<Rightarrow> nat \<Rightarrow> nat \<Rightarrow> nat option \<Rightarrow> nat option" where
  "strcasestr_loop needle [] p startn np = None"
| "strcasestr_loop needle (c # cs) p startn np =
     (case np of
        Some k \<Rightarrow>
          if k < length needle \<and> c_toupper c = c_toupper (needle ! k)
          then if k + 1 = length needle then Some startn else strcasestr_loop needle cs (p + 1) startn (Some (k + 1))
          else strcasestr_loop needle cs (p + 1) startn None
      | None \<Rightarrow>
          if needle \<noteq> [] \<and> c_toupper c = c_toupper (needle ! 0)
          then strcasestr_loop needle cs (p + 1) p (Some 1)
          else strcasestr_loop needle cs (p + 1) startn None)"

definition DXDB_strcasestr :: "string \<Rightarrow> nat \<Rightarrow> string \<Rightarrow> nat option c_res" where
  "DXDB_strcasestr s p needle = (if p \<le> length s then Inr (strcasestr_loop needle (drop p s) p 0 None) else Inl OOB_read)"

text \<open>
  \<^verbatim>\<open>strcasestr_blockchar\<close>. The inner loop looks for blocks before \<open>found\<close>: \<open>Inl r\<close> is a return of the function,
  \<open>Inr bstart\<close> the \<^verbatim>\<open>break\<close> that searches again behind a block.
\<close>

lemma next_unescaped_loop_ge:
  "next_unescaped_loop len s beg x nextc = Inr (Some q) \<Longrightarrow> nextc \<le> q \<and> q \<le> length s"
proof (induction len s beg x nextc rule: next_unescaped_loop.induct)
  case (1 len s beg x nextc)
  obtain q' where q': "nextchr len s nextc x = Inr (Some q')"
    and "(q' \<noteq> beg \<and> num_backslash s beg q' mod 2 = 1 \<and> next_unescaped_loop len s beg x (q' + 1) = Inr (Some q)) \<or> q = q'"
    using "1.prems" unfolding next_unescaped_loop.simps [of len s beg x nextc]
    by (auto split: c_bind_splits option.splits if_splits)
  with nextchr_le [OF q'] "1.IH" [OF q' refl] show ?case by fastforce
qed

lemma str_next_unescaped_gt: "str_next_unescaped_chr s beg p x = Inr (Some q) \<Longrightarrow> p < q \<and> q \<le> length s"
  by (auto simp: str_next_unescaped_chr_def strn_next_unescaped_def dest: next_unescaped_loop_ge)

function block_loop :: "string \<Rightarrow> char \<Rightarrow> nat \<Rightarrow> nat \<Rightarrow> (nat option + nat) c_res" where
  "block_loop s b found bstart =
     c_bind (str_next_unescaped_chr s bstart bstart b) (\<lambda>q. case q of
       None \<Rightarrow> Inr (Inl (Some found))
     | Some bs \<Rightarrow>
         if bs > found then Inr (Inl (Some found))
         else c_bind (str_next_unescaped_chr s (bs + 1) (bs + 1) b) (\<lambda>be. case be of
             None \<Rightarrow> Inr (Inl None)
           | Some bend \<Rightarrow> if bend + 1 \<ge> found then Inr (Inr (bend + 1)) else block_loop s b found (bend + 1)))"
  by pat_completeness auto
termination
  by (relation "measure (\<lambda>(s, b, found, bstart). found - bstart)") (auto dest!: str_next_unescaped_gt)

declare block_loop.simps [simp del]

lemma block_loop_gt: "block_loop s b found bstart = Inr (Inr bs) \<Longrightarrow> bstart < bs \<and> found \<le> bs \<and> bs \<le> length s + 1"
proof (induction s b found bstart rule: block_loop.induct)
  case (1 s b found bstart)
  obtain q be where q: "str_next_unescaped_chr s bstart bstart b = Inr (Some q)" "q \<le> found"
    "str_next_unescaped_chr s (q + 1) (q + 1) b = Inr (Some be)"
    "be + 1 \<ge> found \<and> bs = be + 1 \<or> be + 1 < found \<and> block_loop s b found (be + 1) = Inr (Inr bs)"
    using "1.prems" unfolding block_loop.simps [of s b found bstart]
    by (auto split: c_bind_splits option.splits if_splits)
  show ?case
    using "1.IH" [OF q(1) refl _ q(3) refl] q(2,4) str_next_unescaped_gt [OF q(1)] str_next_unescaped_gt [OF q(3)]
    by fastforce
qed

function strcasestr_blockchar :: "string \<Rightarrow> nat \<Rightarrow> string \<Rightarrow> char \<Rightarrow> nat option c_res" where
  "strcasestr_blockchar s bstart needle b =
     c_bind (DXDB_strcasestr s bstart needle) (\<lambda>r. case r of
       None \<Rightarrow> Inr None
     | Some found \<Rightarrow> c_bind (block_loop s b found bstart) (\<lambda>r. case r of
           Inl r \<Rightarrow> Inr r
         | Inr bs \<Rightarrow> strcasestr_blockchar s bs needle b))"
  by pat_completeness auto
termination
  by (relation "measure (\<lambda>(s, bstart, needle, b). length s + 1 - bstart)")
    (auto simp: DXDB_strcasestr_def dest!: block_loop_gt split: if_splits)

declare strcasestr_blockchar.simps [simp del]

subsection \<open>Tokens\<close>

definition next_token :: "string \<Rightarrow> nat \<Rightarrow> nat option c_res" where
  "next_token s nextp = c_bind (c_strchr s nextp CHR '' '') (\<lambda>r. case r of
       None \<Rightarrow> Inr None
     | Some p \<Rightarrow> c_bind (skip_spaces s p) (\<lambda>p. Inr (if p < length s then Some p else None)))"

definition get_token_len :: "string \<Rightarrow> nat \<Rightarrow> nat c_res" where
  "get_token_len s tok = c_bind (c_strchr s tok CHR '' '') (\<lambda>x.
     Inr (case x of Some x \<Rightarrow> x - tok | None \<Rightarrow> length s - tok))"

definition rem_backticks :: "string \<Rightarrow> nat \<Rightarrow> nat \<Rightarrow> (nat \<times> int) c_res" where
  "rem_backticks s token len =
     c_bind (c_char s token) (\<lambda>c.
     c_bind (if token + len = 0 then Inl OOB_read else c_char s (token + len - 1)) (\<lambda>d.
       let (token, l) = (if c = BACKTICK then (token + 1, int len - 1) else (token, int len))
       in Inr (token, if d = BACKTICK then l - 1 else l)))"

definition extract_string_col :: "string \<Rightarrow> nat \<Rightarrow> nat \<Rightarrow> (nat \<times> int) option c_res" where
  "extract_string_col s start len =
     c_bind (c_char s start) (\<lambda>c.
       if c = SQUOTE then
         let start = start + 1; len = int len - 1 in
         c_bind (if int start + len - 1 < 0 then Inl OOB_read else c_char s (nat (int start + len - 1))) (\<lambda>d.
           Inr (if d = SQUOTE then Some (start, len - 1) else None))
       else Inr (Some (start, int len)))"

definition next_token_wc_key :: "string \<Rightarrow> nat \<Rightarrow> coltype \<Rightarrow> nat option c_res" where
  "next_token_wc_key s tkn ctype =
     (if ctype = COL_TYPE_STRING then
        c_bind (c_char s tkn) (\<lambda>c.
          if c \<noteq> SQUOTE then Inr None
          else c_bind (str_next_unescaped_chr s (tkn + 1) (tkn + 1) SQUOTE) (\<lambda>r. Inr (map_option Suc r)))
      else c_strchr s tkn CHR '' '')"

definition is_text :: "string \<Rightarrow> nat \<Rightarrow> nat \<Rightarrow> bool c_res" where
  "is_text s beg len =
     c_bind (c_char s beg) (\<lambda>dlm.
       if dlm = SQUOTE \<or> dlm = DQUOTE then
         c_bind (strn_next_unescaped_chr s (beg + 1) (beg + 1) dlm (int len - 1)) (\<lambda>r.
           Inr (case r of None \<Rightarrow> False | Some q \<Rightarrow> int q - int beg = int len - 1))
       else Inr False)"

subsection \<open>Parentheses and quotes\<close>

fun str_matching_end_loop :: "char \<Rightarrow> char \<Rightarrow> string \<Rightarrow> nat \<Rightarrow> bool \<Rightarrow> int \<Rightarrow> nat option" where
  "str_matching_end_loop sd fd [] x first n = None"
| "str_matching_end_loop sd fd (c # cs) x first n =
     (let n = (if c = sd then n + 1 else if c = fd then n - 1 else n) in
      if \<not> first \<and> n = 0 then Some x else str_matching_end_loop sd fd cs (x + 1) False n)"

definition str_matching_end_delim :: "string \<Rightarrow> nat \<Rightarrow> char \<Rightarrow> char \<Rightarrow> nat option c_res" where
  "str_matching_end_delim s beg sdelim fdelim =
     (if beg \<le> length s then Inr (str_matching_end_loop sdelim fdelim (drop beg s) beg True 0) else Inl OOB_read)"

definition str_matching_end_paren :: "string \<Rightarrow> nat \<Rightarrow> nat option c_res" where
  "str_matching_end_paren s beg = str_matching_end_delim s beg CHR ''('' CHR '')''"

function strstr_not_quoted :: "string \<Rightarrow> nat \<Rightarrow> string \<Rightarrow> nat option c_res" where
  "strstr_not_quoted s h n =
     c_bind (c_char s h) (\<lambda>c.
       if c = NUL then Inr None
       else c_bind (if c = SQUOTE then str_next_unescaped_chr s h h SQUOTE else Inr (Some h)) (\<lambda>r. case r of
           None \<Rightarrow> Inl Null_deref
         | Some h' \<Rightarrow> c_bind (c_strncmp_at s h' n) (\<lambda>eq.
             if eq then Inr (Some h') else strstr_not_quoted s (h' + 1) n)))"
  by pat_completeness auto
termination
  by (relation "measure (\<lambda>(s, h, n). length s + 1 - h)")
    (auto simp: c_char_def dest!: str_next_unescaped_gt split: if_splits)

function get_after_parens_loop :: "string \<Rightarrow> nat \<Rightarrow> int \<Rightarrow> nat option c_res" where
  "get_after_parens_loop s p parens =
     c_bind (c_char s p) (\<lambda>c.
       if c = NUL then Inr None
       else
         let parens = (if c = CHR ''('' then parens + 1 else if c = CHR '')'' then parens - 1 else parens) in
         c_bind (if c = SQUOTE then str_next_unescaped_chr s p p SQUOTE else Inr (Some p)) (\<lambda>r.
           if parens = 0 then Inr r
           else case r of None \<Rightarrow> Inl Null_deref | Some p' \<Rightarrow> get_after_parens_loop s (p' + 1) parens))"
  by pat_completeness auto
termination
  by (relation "measure (\<lambda>(s, p, n). length s + 1 - p)")
    (auto simp: c_char_def dest!: str_next_unescaped_gt split: if_splits)

definition get_after_parens :: "string \<Rightarrow> nat \<Rightarrow> nat option c_res" where
  "get_after_parens s p = get_after_parens_loop s p 0"

definition get_next_nonparaned_comma :: "string \<Rightarrow> nat \<Rightarrow> nat option c_res" where
  "get_next_nonparaned_comma s tkn =
     c_bind (skip_spaces s tkn) (\<lambda>tkn.
     c_bind (c_char s tkn) (\<lambda>c.
     c_bind (if c = SQUOTE then str_next_unescaped_chr s tkn tkn SQUOTE else Inr (Some tkn)) (\<lambda>r. case r of
       None \<Rightarrow> Inl Null_deref
     | Some tkn \<Rightarrow>
         c_bind (c_strchr s tkn CHR '','') (\<lambda>z. case z of
           None \<Rightarrow> Inr None
         | Some z \<Rightarrow> c_bind (c_strchr s tkn CHR ''('') (\<lambda>p. case p of
               None \<Rightarrow> Inr (Some z)
             | Some p \<Rightarrow>
                 if p < z then c_bind (get_after_parens s p) (\<lambda>y. case y of
                     None \<Rightarrow> Inr None | Some y \<Rightarrow> c_strchr s y CHR '','')
                 else Inr (Some z))))))"

function insert_value_loop :: "string \<Rightarrow> nat \<Rightarrow> nat option c_res" where
  "insert_value_loop s tkn =
     c_bind (c_char s tkn) (\<lambda>c.
       if c = NUL then Inr None
       else if c = CHR '','' then Inr (Some tkn)
       else c_bind (if c = SQUOTE then str_next_unescaped_chr s tkn tkn SQUOTE
                    else if c = CHR ''('' then str_next_unescaped_chr s tkn tkn CHR '')''
                    else if c = CHR ''{'' then str_next_unescaped_chr s tkn tkn CHR ''}''
                    else Inr (Some tkn)) (\<lambda>r. case r of
           None \<Rightarrow> Inr None
         | Some tkn' \<Rightarrow> insert_value_loop s (tkn' + 1)))"
  by pat_completeness auto
termination
  by (relation "measure (\<lambda>(s, p). length s + 1 - p)")
    (auto simp: c_char_def dest!: str_next_unescaped_gt split: if_splits)

definition get_next_insert_value_token :: "string \<Rightarrow> nat \<Rightarrow> nat option c_res" where
  "get_next_insert_value_token s tkn = c_bind (skip_spaces s tkn) (insert_value_loop s)"

declare strstr_not_quoted.simps [simp del] get_after_parens_loop.simps [simp del] insert_value_loop.simps [simp del]

subsection \<open>The command line of a SCAN or SELECT\<close>

text \<open>\<^verbatim>\<open>sdssplitlen\<close> with a separator of one character.\<close>

fun sdssplit_loop :: "char \<Rightarrow> string \<Rightarrow> string \<Rightarrow> string list" where
  "sdssplit_loop sep cur [] = [cur]"
| "sdssplit_loop sep cur (c # cs) =
     (if c = sep then cur # sdssplit_loop sep [] cs else sdssplit_loop sep (cur @ [c]) cs)"

definition sdssplitlen :: "char \<Rightarrow> string \<Rightarrow> string list" where
  "sdssplitlen sep s = (if s = [] then [] else sdssplit_loop sep [] s)"

text \<open>The loops that gather the non-empty tokens into one string.\<close>

fun cat_tokens :: "string \<Rightarrow> string \<Rightarrow> string list \<Rightarrow> string" where
  "cat_tokens sep acc [] = acc"
| "cat_tokens sep acc (t # ts) =
     (if t = [] then cat_tokens sep acc ts
      else cat_tokens sep ((if acc = [] then [] else acc @ sep) @ t) ts)"

definition find_tok :: "(string \<Rightarrow> bool) \<Rightarrow> string list \<Rightarrow> nat \<Rightarrow> nat" where
  "find_tok P argv j = (case find_at P (drop j argv) j of None \<Rightarrow> max j (length argv) | Some k \<Rightarrow> k)"

definition parseScanCmdToArgv :: "string \<Rightarrow> string list option" where
  "parseScanCmdToArgv as_cmd =
     (let argv = sdssplitlen CHR '' '' as_cmd; rargc = length argv in
      if rargc < 4 then None
      else if \<not> (c_caseeq (argv ! 0) ''SCAN'' \<or> c_caseeq (argv ! 0) ''SELECT'') then None
      else
        let is_sel = \<not> c_caseeq (argv ! 0) ''SCAN'' in
        if is_sel \<and> rargc < 6 then None
        else
          let j = find_tok (\<lambda>t. c_caseeq t ''FROM'') argv 1 in
          if j = rargc - 1 \<or> j = 1 then None
          else
            let k = find_tok (\<lambda>t. c_caseeq t ''WHERE'' \<or> c_caseeq t ''ORDER'') argv (j + 1);
                nowc_oby = (k < rargc \<and> \<not> c_caseeq (argv ! k) ''WHERE'') in
            if is_sel \<and> nowc_oby then None
            else if k = j + 1 then None
            else if k = rargc - 1 then None
            else
              let nowc = (k = rargc) in
              if is_sel \<and> nowc then None
              else
                let hd4 = [if is_sel then ''SELECT'' else ''SCAN'', cat_tokens '','' [] (take (j - 1) (drop 1 argv)),
                           ''FROM'', cat_tokens '','' [] (take (k - (j + 1)) (drop (j + 1) argv))]
                in Some (if nowc then hd4
                         else if nowc_oby then hd4 @ [cat_tokens '' '' ''ORDER '' (drop (k + 1) argv)]
                         else hd4 @ [''WHERE'', cat_tokens '' '' [] (drop (k + 1) argv)]))"

subsection \<open>What the search for an unescaped character finds\<close>

definition unescaped :: "string \<Rightarrow> nat \<Rightarrow> char \<Rightarrow> nat \<Rightarrow> bool" where
  "unescaped s beg x q \<longleftrightarrow> q < length s \<and> s ! q = x \<and> (q = beg \<or> even (num_backslash s beg q))"

definition first_unescaped :: "string \<Rightarrow> nat \<Rightarrow> char \<Rightarrow> nat \<Rightarrow> nat option \<Rightarrow> bool" where
  "first_unescaped s beg x p r \<longleftrightarrow> (case r of
       None \<Rightarrow> \<forall>i \<ge> p. \<not> unescaped s beg x i
     | Some q \<Rightarrow> p \<le> q \<and> unescaped s beg x q \<and> (\<forall>i. p \<le> i \<and> i < q \<longrightarrow> \<not> unescaped s beg x i))"

lemma next_unescaped_loop_first:
  assumes "nextc \<le> length s"
  shows "\<exists>r. next_unescaped_loop None s beg x nextc = Inr r \<and> first_unescaped s beg x nextc r"
  using assms
proof (induction "None :: nat option" s beg x nextc rule: next_unescaped_loop.induct)
  case (1 s beg x nextc)
  obtain r where r: "c_strchr s nextc x = Inr r" using c_strchr_total [OF "1.prems"] by blast
  show ?case
  proof (cases r)
    case None
    then have "\<forall>i \<ge> nextc. \<not> unescaped s beg x i" using r by (auto simp: c_strchr_None unescaped_def)
    with r None show ?thesis
      by (subst next_unescaped_loop.simps) (simp add: nextchr_def first_unescaped_def)
  next
    case (Some q)
    then have q: "nextc \<le> q" "q < length s" "s ! q = x" "\<And>i. nextc \<le> i \<Longrightarrow> i < q \<Longrightarrow> s ! i \<noteq> x"
      using r by (auto simp: c_strchr_Some)
    show ?thesis
    proof (cases "q \<noteq> beg \<and> num_backslash s beg q mod 2 = 1")
      case True
      then have run: "next_unescaped_loop None s beg x nextc = next_unescaped_loop None s beg x (q + 1)"
        using r Some by (subst next_unescaped_loop.simps) (simp add: nextchr_def)
      have nr: "nextchr None s nextc x = Inr r" using r by (simp add: nextchr_def)
      obtain r' where r': "next_unescaped_loop None s beg x (q + 1) = Inr r'" "first_unescaped s beg x (q + 1) r'"
        using "1.hyps" [OF nr Some True] q(2) by auto
      have skip: "\<not> unescaped s beg x i" if "nextc \<le> i" "i < q + 1" for i
        using q(4) [of i] that True by (cases "i = q") (auto simp: unescaped_def odd_iff_mod_2_eq_one)
      have "first_unescaped s beg x nextc r'"
        using r'(2) skip q(1) unfolding first_unescaped_def
        by (auto split: option.splits) (meson Suc_leI add.commute leI not_less_eq_eq | force)+
      with run r' show ?thesis by simp
    next
      case False
      then have "unescaped s beg x q" using q by (auto simp: unescaped_def even_iff_mod_2_eq_zero)
      moreover have "next_unescaped_loop None s beg x nextc = Inr (Some q)"
        using r Some False by (subst next_unescaped_loop.simps) (auto simp: nextchr_def)
      ultimately show ?thesis using q by (auto simp: first_unescaped_def unescaped_def)
    qed
  qed
qed


lemma str_next_unescaped_first:
  "p < length s \<Longrightarrow> \<exists>r. str_next_unescaped_chr s beg p x = Inr r \<and> first_unescaped s beg x (p + 1) r"
  using next_unescaped_loop_first [of "p + 1" s beg x]
  by (simp add: str_next_unescaped_chr_def strn_next_unescaped_def)

lemma first_unescaped_unique:
  "first_unescaped s beg x p r \<Longrightarrow> first_unescaped s beg x p r' \<Longrightarrow> r = r'"
  by (auto simp: first_unescaped_def split: option.splits) (metis linorder_neqE_nat)

subsection \<open>Escaped text\<close>

text \<open>Text as a client quotes it: a backslash before every single quote and every backslash.\<close>

fun escape :: "string \<Rightarrow> string" where
  "escape [] = []"
| "escape (c # cs) = (if c = SQUOTE \<or> c = BACKSLASH then [BACKSLASH, c] else [c]) @ escape cs"

lemma escape_append: "escape (xs @ ys) = escape xs @ escape ys"
  by (induction xs) auto

lemma num_backslash_append: "n \<le> length s \<Longrightarrow> num_backslash (s @ t) beg n = num_backslash s beg n"
  by (induction n) (auto simp: nth_append)

lemma even_after_escape:
  "even (num_backslash (pre @ SQUOTE # escape t) (length pre) (length pre + 1 + length (escape t)))"
proof (induction t rule: rev_induct)
  case Nil
  then show ?case by (simp add: nth_append)
next
  case (snoc c t)
  let ?s = "pre @ SQUOTE # escape t"
  have e: "pre @ SQUOTE # escape (t @ [c]) = ?s @ escape [c]" by (simp add: escape_append)
  have l: "length pre + 1 + length (escape t) = length ?s" by simp
  have k: "num_backslash (?s @ u) (length pre) (length ?s) = num_backslash ?s (length pre) (length ?s)" for u
    by (rule num_backslash_append) simp
  have "num_backslash (?s @ [BACKSLASH, d]) (length pre) (Suc (Suc (length ?s))) =
      (if d = BACKSLASH then Suc (Suc (num_backslash ?s (length pre) (length ?s))) else 0)" for d
    using k by (simp add: nth_append)
  moreover have "d \<noteq> BACKSLASH \<Longrightarrow> num_backslash (?s @ [d]) (length pre) (Suc (length ?s)) = 0" for d
    by (simp add: nth_append)
  ultimately show ?case
    using snoc unfolding e l by (auto simp del: num_backslash.simps simp add: escape_append)
qed

lemma escape_quote_pos:
  "i < length (escape t) \<Longrightarrow> escape t ! i = SQUOTE \<Longrightarrow> \<exists>u v. t = u @ SQUOTE # v \<and> i = length (escape u) + 1"
proof (induction t arbitrary: i)
  case Nil
  then show ?case by simp
next
  case (Cons c t)
  let ?h = "if c = SQUOTE \<or> c = BACKSLASH then [BACKSLASH, c] else [c]"
  show ?case
  proof (cases "i < length ?h")
    case True
    with Cons.prems have "c = SQUOTE \<and> i = 1"
      by (auto simp: nth_append nth_Cons split: if_splits nat.splits)
    then show ?thesis by (intro exI [of _ "[]"] exI [of _ t]) simp
  next
    case False
    with Cons.prems have "escape t ! (i - length ?h) = SQUOTE" "i - length ?h < length (escape t)"
      by (auto simp: nth_append split: if_splits)
    from Cons.IH [OF this(2,1)] obtain u v where "t = u @ SQUOTE # v" "i - length ?h = length (escape u) + 1" by blast
    with False show ?thesis by (intro exI [of _ "c # u"] exI [of _ v]) auto
  qed
qed

lemma quoted_end:
  "str_next_unescaped_chr (pre @ SQUOTE # escape t @ SQUOTE # rest) (length pre) (length pre) SQUOTE =
     Inr (Some (length pre + 1 + length (escape t)))"
proof -
  let ?s = "pre @ SQUOTE # escape t @ SQUOTE # rest" and ?p = "length pre"
  let ?q = "?p + 1 + length (escape t)"
  have at: "num_backslash (pre @ SQUOTE # escape u @ w) ?p (?p + 1 + length (escape u)) =
      num_backslash (pre @ SQUOTE # escape u) ?p (?p + 1 + length (escape u))" for u w
    using num_backslash_append [of "?p + 1 + length (escape u)" "pre @ SQUOTE # escape u" w ?p] by simp
  have "unescaped ?s ?p SQUOTE ?q"
    using even_after_escape [of pre t] at [of t "SQUOTE # rest"] by (simp add: unescaped_def nth_append)
  moreover have "\<not> unescaped ?s ?p SQUOTE i" if i: "?p + 1 \<le> i" "i < ?q" for i
  proof
    assume un: "unescaped ?s ?p SQUOTE i"
    have "?s ! i = escape t ! (i - (?p + 1))"
      using i by (auto simp: nth_append nth_Cons')
    moreover have lt: "i - (?p + 1) < length (escape t)" using i by simp
    ultimately obtain u v where uv: "t = u @ SQUOTE # v" "i - (?p + 1) = length (escape u) + 1"
      using un escape_quote_pos [OF lt] by (auto simp: unescaped_def)
    then have ie: "i = Suc (?p + 1 + length (escape u))" using i by simp
    have se: "?s = pre @ SQUOTE # escape u @ (BACKSLASH # SQUOTE # escape v @ SQUOTE # rest)"
      by (simp add: uv(1) escape_append)
    have "num_backslash ?s ?p i = Suc (num_backslash ?s ?p (?p + 1 + length (escape u)))"
      unfolding ie se by (simp add: nth_append)
    then show False
      using un even_after_escape [of pre u] at [of u "BACKSLASH # SQUOTE # escape v @ SQUOTE # rest"] ie
      unfolding se unescaped_def by simp
  qed
  ultimately have "first_unescaped ?s ?p SQUOTE (?p + 1) (Some ?q)" by (simp add: first_unescaped_def)
  then show ?thesis
    using str_next_unescaped_first [of ?p ?s ?p SQUOTE] first_unescaped_unique by fastforce
qed

text \<open>
  C13. Scanning of quoted values in INSERT. For every text, \<^verbatim>\<open>get_next_insert_value_token\<close> on the text between single
  quotes, with its quotes and backslashes escaped, blanks before it and a comma behind it, returns the place of
  that comma: commas, parentheses and quotes inside the text do not end the value.
\<close>

theorem insert_value_quoted:
  assumes "\<forall>c \<in> set bl. ISBLANK c"
  shows "get_next_insert_value_token (bl @ SQUOTE # escape t @ SQUOTE # CHR '','' # rest) 0 =
     Inr (Some (length bl + length (escape t) + 2))"
proof -
  let ?s = "bl @ SQUOTE # escape t @ SQUOTE # CHR '','' # rest"
  have "takeWhile ISBLANK ?s = bl" using assms by (simp add: takeWhile_append ISBLANK_def)
  then have sk: "skip_spaces ?s 0 = Inr (length bl)" by (simp add: skip_spaces_def)
  have c1: "c_char ?s (length bl) = Inr SQUOTE" by (simp add: nth_append)
  have c2: "c_char ?s (Suc (length bl + 1 + length (escape t))) = Inr (CHR '','')" by (simp add: nth_append)
  have "insert_value_loop ?s (length bl) = insert_value_loop ?s (Suc (length bl + 1 + length (escape t)))"
    using c1 quoted_end [of bl t "CHR '','' # rest"] by (subst insert_value_loop.simps) simp
  also have "\<dots> = Inr (Some (Suc (length bl + 1 + length (escape t))))"
    using c2 by (subst insert_value_loop.simps) (simp del: c_char_simps)
  finally show ?thesis using sk by (simp add: get_next_insert_value_token_def)
qed

theorem insert_value_quoted_witness:
  "get_next_insert_value_token ('' '' @ SQUOTE # escape ''it'' @ SQUOTE # CHR '','' # ''7)'') 0 = Inr (Some (1 + 2 + 2))"
  using insert_value_quoted [of "'' ''" "''it''" "''7)''"] by (simp add: ISBLANK_def)

subsection \<open>The search for a keyword outside quotes\<close>

definition case_match :: "string \<Rightarrow> nat \<Rightarrow> string \<Rightarrow> nat \<Rightarrow> bool" where
  "case_match s q needle k \<longleftrightarrow> (\<forall>i < k. q + i < length s \<and> c_toupper (s ! (q + i)) = c_toupper (needle ! i))"

lemma case_match_Suc:
  "case_match s q needle (Suc k) \<longleftrightarrow>
     case_match s q needle k \<and> q + k < length s \<and> c_toupper (s ! (q + k)) = c_toupper (needle ! k)"
  by (auto simp: case_match_def less_Suc_eq)

lemma strcasestr_loop_match:
  "strcasestr_loop needle (drop p s) p st np = Some q \<Longrightarrow> p \<le> length s \<Longrightarrow> p0 \<le> p \<Longrightarrow>
     (\<And>k. np = Some k \<Longrightarrow> p0 \<le> st \<and> st + k = p \<and> 1 \<le> k \<and> case_match s st needle k) \<Longrightarrow>
     p0 \<le> q \<and> case_match s q needle (length needle) \<and> 2 \<le> length needle"
proof (induction "length s - p" arbitrary: p st np)
  case 0
  then show ?case by simp
next
  case (Suc n)
  then have p: "p < length s" "drop p s = s ! p # drop (p + 1) s" by (simp_all add: Cons_nth_drop_Suc)
  have n: "n = length s - (p + 1)" using Suc.hyps(2) by simp
  show ?case
  proof (cases np)
    case None
    show ?thesis
    proof (cases "needle \<noteq> [] \<and> c_toupper (s ! p) = c_toupper (needle ! 0)")
      case True
      then have "strcasestr_loop needle (drop (p + 1) s) (p + 1) p (Some 1) = Some q"
        using Suc.prems(1) None p(2) by simp
      moreover have "case_match s p needle 1" using True p(1) by (simp add: case_match_def)
      ultimately show ?thesis using p(1) Suc.prems(3) by (intro Suc.hyps(1) [OF n]) auto
    next
      case False
      then have "strcasestr_loop needle (drop (p + 1) s) (p + 1) st None = Some q"
        using Suc.prems(1) None p(2) by (auto split: if_splits)
      with p(1) Suc.prems(3) show ?thesis by (intro Suc.hyps(1) [OF n]) auto
    qed
  next
    case (Some k)
    note k = Suc.prems(4) [OF Some]
    show ?thesis
    proof (cases "k < length needle \<and> c_toupper (s ! p) = c_toupper (needle ! k)")
      case True
      then have m: "case_match s st needle (Suc k)" using k p(1) by (simp add: case_match_Suc)
      show ?thesis
      proof (cases "k + 1 = length needle")
        case last: True
        then have "q = st" using Suc.prems(1) Some p(2) True by simp
        with m last k show ?thesis by auto
      next
        case False
        then have "strcasestr_loop needle (drop (p + 1) s) (p + 1) st (Some (k + 1)) = Some q"
          using Suc.prems(1) Some p(2) True by simp
        with p(1) k m Suc.prems(3) show ?thesis by (intro Suc.hyps(1) [OF n]) auto
      qed
    next
      case False
      then have "strcasestr_loop needle (drop (p + 1) s) (p + 1) st None = Some q"
        using Suc.prems(1) Some p(2) by (auto split: if_splits)
      with p(1) Suc.prems(3) show ?thesis by (intro Suc.hyps(1) [OF n]) auto
    qed
  qed
qed

lemma DXDB_strcasestr_match:
  assumes "DXDB_strcasestr s p needle = Inr (Some q)"
  shows "p \<le> q \<and> q + 1 < length s \<and> case_match s q needle (length needle)"
proof -
  have "p \<le> q \<and> case_match s q needle (length needle) \<and> 2 \<le> length needle"
    using assms strcasestr_loop_match [of needle p s 0 None q p] by (auto simp: DXDB_strcasestr_def split: if_splits)
  moreover from this have "q + 1 < length s" unfolding case_match_def by (auto dest!: spec [of _ 1])
  ultimately show ?thesis by blast
qed

lemma block_loop_total:
  "bstart \<le> found \<Longrightarrow> found + 1 < length s \<Longrightarrow>
     \<exists>r. block_loop s b found bstart = Inr r \<and>
       (case r of Inl r \<Rightarrow> r = None \<or> r = Some found | Inr bs \<Rightarrow> bs \<le> length s)"
proof (induction s b found bstart rule: block_loop.induct)
  case (1 s b found bstart)
  obtain r where r: "str_next_unescaped_chr s bstart bstart b = Inr r"
    using str_next_unescaped_first [of bstart s bstart b] "1.prems" by auto
  show ?case
  proof (cases r)
    case None
    with r show ?thesis by (subst block_loop.simps) simp
  next
    case (Some bs)
    show ?thesis
    proof (cases "bs > found")
      case True
      with r Some show ?thesis by (subst block_loop.simps) simp
    next
      case False
      then obtain r2 where r2: "str_next_unescaped_chr s (bs + 1) (bs + 1) b = Inr r2"
        "first_unescaped s (bs + 1) b (bs + 1 + 1) r2"
        using str_next_unescaped_first [of "bs + 1" s "bs + 1" b] "1.prems" by auto
      show ?thesis
      proof (cases r2)
        case None
        with r Some False r2 show ?thesis by (subst block_loop.simps) simp
      next
        case s2: (Some bend)
        then have "bend < length s" using r2(2) by (simp add: first_unescaped_def unescaped_def)
        with r Some False r2 s2 "1.IH" [OF r Some _ r2(1) s2] "1.prems" show ?thesis
          by (subst block_loop.simps) (auto simp: not_less)
      qed
    qed
  qed
qed

text \<open>
  C14. The search for a keyword such as AND or WHERE, \<^verbatim>\<open>strcasestr_blockchar\<close>: from every place of every string it
  ends without reading outside the string, and where it returns a place the keyword stands there, in any mix of
  upper and lower case.
\<close>

theorem strcasestr_blockchar_safe:
  assumes "p \<le> length s"
  shows "\<exists>r. strcasestr_blockchar s p needle b = Inr r \<and>
     (\<forall>q. r = Some q \<longrightarrow> c_strncase_at s q needle = Inr True)"
  using assms
proof (induction s p needle b rule: strcasestr_blockchar.induct)
  case (1 s p needle b)
  obtain r where r: "DXDB_strcasestr s p needle = Inr r" using "1.prems" by (simp add: DXDB_strcasestr_def)
  show ?case
  proof (cases r)
    case None
    with r show ?thesis by (subst strcasestr_blockchar.simps) simp
  next
    case (Some f)
    have f: "p \<le> f" "f + 1 < length s" "case_match s f needle (length needle)"
      using DXDB_strcasestr_match r Some by blast+
    have "c_strncase_at s f needle = Inr True"
    proof -
      have "length needle \<le> length s - f"
        using f(3) by (cases needle rule: rev_cases) (auto simp: case_match_def dest: spec [of _ "length needle - 1"])
      then have "map c_toupper (take (length needle) (drop f s)) = map c_toupper needle"
        using f(3) by (intro nth_equalityI) (auto simp: case_match_def)
      with f(2) show ?thesis by (simp add: c_strncase_at_def)
    qed
    with block_loop_total [OF f(1,2), of b] r Some "1.IH" [OF r Some] show ?thesis
      by (subst strcasestr_blockchar.simps) (fastforce split: sum.splits)
  qed
qed

theorem strcasestr_blockchar_safe_witness:
  "\<exists>r. strcasestr_blockchar ''a = 1 and b = 2'' 0 '' AND '' SQUOTE = Inr r \<and>
     (\<forall>q. r = Some q \<longrightarrow> c_strncase_at ''a = 1 and b = 2'' q '' AND '' = Inr True)"
  by (rule strcasestr_blockchar_safe) simp

subsection \<open>The split of a command line\<close>

text \<open>Tokens joined by a separator.\<close>

fun join_toks :: "string \<Rightarrow> string list \<Rightarrow> string" where
  "join_toks sep [] = []"
| "join_toks sep [t] = t"
| "join_toks sep (t # u # ts) = t @ sep @ join_toks sep (u # ts)"

lemma sdssplit_loop_token:
  "sep \<notin> set t \<Longrightarrow> sdssplit_loop sep cur (t @ rest) = sdssplit_loop sep (cur @ t) rest"
  by (induction t arbitrary: cur) auto

lemma sdssplit_join:
  "ts \<noteq> [] \<Longrightarrow> (\<And>t. t \<in> set ts \<Longrightarrow> sep \<notin> set t) \<Longrightarrow> sdssplit_loop sep [] (join_toks [sep] ts) = ts"
proof (induction "[sep]" ts rule: join_toks.induct)
  case (2 t)
  then show ?case using sdssplit_loop_token [of sep t "[]" "[]"] by simp
next
  case (3 t u ts)
  then show ?case using sdssplit_loop_token [of sep t "[]" "sep # join_toks [sep] (u # ts)"] by simp
qed simp

lemma cat_tokens_join:
  "acc \<noteq> [] \<Longrightarrow> (\<And>t. t \<in> set ts \<Longrightarrow> t \<noteq> []) \<Longrightarrow> cat_tokens sep acc ts = join_toks sep (acc # ts)"
proof (induction ts arbitrary: acc)
  case (Cons t ts)
  then have "cat_tokens sep acc (t # ts) = join_toks sep ((acc @ sep @ t) # ts)" by simp
  also have "\<dots> = join_toks sep (acc # t # ts)" by (cases ts) simp_all
  finally show ?case .
qed simp

lemma cat_tokens_all: "(\<And>t. t \<in> set ts \<Longrightarrow> t \<noteq> []) \<Longrightarrow> cat_tokens sep [] ts = join_toks sep ts"
  using cat_tokens_join [of "hd ts" "tl ts" sep] by (cases ts) auto

lemma find_tok_mid:
  assumes "\<And>t. t \<in> set us \<Longrightarrow> \<not> P t" "P v"
  shows "find_tok P (pre @ us @ v # rest) (length pre) = length pre + length us"
proof -
  have "find_at P (us @ v # rest) p = Some (p + length us)" for p
    using assms(1) by (induction us arbitrary: p) (auto simp: assms(2))
  then show ?thesis by (simp add: find_tok_def)
qed

text \<open>
  C15. The command line of a SELECT. Columns, tables and the words of the WHERE clause, each free of blanks, are
  recovered from the line: \<^verbatim>\<open>parseScanCmdToArgv\<close> returns the six arguments of the command, the columns and the
  tables joined by commas and the WHERE clause by blanks, as long as no column is the word FROM and no table the
  word WHERE or ORDER.
\<close>

theorem parseScan_select:
  assumes ne: "cs \<noteq> []" "ts \<noteq> []" "ws \<noteq> []"
    and tok: "\<forall>t \<in> set (cs @ ts @ ws). t \<noteq> [] \<and> CHR '' '' \<notin> set t"
    and nf: "\<forall>t \<in> set cs. \<not> c_caseeq t ''FROM''"
    and nw: "\<forall>t \<in> set ts. \<not> c_caseeq t ''WHERE'' \<and> \<not> c_caseeq t ''ORDER''"
  shows "parseScanCmdToArgv (join_toks '' '' (''SELECT'' # cs @ ''FROM'' # ts @ ''WHERE'' # ws)) =
     Some [''SELECT'', join_toks '','' cs, ''FROM'', join_toks '','' ts, ''WHERE'', join_toks '' '' ws]"
proof -
  let ?av = "''SELECT'' # cs @ ''FROM'' # ts @ ''WHERE'' # ws"
  let ?j = "Suc (length cs)" and ?k = "Suc (Suc (length cs)) + length ts"
  have "join_toks '' '' ?av \<noteq> []" using ne by (cases cs) auto
  moreover have "sdssplit_loop CHR '' '' [] (join_toks '' '' ?av) = ?av"
    by (rule sdssplit_join) (use tok in auto)
  ultimately have av: "sdssplitlen CHR '' '' (join_toks '' '' ?av) = ?av" by (simp add: sdssplitlen_def)
  have len: "4 \<le> length cs + length ts + length ws + 1" "0 < length cs" "0 < length ts" "0 < length ws"
    using ne by (cases cs; cases ts; cases ws; simp)+
  have j: "find_tok (\<lambda>t. c_caseeq t ''FROM'') ?av 1 = ?j"
    using find_tok_mid [of cs "\<lambda>t. c_caseeq t ''FROM''" "''FROM''" "[''SELECT'']"] nf
    by (simp add: c_caseeq_def)
  have k: "find_tok (\<lambda>t. c_caseeq t ''WHERE'' \<or> c_caseeq t ''ORDER'') ?av (Suc ?j) = ?k"
    using find_tok_mid [of ts "\<lambda>t. c_caseeq t ''WHERE'' \<or> c_caseeq t ''ORDER''" "''WHERE''" "''SELECT'' # cs @ [''FROM'']"] nw
    by (simp add: c_caseeq_def)
  have kw: "?av ! ?k = ''WHERE''" by (simp add: nth_append)
  have parts: "take (?j - 1) (drop 1 ?av) = cs" "take (?k - Suc ?j) (drop (Suc ?j) ?av) = ts" "drop (Suc ?k) ?av = ws"
    by simp_all
  have cat: "cat_tokens '','' [] cs = join_toks '','' cs" "cat_tokens '','' [] ts = join_toks '','' ts"
    "cat_tokens '' '' [] ws = join_toks '' '' ws"
    using tok by (auto intro: cat_tokens_all)
  have eqs: "\<not> c_caseeq ''SELECT'' ''SCAN''" "c_caseeq ''SELECT'' ''SELECT''" "c_caseeq ''WHERE'' ''WHERE''"
    by code_simp+
  define w where "w = ?av"
  have w: "length w = length cs + length ts + length ws + 3" "w ! 0 = ''SELECT''"
    and w3: "find_tok (\<lambda>t. c_caseeq t ''FROM'') w (Suc 0) = ?j"
    "find_tok (\<lambda>t. c_caseeq t ''WHERE'' \<or> c_caseeq t ''ORDER'') w (Suc ?j) = ?k" "w ! ?k = ''WHERE''"
    and w4: "take (?j - 1) (drop (Suc 0) w) = cs" "take (?k - Suc ?j) (drop (Suc ?j) w) = ts" "drop (Suc ?k) w = ws"
    and w5: "sdssplitlen CHR '' '' (join_toks '' '' ?av) = w"
    unfolding w_def using j k kw parts av by simp_all
  have n: "\<not> length w < 4" "\<not> length w < 6" "?j \<noteq> length w - 1" "?j \<noteq> 1" "?k < length w" "?k \<noteq> length w - 1"
    "?k \<noteq> ?j + 1" "?k \<noteq> length w"
    unfolding w(1) using len by linarith+
  show ?thesis
    unfolding parseScanCmdToArgv_def w5 Let_def
    using n w4 cat w3(3) by (simp add: w(2) w3 eqs del: length_0_conv)
qed

theorem parseScan_select_witness:
  "parseScanCmdToArgv (join_toks '' '' (''SELECT'' # [''id'', ''name''] @ ''FROM'' # [''emp''] @ ''WHERE'' # [''id'', ''='', ''4''])) =
     Some [''SELECT'', join_toks '','' [''id'', ''name''], ''FROM'', join_toks '','' [''emp''], ''WHERE'',
       join_toks '' '' [''id'', ''='', ''4'']]"
  by (rule parseScan_select) (code_simp | simp)+


end
