(* ===== verification/Alc_Stream.thy ===== *)
theory Alc_Stream
  imports Alc_Prelude
begin

text \<open>
  The stream encoding of numbers, \<^verbatim>\<open>src/DB/stream.c\<close>: an unsigned integer is stored in 1, 2, 4, 5
  (INT) or 1, 2, 4, 6, 8, 9 (LONG) bytes, the low bits of the first byte telling which. A float is
  its 32-bit image, which the code only copies. A write through \<^verbatim>\<open>uchar **row\<close> is the list of bytes it
  appends; a read is checked against the bytes there are. \<^verbatim>\<open>addReply\<close> error replies are values.
\<close>

datatype stream_reply = Col_uint_string_too_long | U2big | Col_float_string_too_long | U128_parse

definition COL_1BYTE_INT :: byte where "COL_1BYTE_INT = 1"
definition COL_2BYTE_INT :: byte where "COL_2BYTE_INT = 2"
definition COL_4BYTE_INT :: byte where "COL_4BYTE_INT = 4"
definition COL_6BYTE_INT :: byte where "COL_6BYTE_INT = 8"
definition COL_8BYTE_INT :: byte where "COL_8BYTE_INT = 16"
definition COL_5BYTE_INT :: byte where "COL_5BYTE_INT = 32"
definition COL_9BYTE_INT :: byte where "COL_9BYTE_INT = 32"

lemmas col_flag_defs = COL_1BYTE_INT_def COL_2BYTE_INT_def COL_4BYTE_INT_def COL_6BYTE_INT_def
  COL_8BYTE_INT_def COL_5BYTE_INT_def COL_9BYTE_INT_def

definition TWO_POW_7 :: ulong where "TWO_POW_7 = 128"
definition TWO_POW_14 :: ulong where "TWO_POW_14 = 16384"
definition TWO_POW_29 :: ulong where "TWO_POW_29 = 536870912"
definition TWO_POW_44 :: ulong where "TWO_POW_44 = 17592186044416"
definition TWO_POW_59 :: ulong where "TWO_POW_59 = 576460752303423488"
definition TWO_POW_32 :: ulong where "TWO_POW_32 = 4294967296"

lemmas two_pow_defs = TWO_POW_7_def TWO_POW_14_def TWO_POW_29_def TWO_POW_44_def TWO_POW_59_def
  TWO_POW_32_def

text \<open>Reading the first \<open>n\<close> bytes at a pointer.\<close>

definition c_take :: "nat \<Rightarrow> byte list \<Rightarrow> byte list c_res" where
  "c_take n data = (if n \<le> length data then Inr (take n data) else Inl OOB_read)"

definition row_malloc_size :: "nat \<Rightarrow> nat" where
  "row_malloc_size sz = ((sz + 7) div 8) * 8"

subsection \<open>INT and LONG columns\<close>

definition getCSize :: "ulong \<Rightarrow> bool \<Rightarrow> nat" where
  "getCSize l isi =
     (if l < TWO_POW_7 then 1
      else if l < TWO_POW_14 then 2
      else if l < TWO_POW_29 then 4
      else if isi then 5
      else if l < TWO_POW_44 then 6
      else if l < TWO_POW_59 then 8
      else 9)"

text \<open>\<^verbatim>\<open>cIcol\<close>: the returned size, \<^verbatim>\<open>*sflag\<close> and \<^verbatim>\<open>*col\<close>.\<close>

definition cIcol :: "ulong \<Rightarrow> bool \<Rightarrow> nat \<times> byte \<times> ulong" where
  "cIcol l isi =
     (if l < TWO_POW_7 then (1, COL_1BYTE_INT, l * 2 + 1)
      else if l < TWO_POW_14 then (2, COL_2BYTE_INT, l * 4 + 2)
      else if l < TWO_POW_29 then (4, COL_4BYTE_INT, l * 8 + 4)
      else if isi then (5, COL_5BYTE_INT, l)
      else if l < TWO_POW_44 then (6, COL_6BYTE_INT, l * 16 + 8)
      else if l < TWO_POW_59 then (8, COL_8BYTE_INT, l * 32 + 16)
      else (9, COL_9BYTE_INT, l))"

definition wUCol :: "byte \<Rightarrow> ulong \<Rightarrow> bool \<Rightarrow> byte list" where
  "wUCol sflag icol isi =
     (if sflag = 0 then []
      else if sflag = COL_1BYTE_INT then [ucast icol]
      else if sflag = COL_2BYTE_INT then le_bytes 2 icol
      else if sflag = COL_4BYTE_INT then le_bytes 4 icol
      else if isi then COL_5BYTE_INT # le_bytes 4 icol
      else if sflag = COL_6BYTE_INT then le_bytes 6 icol
      else if sflag = COL_8BYTE_INT then le_bytes 8 icol
      else COL_9BYTE_INT # le_bytes 8 icol)"

text \<open>\<^verbatim>\<open>sI2I\<close>: the value and \<^verbatim>\<open>*clen\<close>.\<close>

definition sI2I :: "byte list \<Rightarrow> bool \<Rightarrow> (ulong \<times> nat) c_res" where
  "sI2I data isi = c_bind (c_read data 0) (\<lambda>b1.
     if b1 AND COL_1BYTE_INT \<noteq> 0 then
       c_bind (c_take 1 data) (\<lambda>bs. Inr ((le_word bs - 1) div 2, 1))
     else if b1 AND COL_2BYTE_INT \<noteq> 0 then
       c_bind (c_take 2 data) (\<lambda>bs. Inr ((le_word bs - 2) div 4, 2))
     else if b1 AND COL_4BYTE_INT \<noteq> 0 then
       c_bind (c_take 4 data) (\<lambda>bs. Inr ((le_word bs - 4) div 8, 4))
     else if isi then
       c_bind (c_take 4 (drop 1 data)) (\<lambda>bs. Inr (le_word bs, 5))
     else if b1 AND COL_6BYTE_INT \<noteq> 0 then
       c_bind (c_take 6 data) (\<lambda>bs. Inr ((le_word bs - 8) div 16, 6))
     else if b1 AND COL_8BYTE_INT \<noteq> 0 then
       c_bind (c_take 8 data) (\<lambda>bs. Inr ((le_word bs - 16) div 32, 8))
     else
       c_bind (c_take 8 (drop 1 data)) (\<lambda>bs. Inr (le_word bs, 9)))"

definition cr8Icol :: "ulong \<Rightarrow> nat \<times> byte \<times> ulong" where
  "cr8Icol l = cIcol l True"

definition cr8Lcol :: "ulong \<Rightarrow> nat \<times> byte \<times> ulong" where
  "cr8Lcol l = cIcol l False"

definition writeUIntCol :: "byte \<Rightarrow> ulong \<Rightarrow> byte list" where
  "writeUIntCol sflag icol = wUCol sflag icol True"

definition writeULongCol :: "byte \<Rightarrow> ulong \<Rightarrow> byte list" where
  "writeULongCol sflag icol = wUCol sflag icol False"

definition streamIntToUInt :: "byte list \<Rightarrow> (uint32 \<times> nat) c_res" where
  "streamIntToUInt data = c_bind (sI2I data True) (\<lambda>(v, n). Inr (ucast v, n))"

definition streamLongToULong :: "byte list \<Rightarrow> (ulong \<times> nat) c_res" where
  "streamLongToULong data = sI2I data False"

text \<open>
  \<^verbatim>\<open>strtoul(buf, NULL, 10)\<close> of the C library: white space, an optional sign, decimal digits;
  \<^verbatim>\<open>ULONG_MAX\<close> when the digits do not fit, the negated value after a minus sign.
\<close>

definition c_isspace :: "byte \<Rightarrow> bool" where
  "c_isspace b \<longleftrightarrow> b = 32 \<or> 9 \<le> b \<and> b \<le> 13"

definition c_isdigit :: "byte \<Rightarrow> bool" where
  "c_isdigit b \<longleftrightarrow> 48 \<le> b \<and> b \<le> 57"

definition digits_value :: "byte list \<Rightarrow> nat" where
  "digits_value ds = foldl (\<lambda>v d. v * 10 + (unat d - 48)) 0 ds"

definition c_strtoul :: "byte list \<Rightarrow> ulong" where
  "c_strtoul s =
     (let s1 = dropWhile c_isspace s;
          neg = (s1 \<noteq> [] \<and> hd s1 = 45);
          s2 = (if s1 \<noteq> [] \<and> (hd s1 = 45 \<or> hd s1 = 43) then tl s1 else s1);
          v = digits_value (takeWhile c_isdigit s2)
      in if 2 ^ 64 \<le> v then - 1 else if neg then - of_nat v else of_nat v)"

text \<open>Decimal output of the C library, \<^verbatim>\<open>"%u"\<close> and \<^verbatim>\<open>"%lu"\<close>.\<close>

fun c_utoa :: "nat \<Rightarrow> byte list" where
  "c_utoa n = (if n < 10 then [of_nat (48 + n)] else c_utoa (n div 10) @ [of_nat (48 + n mod 10)])"

declare c_utoa.simps [simp del]

text \<open>\<^verbatim>\<open>strToULong\<close> copies \<open>len\<close> bytes into a zero-terminated buffer of 32.\<close>

definition strToULong :: "byte list \<Rightarrow> bool \<Rightarrow> stream_reply + ulong" where
  "strToULong str isi =
     (if 31 \<le> length str then Inl Col_uint_string_too_long
      else let m = c_strtoul (takeWhile (\<lambda>b. b \<noteq> 0) str) in
        if isi \<and> TWO_POW_32 \<le> m then Inl U2big else Inr m)"

text \<open>The column creators from text: \<open>Inl\<close> is the error reply and the result -1.\<close>

definition cr8IcolFromStr :: "byte list \<Rightarrow> stream_reply + (nat \<times> byte \<times> ulong)" where
  "cr8IcolFromStr str =
     (if str = [] then Inr (0, 0, 0)
      else case strToULong str True of Inl e \<Rightarrow> Inl e | Inr l \<Rightarrow> Inr (cr8Icol l))"

definition cr8LcolFromStr :: "byte list \<Rightarrow> stream_reply + (nat \<times> byte \<times> ulong)" where
  "cr8LcolFromStr str =
     (if str = [] then Inr (0, 0, 0)
      else case strToULong str False of Inl e \<Rightarrow> Inl e | Inr l \<Rightarrow> Inr (cr8Lcol l))"

subsection \<open>Float, U128, LRU and LFU columns\<close>

definition writeFloatCol :: "bool \<Rightarrow> uint32 \<Rightarrow> byte list" where
  "writeFloatCol fflag fcol = (if \<not> fflag then [] else le_bytes 4 fcol)"

definition streamFloatToFloat :: "byte list \<Rightarrow> (uint32 \<times> nat) c_res" where
  "streamFloatToFloat data = c_bind (c_take 4 data) (\<lambda>bs. Inr (le_word bs, 4))"

definition writeU128Col :: "uint128 \<Rightarrow> byte list" where
  "writeU128Col xcol = le_bytes 16 xcol"

definition streamToU128 :: "byte list \<Rightarrow> (uint128 \<times> nat) c_res" where
  "streamToU128 data = c_bind (c_take 16 data) (\<lambda>bs. Inr (le_word bs, 16))"

definition cr8Xcol :: "uint128 \<Rightarrow> nat \<times> uint128" where
  "cr8Xcol x = (16, x)"

definition getLruSflag :: byte where "getLruSflag = COL_4BYTE_INT"

definition cLRUcol :: "ulong \<Rightarrow> nat \<times> byte \<times> ulong" where
  "cLRUcol l = (4, getLruSflag, l * 8 + 4)"

definition streamLRUToUInt :: "byte list \<Rightarrow> uint32 c_res" where
  "streamLRUToUInt data =
     c_bind (c_take 4 data) (\<lambda>bs. Inr (ucast ((le_word bs - 4 :: ulong) div 8)))"

definition overwriteLRUcol :: "byte list \<Rightarrow> ulong \<Rightarrow> byte list c_res" where
  "overwriteLRUcol row icol =
     (if 4 \<le> length row then Inr (le_bytes 4 (icol * 8 + 4) @ drop 4 row) else Inl OOB_write)"

definition getLfuSflag :: byte where "getLfuSflag = COL_8BYTE_INT"

definition cLFUcol :: "ulong \<Rightarrow> nat \<times> byte \<times> ulong" where
  "cLFUcol l = (8, getLfuSflag, l * 32 + 16)"

text \<open>\<^verbatim>\<open>streamLFUToULong\<close> reads through a \<^verbatim>\<open>uint32 *\<close> although the column has 8 bytes.\<close>

definition streamLFUToULong :: "byte list \<Rightarrow> ulong c_res" where
  "streamLFUToULong data =
     c_bind (c_take 4 data) (\<lambda>bs. Inr ((le_word bs - 16 :: ulong) div 32))"

definition overwriteLFUcol :: "byte list \<Rightarrow> ulong \<Rightarrow> byte list c_res" where
  "overwriteLFUcol row icol =
     (if 8 \<le> length row then Inr (le_bytes 8 (icol * 32 + 16) @ drop 8 row) else Inl OOB_write)"

subsection \<open>Word lemmas of the component\<close>

lemma word_bit_odd: "bit (w :: 'a::len word) k \<longleftrightarrow> odd (unat w div 2 ^ k)"
proof -
  have "bit w k \<longleftrightarrow> bit (unat w) k"
    by (auto simp: bit_unsigned_iff dest: bit_imp_le_length)
  then show ?thesis by (simp add: bit_iff_odd)
qed

lemma flag_test:
  "(b :: byte) AND 1 = 0 \<longleftrightarrow> \<not> bit b 0" "b AND 2 = 0 \<longleftrightarrow> \<not> bit b 1" "b AND 4 = 0 \<longleftrightarrow> \<not> bit b 2"
  "b AND 8 = 0 \<longleftrightarrow> \<not> bit b 3" "b AND 16 = 0 \<longleftrightarrow> \<not> bit b 4"
  using and_exp_eq_0_iff_not_bit [of b 0] and_exp_eq_0_iff_not_bit [of b 1]
    and_exp_eq_0_iff_not_bit [of b 2] and_exp_eq_0_iff_not_bit [of b 3]
    and_exp_eq_0_iff_not_bit [of b 4]
  by simp_all

lemma unat_scale:
  assumes "unat (l :: ulong) * m + c < 2 ^ 64"
  shows "unat (l * of_nat m + of_nat c) = unat l * m + c"
proof -
  have "of_nat (unat l) = l" by simp
  then have "l * of_nat m + of_nat c = of_nat (unat l * m + c)"
    by (simp only: of_nat_add of_nat_mult)
  then show ?thesis using assms by (simp only: unat_of_nat) simp
qed

lemma word_mult_div_self:
  assumes "unat (l :: 'a::len word) * unat c < 2 ^ LENGTH('a)" and "c \<noteq> 0"
  shows "l * c div c = l"
proof -
  have "unat (l * c) = unat l * unat c" using assms(1) by (simp only: unat_word_ariths mod_less)
  moreover have "unat c \<noteq> 0" using assms(2) by (simp add: word_unat_eq_iff)
  ultimately have "unat (l * c div c) = unat l" by (simp only: unat_div) simp
  then show ?thesis by (simp only: word_unat_eq_iff)
qed

lemma c_take_append [simp]: "length xs = n \<Longrightarrow> c_take n (xs @ ys) = Inr xs"
  by (simp add: c_take_def)

lemma c_take_exact [simp]: "length xs = n \<Longrightarrow> c_take n xs = Inr xs"
  by (simp add: c_take_def)

lemma le_bytes_read0 [simp]: "0 < n \<Longrightarrow> c_read (le_bytes n w @ ys) 0 = Inr (ucast w)"
  by (cases n) (simp_all add: c_read_def)

text \<open>The scaled forms of the encoding: the tag bit sits at position \<open>k\<close>, below it all bits are 0.\<close>

lemma scaled_tag:
  fixes l :: ulong
  assumes fits: "unat l * 2 ^ Suc k + 2 ^ k < 2 ^ 64" and k: "Suc k < 64"
  defines "col \<equiv> l * 2 ^ Suc k + 2 ^ k"
  shows "bit col k" "j < k \<Longrightarrow> \<not> bit col j" "unat col = unat l * 2 ^ Suc k + 2 ^ k"
    "(col - 2 ^ k) div 2 ^ Suc k = l"
proof -
  have u: "unat col = unat l * 2 ^ Suc k + 2 ^ k"
    using unat_scale [OF fits] unfolding col_def by (simp only: of_nat_power of_nat_numeral)
  have "unat col = (unat l * 2 + 1) * 2 ^ k"
    unfolding u by (simp only: add_mult_distrib power_Suc mult.assoc mult_1)
  then have "unat col div 2 ^ k = unat l * 2 + 1" by simp
  then show "bit col k" by (simp add: word_bit_odd)
  show "\<not> bit col j" if jk: "j < k"
  proof -
    obtain d where d: "k = Suc (j + d)" using less_imp_Suc_add [OF jk] by auto
    have "(2 :: nat) ^ Suc k = 2 ^ Suc (Suc d) * 2 ^ j" "(2 :: nat) ^ k = 2 ^ Suc d * 2 ^ j"
      by (simp_all add: d power_add)
    then have "unat col = (unat l * 2 ^ Suc (Suc d) + 2 ^ Suc d) * 2 ^ j"
      unfolding u by (simp only: add_mult_distrib mult.assoc)
    then have "unat col div 2 ^ j = unat l * 2 ^ Suc (Suc d) + 2 ^ Suc d" by simp
    then show ?thesis by (simp add: word_bit_odd)
  qed
  show "unat col = unat l * 2 ^ Suc k + 2 ^ k" by (rule u)
  have p: "unat (2 ^ Suc k :: ulong) = 2 ^ Suc k"
  proof -
    have "(2 :: nat) ^ Suc k < 2 ^ 64" using k by (intro power_strict_increasing) simp_all
    then show ?thesis
      using unat_of_nat [of "2 ^ Suc k", where ?'a = 64] by (simp add: of_nat_power del: power_Suc)
  qed
  have "(col - 2 ^ k) div 2 ^ Suc k = l * 2 ^ Suc k div 2 ^ Suc k" by (simp add: col_def)
  also have "\<dots> = l"
    by (rule word_mult_div_self) (use fits p in \<open>auto simp del: power_Suc simp: word_unat_eq_iff\<close>)
  finally show "(col - 2 ^ k) div 2 ^ Suc k = l" .
qed


lemma scaled_bytes:
  fixes l :: ulong
  assumes "unat l < 2 ^ (8 * n - Suc k)" and "Suc k < 8" and "0 < n" and "n \<le> 8"
  defines "col \<equiv> l * 2 ^ Suc k + 2 ^ k"
  shows "le_word (le_bytes n col) = col" "bit (ucast col :: byte) k"
    "j < k \<Longrightarrow> \<not> bit (ucast col :: byte) j" "(col - 2 ^ k) div 2 ^ Suc k = l"
proof -
  have "Suc (unat l) * 2 ^ Suc k \<le> 2 ^ (8 * n - Suc k) * 2 ^ Suc k"
    using assms(1) by (intro mult_right_mono) simp_all
  also have "\<dots> = 2 ^ (8 * n)"
    using assms(2,3) by (simp only: power_add [symmetric]) simp
  finally have "unat l * 2 ^ Suc k + 2 ^ Suc k \<le> 2 ^ (8 * n)"
    by (simp only: mult_Suc add.commute)
  moreover have "(2 :: nat) ^ k < 2 ^ Suc k" by simp
  ultimately have fit: "unat l * 2 ^ Suc k + 2 ^ k < 2 ^ (8 * n)" by linarith
  have "(2 :: nat) ^ (8 * n) \<le> 2 ^ 64" using assms(4) by (intro power_increasing) simp_all
  with fit have fits: "unat l * 2 ^ Suc k + 2 ^ k < 2 ^ 64" by linarith
  note t = scaled_tag [OF fits, folded col_def]
  show "le_word (le_bytes n col) = col"
    using t(3) fit assms(2) by (intro le_word_le_bytes_id) simp
  show "bit (ucast col :: byte) k" using t(1) assms(2) by (simp add: bit_ucast_iff)
  show "j < k \<Longrightarrow> \<not> bit (ucast col :: byte) j" using t(2) assms(2) by (simp add: bit_ucast_iff)
  show "(col - 2 ^ k) div 2 ^ Suc k = l" using t(4) assms(2) by simp
qed

text \<open>What a stored number decodes to, whatever follows it.\<close>

lemma sI2I_tag:
  fixes col :: ulong
  assumes id: "le_word (le_bytes n col) = col" and tag: "bit (ucast col :: byte) k"
    and low: "\<And>j. j < k \<Longrightarrow> \<not> bit (ucast col :: byte) j"
    and kn: "k = 0 \<and> n = 1 \<or> k = 1 \<and> n = 2 \<or> k = 2 \<and> n = 4 \<or>
      \<not> isi \<and> k = 3 \<and> n = 6 \<or> \<not> isi \<and> k = 4 \<and> n = 8"
  shows "sI2I (le_bytes n col @ rest) isi = Inr ((col - 2 ^ k) div 2 ^ Suc k, n)"
proof -
  have n: "0 < n" using kn by auto
  have t: "c_take n (le_bytes n col @ rest) = Inr (le_bytes n col)" by simp
  from kn consider (1) "k = 0" "n = 1" | (2) "k = 1" "n = 2" | (4) "k = 2" "n = 4"
    | (6) "\<not> isi" "k = 3" "n = 6" | (8) "\<not> isi" "k = 4" "n = 8" by blast
  then show ?thesis
    using t id tag low [of 0] low [of 1] low [of 2] low [of 3] n
    unfolding sI2I_def le_bytes_read0 [OF n] c_bind_simps col_flag_defs flag_test
    by cases (simp_all del: le_bytes.simps)
qed

lemma sI2I_scaled:
  fixes l :: ulong
  assumes "k = 0 \<and> n = 1 \<or> k = 1 \<and> n = 2 \<or> k = 2 \<and> n = 4 \<or>
      \<not> isi \<and> k = 3 \<and> n = 6 \<or> \<not> isi \<and> k = 4 \<and> n = 8"
    and "unat l < 2 ^ (8 * n - Suc k)"
  shows "sI2I (le_bytes n (l * 2 ^ Suc k + 2 ^ k) @ rest) isi = Inr (l, n)"
    "hd (le_bytes n (l * 2 ^ Suc k + 2 ^ k)) \<noteq> 0"
proof -
  from assms(1) have c: "Suc k < 8" "0 < n" "n \<le> 8" by auto
  note f = scaled_bytes [OF assms(2) c]
  show "sI2I (le_bytes n (l * 2 ^ Suc k + 2 ^ k) @ rest) isi = Inr (l, n)"
    using sI2I_tag [OF f(1-3) assms(1)] f(4) by (simp only:)
  have "hd (le_bytes n (l * 2 ^ Suc k + 2 ^ k)) = ucast (l * 2 ^ Suc k + 2 ^ k)"
    using c(2) by (cases n) (simp_all del: power_Suc)
  with f(2) show "hd (le_bytes n (l * 2 ^ Suc k + 2 ^ k)) \<noteq> 0" by (metis bit_0_eq bot_apply bot_bool_def)
qed

lemma less_two_pow:
  "l < TWO_POW_7 \<longleftrightarrow> unat l < 2 ^ 7" "l < TWO_POW_14 \<longleftrightarrow> unat l < 2 ^ 14"
  "l < TWO_POW_29 \<longleftrightarrow> unat l < 2 ^ 29" "l < TWO_POW_44 \<longleftrightarrow> unat l < 2 ^ 44"
  "l < TWO_POW_59 \<longleftrightarrow> unat l < 2 ^ 59" "TWO_POW_32 \<le> l \<longleftrightarrow> 2 ^ 32 \<le> unat l"
  by (simp_all add: two_pow_defs word_less_nat_alt word_le_nat_alt)

text \<open>Escaped values: a marker byte 32, then the plain integer.\<close>

lemma sI2I_escaped:
  "isi \<Longrightarrow> unat l < 2 ^ 32 \<Longrightarrow> sI2I (COL_5BYTE_INT # le_bytes 4 l @ rest) isi = Inr (l, 5)"
  "\<not> isi \<Longrightarrow> sI2I (COL_9BYTE_INT # le_bytes 8 l @ rest) isi = Inr (l, 9)"
proof -
  show "sI2I (COL_5BYTE_INT # le_bytes 4 l @ rest) isi = Inr (l, 5)" if "isi" "unat l < 2 ^ 32"
    using that le_word_le_bytes_id [of l 4] by (simp add: sI2I_def col_flag_defs del: le_bytes.simps)
  show "sI2I (COL_9BYTE_INT # le_bytes 8 l @ rest) isi = Inr (l, 9)" if "\<not> isi"
    using that le_word_le_bytes_id [of l 8] unsigned_less [of l, where ?'a = nat]
    by (simp add: sI2I_def col_flag_defs del: le_bytes.simps)
qed

text \<open>The five scaled branches of \<^verbatim>\<open>cIcol\<close> and the two escaped ones, as one case distinction.\<close>

lemma cIcol_cases:
  fixes l :: ulong
  obtains (scaled) k n where
      "k = 0 \<and> n = 1 \<or> k = 1 \<and> n = 2 \<or> k = 2 \<and> n = 4 \<or>
         \<not> isi \<and> k = 3 \<and> n = 6 \<or> \<not> isi \<and> k = 4 \<and> n = (8::nat)"
      "unat l < 2 ^ (8 * n - Suc k)" "getCSize l isi = n" "fst (cIcol l isi) = n"
      "(\<lambda>(_, sf, col). wUCol sf col isi) (cIcol l isi) = le_bytes n (l * 2 ^ Suc k + 2 ^ k)"
    | (int) "isi" "getCSize l isi = 5" "fst (cIcol l isi) = 5"
      "(\<lambda>(_, sf, col). wUCol sf col isi) (cIcol l isi) = COL_5BYTE_INT # le_bytes 4 l"
    | (long) "\<not> isi" "getCSize l isi = 9" "fst (cIcol l isi) = 9"
      "(\<lambda>(_, sf, col). wUCol sf col isi) (cIcol l isi) = COL_9BYTE_INT # le_bytes 8 l"
proof -
  note defs = cIcol_def wUCol_def getCSize_def less_two_pow col_flag_defs
  consider (1) "unat l < 2 ^ 7" | (2) "\<not> unat l < 2 ^ 7" "unat l < 2 ^ 14"
    | (4) "\<not> unat l < 2 ^ 7" "\<not> unat l < 2 ^ 14" "unat l < 2 ^ 29"
    | (5) "\<not> unat l < 2 ^ 7" "\<not> unat l < 2 ^ 14" "\<not> unat l < 2 ^ 29" "isi"
    | (6) "\<not> unat l < 2 ^ 7" "\<not> unat l < 2 ^ 14" "\<not> unat l < 2 ^ 29" "\<not> isi" "unat l < 2 ^ 44"
    | (8) "\<not> unat l < 2 ^ 7" "\<not> unat l < 2 ^ 14" "\<not> unat l < 2 ^ 29" "\<not> isi" "\<not> unat l < 2 ^ 44"
        "unat l < 2 ^ 59"
    | (9) "\<not> unat l < 2 ^ 7" "\<not> unat l < 2 ^ 14" "\<not> unat l < 2 ^ 29" "\<not> isi" "\<not> unat l < 2 ^ 44"
        "\<not> unat l < 2 ^ 59"
    by blast
  then show thesis
  proof cases
    case 1 then show thesis by (intro scaled [of 0 1]) (simp_all add: defs)
  next
    case 2 then show thesis by (intro scaled [of 1 2]) (simp_all add: defs)
  next
    case 4 then show thesis by (intro scaled [of 2 4]) (simp_all add: defs)
  next
    case 5 then show thesis by (intro int) (simp_all add: defs)
  next
    case 6 then show thesis by (intro scaled [of 3 6]) (simp_all add: defs)
  next
    case 8 then show thesis by (intro scaled [of 4 8]) (simp_all add: defs)
  next
    case 9 then show thesis by (intro long) (simp_all add: defs)
  qed
qed

lemma stream_num_rt:
  assumes "isi \<longrightarrow> unat l < 2 ^ 32"
  shows "case cIcol l isi of (n, sf, col) \<Rightarrow>
     sI2I (wUCol sf col isi @ rest) isi = Inr (l, n) \<and> length (wUCol sf col isi) = n \<and>
     getCSize l isi = n \<and> hd (wUCol sf col isi) \<noteq> 0"
proof (cases isi l rule: cIcol_cases)
  case (scaled k n)
  then show ?thesis
    using sI2I_scaled [OF scaled(1,2)] by (cases "cIcol l isi") simp
next
  case int
  then show ?thesis
    using sI2I_escaped(1) [of isi l rest] assms
    by (cases "cIcol l isi") (simp add: col_flag_defs)
next
  case long
  then show ?thesis
    using sI2I_escaped(2) [of isi l rest]
    by (cases "cIcol l isi") (simp add: col_flag_defs)
qed

text \<open>
  C8. Column numbers survive storage: for every LONG, and every INT below \<open>2 ^ 32\<close>, the bytes
  \<^verbatim>\<open>wUCol\<close> writes for the flag and value \<^verbatim>\<open>cIcol\<close> chose are as many as \<^verbatim>\<open>cIcol\<close> and \<^verbatim>\<open>getCSize\<close>
  announce, never start with the reserved byte 0, and \<^verbatim>\<open>sI2I\<close> reads back the number and that
  length, whatever follows in the stream.
\<close>

theorem stream_num_roundtrip:
  assumes "isi \<longrightarrow> unat l < 2 ^ 32"
  shows "case cIcol l isi of (n, sf, col) \<Rightarrow>
     sI2I (wUCol sf col isi @ rest) isi = Inr (l, n) \<and> length (wUCol sf col isi) = n \<and>
     getCSize l isi = n \<and> hd (wUCol sf col isi) \<noteq> 0"
  by (rule stream_num_rt [OF assms])

theorem stream_num_roundtrip_witness:
  "unat (3000000000 :: ulong) < 2 ^ 32 \<and>
   (case cIcol 3000000000 True of (n, sf, col) \<Rightarrow>
     sI2I (wUCol sf col True @ [7]) True = Inr (3000000000, n) \<and> length (wUCol sf col True) = n \<and>
     getCSize 3000000000 True = n \<and> hd (wUCol sf col True) \<noteq> 0)"
  using stream_num_roundtrip [of True 3000000000 "[7]"] by simp


subsection \<open>LRU, LFU, U128 and float columns\<close>

lemma unat_le_word4:
  fixes w :: ulong
  shows "unat (le_word (le_bytes 4 w) :: ulong) = unat w mod 2 ^ 32"
  unfolding le_word_le_bytes unsigned_take_bit_eq by (simp add: take_bit_eq_mod)

text \<open>The low four bytes of a scaled counter \<open>c * m + r\<close> hold the counter modulo \<open>2 ^ 32 / m\<close>.\<close>

lemma low4_scaled:
  fixes c :: ulong
  assumes "m * q = 2 ^ 32" and "r < m" and "m = 2 ^ j"
  shows "unat (le_word (le_bytes 4 (c * of_nat m + of_nat r)) :: ulong) = (unat c mod q) * m + r"
proof -
  have m0: "0 < m" using assms(3) by simp
  have q0: "0 < q" using assms(1) by (cases q) simp_all
  have "unat (c * of_nat m + of_nat r) mod 2 ^ 32 = (unat c * m + r) mod 2 ^ 32"
  proof -
    have "of_nat (unat c) = c" by simp
    then have "c * of_nat m + of_nat r = of_nat (unat c * m + r)"
      by (simp only: of_nat_add of_nat_mult)
    then have "unat (c * of_nat m + of_nat r) = (unat c * m + r) mod 2 ^ 64"
      by (simp only: unat_of_nat) simp
    moreover have "(2 :: nat) ^ 32 dvd 2 ^ 64" by (rule le_imp_power_dvd) simp
    ultimately show ?thesis by (simp only: mod_mod_cancel)
  qed
  also have "\<dots> = ((unat c mod q) * m + r) mod 2 ^ 32"
    unfolding assms(1) [symmetric] mult.commute [of m q] mult_mod_left by (simp only: mod_add_left_eq)
  also have "\<dots> = (unat c mod q) * m + r"
  proof (rule mod_less)
    have "(unat c mod q) * m + r < Suc (unat c mod q) * m" using assms(2) by simp
    also have "\<dots> \<le> q * m" using q0 by (intro mult_right_mono) (simp_all add: Suc_leI)
    finally show "(unat c mod q) * m + r < 2 ^ 32" using assms(1) by (simp add: mult.commute)
  qed
  finally show ?thesis by (simp only: unat_le_word4)
qed

lemma low4_decode:
  fixes c :: ulong
  assumes "m * q = 2 ^ 32" and "r < m" and "m = 2 ^ j"
  shows "unat ((le_word (le_bytes 4 (c * of_nat m + of_nat r)) - of_nat r) div of_nat m :: ulong)
     = unat c mod q"
proof -
  let ?w = "le_word (le_bytes 4 (c * of_nat m + of_nat r)) :: ulong"
  have q0: "0 < q" using assms(1) by (cases q) simp_all
  have mle: "m \<le> 2 ^ 32" using assms(1) q0 by (metis dvd_imp_le dvd_triv_left zero_less_numeral zero_less_power)
  have u: "unat ?w = (unat c mod q) * m + r" by (rule low4_scaled [OF assms])
  have ur: "unat (of_nat r :: ulong) = r" and um: "unat (of_nat m :: ulong) = m"
    using mle assms(2) by (simp_all add: unat_of_nat)
  have "of_nat r \<le> ?w" by (simp add: word_le_nat_alt u ur)
  then have "unat (?w - of_nat r) = (unat c mod q) * m"
    using u ur by (simp add: unat_sub)
  then show ?thesis using assms(2) by (simp only: unat_div um) simp
qed

text \<open>
  The LFU counter of a row reads back modulo \<open>2 ^ 27\<close>: the 8-byte column is written in full and
  read through a 32-bit pointer. From access number \<open>2 ^ 27\<close> on the stored and the read counter
  differ.
\<close>

theorem lfu_col_read_back:
  assumes "8 \<le> length row"
  shows "\<exists>row'. overwriteLFUcol row n = Inr row' \<and> length row' = length row \<and>
     drop 8 row' = drop 8 row \<and>
     streamLFUToULong row' = Inr (of_nat (unat n mod 2 ^ 27))"
proof -
  let ?w = "n * of_nat 32 + of_nat 16 :: ulong"
  have "take 4 (le_bytes 8 ?w @ drop 8 row) = le_bytes 4 ?w"
    by (simp add: eval_nat_numeral)
  then have "streamLFUToULong (le_bytes 8 ?w @ drop 8 row) =
      Inr ((le_word (le_bytes 4 ?w) - of_nat 16) div of_nat 32)"
    by (simp add: streamLFUToULong_def c_take_def)
  also have "\<dots> = Inr (of_nat (unat n mod 2 ^ 27))"
  proof -
    have "unat ((le_word (le_bytes 4 ?w) - of_nat 16) div of_nat 32 :: ulong) = unat n mod 2 ^ 27"
      by (rule low4_decode [of 32 _ 16 5]) simp_all
    then show ?thesis using word_eq_of_nat by fastforce
  qed
  finally show ?thesis
    using assms by (simp add: overwriteLFUcol_def)
qed

theorem lfu_col_read_back_witness:
  "\<exists>row'. overwriteLFUcol (replicate 8 0) (2 ^ 27) = Inr row' \<and> length row' = length (replicate 8 (0 :: byte)) \<and>
     drop 8 row' = drop 8 (replicate 8 0) \<and>
     streamLFUToULong row' = Inr (of_nat (unat (2 ^ 27 :: ulong) mod 2 ^ 27))"
  by (rule lfu_col_read_back) simp

text \<open>
  The LRU timestamp of a row reads back exactly while it is below \<open>2 ^ 29\<close> (seconds since the
  server epoch, about 17 years), and the rest of the row is untouched.
\<close>

theorem lru_col_read_back:
  assumes "4 \<le> length row" and "unat n < 2 ^ 29"
  shows "\<exists>row'. overwriteLRUcol row n = Inr row' \<and> length row' = length row \<and>
     drop 4 row' = drop 4 row \<and> streamLRUToUInt row' = Inr (ucast n)"
proof -
  let ?w = "n * of_nat 8 + of_nat 4 :: ulong"
  have "unat ((le_word (le_bytes 4 ?w) - of_nat 4) div of_nat 8 :: ulong) = unat n mod 2 ^ 29"
    by (rule low4_decode [of 8 _ 4 3]) simp_all
  then have "(le_word (le_bytes 4 ?w) - of_nat 4) div of_nat 8 = n"
    using assms(2) by (simp add: word_unat_eq_iff)
  then have "streamLRUToUInt (le_bytes 4 ?w @ drop 4 row) = Inr (ucast n)"
    by (simp add: streamLRUToUInt_def del: le_bytes.simps)
  then show ?thesis
    using assms(1) by (simp add: overwriteLRUcol_def)
qed

theorem lru_col_read_back_witness:
  "\<exists>row'. overwriteLRUcol [4, 0, 0, 0, 9] 1000 = Inr row' \<and> length row' = length [4, 0, 0, 0, 9 :: byte] \<and>
     drop 4 row' = drop 4 [4, 0, 0, 0, 9] \<and> streamLRUToUInt row' = Inr (ucast (1000 :: ulong))"
  by (rule lru_col_read_back) simp_all

lemma u128_col_roundtrip: "streamToU128 (writeU128Col x @ rest) = Inr (x, 16)"
  using le_word_le_bytes_id [of x 16] unsigned_less [of x, where ?'a = nat]
  by (simp add: streamToU128_def writeU128Col_def del: le_bytes.simps)

lemma float_col_roundtrip: "streamFloatToFloat (writeFloatCol True f @ rest) = Inr (f, 4)"
  using le_word_le_bytes_id [of f 4] unsigned_less [of f, where ?'a = nat]
  by (simp add: streamFloatToFloat_def writeFloatCol_def del: le_bytes.simps)

subsection \<open>Columns from text\<close>

lemma digits_value_append: "digits_value (xs @ [d]) = digits_value xs * 10 + (unat d - 48)"
  by (simp add: digits_value_def)

lemma unat_digit: "k < 10 \<Longrightarrow> unat (of_nat (48 + k) :: byte) = 48 + k"
  by (simp add: unat_of_nat del: of_nat_add)

lemma isdigit_digit: "k < 10 \<Longrightarrow> c_isdigit (of_nat (48 + k))"
  by (simp add: c_isdigit_def word_le_nat_alt unat_digit del: of_nat_add)

lemma digits_value_utoa: "digits_value (c_utoa n) = n"
proof (induction n rule: c_utoa.induct)
  case (1 n)
  show ?case
  proof (cases "n < 10")
    case True
    then show ?thesis
      using unat_digit [of n] by (simp add: c_utoa.simps [of n] digits_value_def del: of_nat_add)
  next
    case False
    with 1 show ?thesis
      using unat_digit [of "n mod 10"]
      by (simp add: c_utoa.simps [of n] digits_value_append del: of_nat_add)
  qed
qed

lemma utoa_digits: "list_all c_isdigit (c_utoa n) \<and> c_utoa n \<noteq> []"
proof (induction n rule: c_utoa.induct)
  case (1 n)
  then show ?case
    using isdigit_digit [of n] isdigit_digit [of "n mod 10"]
    by (cases "n < 10") (simp_all add: c_utoa.simps [of n] del: of_nat_add)
qed

lemma length_utoa: "n < 10 ^ k \<Longrightarrow> 0 < k \<Longrightarrow> length (c_utoa n) \<le> k"
proof (induction n arbitrary: k rule: c_utoa.induct)
  case (1 n)
  show ?case
  proof (cases "n < 10")
    case True
    with 1 show ?thesis by (simp add: c_utoa.simps [of n])
  next
    case False
    with 1(2) obtain k' where k: "k = Suc k'" "0 < k'"
      by (cases k; cases "k - 1") auto
    have "n div 10 < 10 ^ k'" using 1(2) k by (simp add: div_less_iff_less_mult mult.commute)
    with 1(1) [OF False, of k'] k False show ?thesis by (simp add: c_utoa.simps [of n])
  qed
qed

lemma digit_not_special: "c_isdigit b \<Longrightarrow> \<not> c_isspace b \<and> b \<noteq> 45 \<and> b \<noteq> 43 \<and> b \<noteq> 0"
  by (auto simp: c_isdigit_def c_isspace_def word_le_nat_alt)

lemma strtoul_utoa:
  assumes "n < 2 ^ 64"
  shows "c_strtoul (c_utoa n) = of_nat n"
proof -
  obtain d ds where d: "c_utoa n = d # ds" "c_isdigit d"
    using utoa_digits [of n] by (cases "c_utoa n") auto
  have tw: "takeWhile c_isdigit ds = ds"
    using utoa_digits [of n] d by (simp add: list_all_iff)
  show ?thesis
    using d digit_not_special [OF d(2)] assms digits_value_utoa [of n]
    by (simp add: c_strtoul_def Let_def tw)
qed

lemma strToULong_utoa:
  assumes "n < 2 ^ 64"
  shows "strToULong (c_utoa n) isi = (if isi \<and> 2 ^ 32 \<le> n then Inl U2big else Inr (of_nat n))"
proof -
  have "n < 10 ^ 20" using assms by simp
  then have len: "length (c_utoa n) < 31" using length_utoa [of n 20] by simp
  have tw: "takeWhile (\<lambda>b. b \<noteq> 0) (c_utoa n) = c_utoa n"
    using utoa_digits [of n] digit_not_special by (auto simp: list_all_iff)
  have "unat (of_nat n :: ulong) = n" using assms by (simp add: unat_of_nat)
  then show ?thesis
    using len strtoul_utoa [OF assms] by (simp add: strToULong_def less_two_pow Let_def tw)
qed

text \<open>
  A decimal INT literal: every number below \<open>2 ^ 64\<close> written in decimal is accepted exactly when
  it is below \<open>2 ^ 32\<close> and then stored so that reading the column gives the number back; otherwise
  the client gets the too-big error.
\<close>

theorem int_literal_column:
  assumes "n < 2 ^ 64"
  shows "if n < 2 ^ 32
     then \<exists>sz sf col. cr8IcolFromStr (c_utoa n) = Inr (sz, sf, col) \<and>
        streamIntToUInt (writeUIntCol sf col @ rest) = Inr (of_nat n, sz)
     else cr8IcolFromStr (c_utoa n) = Inl U2big"
proof (cases "n < 2 ^ 32")
  case True
  obtain sz sf col where c: "cIcol (of_nat n) True = (sz, sf, col)" by (metis surj_pair)
  have "unat (of_nat n :: ulong) < 2 ^ 32" using True by (simp add: unat_of_nat)
  then have "sI2I (wUCol sf col True @ rest) True = Inr (of_nat n, sz)"
    using stream_num_rt [of True "of_nat n" rest] c by simp
  moreover have "ucast (of_nat n :: ulong) = (of_nat n :: uint32)"
    by (rule word_eq_of_nat) (use True in \<open>simp add: unsigned_ucast_eq unat_of_nat take_bit_eq_mod\<close>)
  ultimately show ?thesis
    using True c strToULong_utoa [OF assms, of True] utoa_digits [of n]
    by (simp add: cr8IcolFromStr_def cr8Icol_def streamIntToUInt_def writeUIntCol_def)
next
  case False
  then show ?thesis
    using strToULong_utoa [OF assms, of True] utoa_digits [of n] by (simp add: cr8IcolFromStr_def)
qed

theorem int_literal_column_witness:
  "(70000 :: nat) < 2 ^ 64 \<and>
   (if (70000 :: nat) < 2 ^ 32
     then \<exists>sz sf col. cr8IcolFromStr (c_utoa 70000) = Inr (sz, sf, col) \<and>
        streamIntToUInt (writeUIntCol sf col @ []) = Inr (of_nat 70000, sz)
     else cr8IcolFromStr (c_utoa 70000) = Inl U2big)"
  using int_literal_column [of 70000 "[]"] by simp

end
