(* ===== verification/Alc_Cmp.thy ===== *)
theory Alc_Cmp
  imports Alc_Stream "HOL-Library.List_Lexorder" "HOL-Library.Product_Lexorder"
begin

text \<open>
  The comparators a B-tree is created with (\<^verbatim>\<open>bt_cmp_t\<close>, \<^verbatim>\<open>src/DB/stream.c\<close>) and the contract the
  B-tree relies on: the sign of the result orders entries by a key they carry. The structs
  \<^verbatim>\<open>ulk .. xxk\<close> of \<^verbatim>\<open>src/DB/bt.h\<close> are one record with a key and a value. A stream that is too short
  for its tag (undefined in C) has key 0 here; the streams in a tree come from \<^verbatim>\<open>createBTKey\<close>.
\<close>

record ('k, 'v) obt_entry =
  obt_key :: 'k
  obt_val :: 'v

type_synonym ulk = "(uint32, ulong) obt_entry"
type_synonym luk = "(ulong, uint32) obt_entry"
type_synonym llk = "(ulong, ulong) obt_entry"
type_synonym uxk = "(uint32, uint128) obt_entry"
type_synonym xuk = "(uint128, uint32) obt_entry"
type_synonym lxk = "(ulong, uint128) obt_entry"
type_synonym xlk = "(uint128, ulong) obt_entry"
type_synonym xxk = "(uint128, uint128) obt_entry"

definition ulongCmp :: "ulong \<Rightarrow> ulong \<Rightarrow> int" where
  "ulongCmp l1 l2 = (if l1 = l2 then 0 else if l2 < l1 then 1 else - 1)"

text \<open>\<^verbatim>\<open>uintCmp\<close> is \<^verbatim>\<open>ulongCmp\<close> on the keys widened to a pointer.\<close>

definition uintCmp :: "uint32 \<Rightarrow> uint32 \<Rightarrow> int" where
  "uintCmp s1 s2 = ulongCmp (ucast s1) (ucast s2)"

definition u128Cmp :: "uint128 \<Rightarrow> uint128 \<Rightarrow> int" where
  "u128Cmp x1 x2 = (if x1 = x2 then 0 else if x2 < x1 then 1 else - 1)"

text \<open>\<^verbatim>\<open>UCmp\<close> compares the 32-bit keys as \<^verbatim>\<open>long\<close>.\<close>

definition UCmp :: "(uint32, 'v) obt_entry \<Rightarrow> (uint32, 'v) obt_entry \<Rightarrow> int" where
  "UCmp s1 s2 = (let l1 = uint (obt_key s1); l2 = uint (obt_key s2) in
     if l1 = l2 then 0 else if l1 > l2 then 1 else - 1)"

definition LCmp :: "(ulong, 'v) obt_entry \<Rightarrow> (ulong, 'v) obt_entry \<Rightarrow> int" where
  "LCmp s1 s2 = (let l1 = obt_key s1; l2 = obt_key s2 in
     if l1 = l2 then 0 else if l1 > l2 then 1 else - 1)"

definition XCmp :: "(uint128, 'v) obt_entry \<Rightarrow> (uint128, 'v) obt_entry \<Rightarrow> int" where
  "XCmp s1 s2 = (let x1 = obt_key s1; x2 = obt_key s2 in
     if x1 = x2 then 0 else if x1 > x2 then 1 else - 1)"

subsection \<open>UU trees: key and value in one signed machine word\<close>

definition UINT_MAX :: int where "UINT_MAX = 4294967295"

text \<open>Division and remainder of C, rounding towards zero.\<close>

definition c_div :: "int \<Rightarrow> int \<Rightarrow> int" where
  "c_div a b = sgn a * sgn b * (\<bar>a\<bar> div \<bar>b\<bar>)"

definition c_mod :: "int \<Rightarrow> int \<Rightarrow> int" where
  "c_mod a b = a - b * c_div a b"

definition uuCmp :: "ulong \<Rightarrow> ulong \<Rightarrow> int" where
  "uuCmp s1 s2 = sint (word_of_int (c_div (sint s1) UINT_MAX - c_div (sint s2) UINT_MAX) :: uint32)"

definition uu_btkey :: "uint32 \<Rightarrow> ulong" where
  "uu_btkey i = ucast i * word_of_int UINT_MAX"

definition uu_stream :: "ulong \<Rightarrow> uint32 \<Rightarrow> ulong" where
  "uu_stream btkey val = btkey + ucast val"

definition uu_key :: "ulong \<Rightarrow> uint32" where
  "uu_key stream = word_of_int (c_div (sint stream) UINT_MAX)"

definition uu_val :: "ulong \<Rightarrow> ulong" where
  "uu_val stream = word_of_int (c_mod (sint stream) UINT_MAX)"

subsection \<open>Comparators on stored streams\<close>

definition getSflag :: "byte \<Rightarrow> byte" where
  "getSflag b1 = (if b1 AND 1 \<noteq> 0 then 1 else 0)"

text \<open>\<^verbatim>\<open>getTString\<close> and \<^verbatim>\<open>getString\<close>: the text and its length, from a one- or four-byte header.\<close>

definition getTString :: "byte list \<Rightarrow> (byte list \<times> nat) c_res" where
  "getTString s = c_bind (c_read s 0) (\<lambda>b. let slen = unat (b div 2) in
     c_bind (c_take slen (drop 1 s)) (\<lambda>t. Inr (t, slen)))"

definition getString :: "byte list \<Rightarrow> (byte list \<times> nat) c_res" where
  "getString s = c_bind (c_take 4 s) (\<lambda>h. let slen = unat ((le_word h :: uint32) div 2) in
     c_bind (c_take slen (drop 4 s)) (\<lambda>t. Inr (t, slen)))"

definition streamText :: "byte list \<Rightarrow> (byte list \<times> nat) c_res" where
  "streamText s = c_bind (c_read s 0) (\<lambda>b.
     if getSflag b \<noteq> 0 then getTString s else getString s)"

fun c_strncmp :: "byte list \<Rightarrow> byte list \<Rightarrow> nat \<Rightarrow> int" where
  "c_strncmp s t 0 = 0"
| "c_strncmp s t (Suc n) =
     (let a = (case s of [] \<Rightarrow> 0 | x # _ \<Rightarrow> x); b = (case t of [] \<Rightarrow> 0 | x # _ \<Rightarrow> x) in
      if a \<noteq> b then int (unat a) - int (unat b)
      else if a = 0 then 0 else c_strncmp (tl s) (tl t) n)"

definition key_or_0 :: "('a::zero \<times> nat) c_res \<Rightarrow> 'a" where
  "key_or_0 r = (case r of Inr (k, _) \<Rightarrow> k | Inl _ \<Rightarrow> 0)"

definition btIntCmp :: "byte list \<Rightarrow> byte list \<Rightarrow> int" where
  "btIntCmp a b = (let key1 = key_or_0 (streamIntToUInt a); key2 = key_or_0 (streamIntToUInt b) in
     if key1 = key2 then 0 else if key1 > key2 then 1 else - 1)"

definition btLongCmp :: "byte list \<Rightarrow> byte list \<Rightarrow> int" where
  "btLongCmp a b = (let key1 = key_or_0 (streamLongToULong a); key2 = key_or_0 (streamLongToULong b) in
     if key1 = key2 then 0 else if key1 > key2 then 1 else - 1)"

definition btU128Cmp :: "byte list \<Rightarrow> byte list \<Rightarrow> int" where
  "btU128Cmp a b = (let x1 = key_or_0 (streamToU128 a); x2 = key_or_0 (streamToU128 b) in
     if x1 = x2 then 0 else if x1 > x2 then 1 else - 1)"

definition text_of :: "byte list \<Rightarrow> byte list" where
  "text_of s = (case streamText s of Inr (t, _) \<Rightarrow> t | Inl _ \<Rightarrow> [])"

definition btTextCmp :: "byte list \<Rightarrow> byte list \<Rightarrow> int" where
  "btTextCmp a b =
     (let s1 = text_of a; s2 = text_of b; slen1 = length s1; slen2 = length s2 in
      if slen1 = slen2 then c_strncmp s1 s2 slen1
      else let i = (if slen1 < slen2 then slen1 else slen2); ret = c_strncmp s1 s2 i in
        if ret = 0 then (if slen1 < slen2 then - 1 else 1) else ret)"

subsection \<open>The contract\<close>

text \<open>
  What the B-tree needs of its comparator: \<open>ord\<close> is the key an entry is ordered by. Two entries with
  the same key compare equal although they may differ (a stored row and the search key built for it).
\<close>

locale bt_order =
  fixes cmp :: "'e \<Rightarrow> 'e \<Rightarrow> int" and ord :: "'e \<Rightarrow> 'o::linorder"
  assumes cmp_neg: "cmp a b < 0 \<longleftrightarrow> ord a < ord b"
    and cmp_zero: "cmp a b = 0 \<longleftrightarrow> ord a = ord b"
begin

lemma cmp_pos: "0 < cmp a b \<longleftrightarrow> ord b < ord a"
  using cmp_neg [of a b] cmp_zero [of a b] by (metis linorder_less_linear order_less_asym)

lemma cmp_sgn_sym: "sgn (cmp a b) = - sgn (cmp b a)"
  using linorder_less_linear [of "ord a" "ord b"] by (auto simp: sgn_if cmp_zero cmp_pos)

end

lemma bt_orderI:
  assumes "\<And>a b. cmp a b = (if ord a = ord b then 0 else if ord b < ord a then 1 else - 1)"
  shows "bt_order cmp (ord :: 'e \<Rightarrow> 'o::linorder)"
  by standard (auto simp: assms)

interpretation ulong_order: bt_order ulongCmp "\<lambda>l. l"
  by (rule bt_orderI) (simp add: ulongCmp_def)

lemma unat_ucast_uint32: "unat (ucast (w :: uint32) :: ulong) = unat w"
  using unsigned_less [of w, where ?'a = nat]
  by (simp add: unsigned_ucast_eq take_bit_nat_eq_self_iff)

interpretation uint_order: bt_order uintCmp "\<lambda>l. l"
  by (rule bt_orderI)
    (simp add: uintCmp_def ulongCmp_def word_less_nat_alt word_unat_eq_iff unat_ucast_uint32)

interpretation u128_order: bt_order u128Cmp "\<lambda>x. x"
  by (rule bt_orderI) (simp add: u128Cmp_def)

interpretation U_order: bt_order UCmp obt_key
  by (rule bt_orderI) (auto simp: UCmp_def Let_def word_less_def word_uint_eq_iff)

interpretation L_order: bt_order LCmp obt_key
  by (rule bt_orderI) (simp add: LCmp_def Let_def)

interpretation X_order: bt_order XCmp obt_key
  by (rule bt_orderI) (simp add: XCmp_def Let_def)

interpretation int_stream_order: bt_order btIntCmp "\<lambda>s. key_or_0 (streamIntToUInt s)"
  by (rule bt_orderI) (simp add: btIntCmp_def Let_def)

interpretation long_stream_order: bt_order btLongCmp "\<lambda>s. key_or_0 (streamLongToULong s)"
  by (rule bt_orderI) (simp add: btLongCmp_def Let_def)

interpretation u128_stream_order: bt_order btU128Cmp "\<lambda>s. key_or_0 (streamToU128 s)"
  by (rule bt_orderI) (simp add: btU128Cmp_def Let_def)

subsection \<open>The text comparator meets the contract\<close>

abbreviation c_prefix :: "byte list \<Rightarrow> byte list" where
  "c_prefix s \<equiv> takeWhile (\<lambda>c. c \<noteq> 0) s"

lemma byte_diff_sign:
  "int (unat (a :: byte)) - int (unat b) < 0 \<longleftrightarrow> a < b"
  "int (unat (a :: byte)) - int (unat b) = 0 \<longleftrightarrow> a = b"
  by (auto simp: word_less_def word_uint_eq_iff)

lemma byte_pos: "(a :: byte) \<noteq> 0 \<Longrightarrow> 0 < a"
  by (simp add: word_neq_0_conv)

lemma c_strncmp_lex:
  assumes "n \<le> length s" and "n \<le> length t"
  shows "c_strncmp s t n < 0 \<longleftrightarrow> c_prefix (take n s) < c_prefix (take n t)"
    and "c_strncmp s t n = 0 \<longleftrightarrow> c_prefix (take n s) = c_prefix (take n t)"
proof -
  have "(c_strncmp s t n < 0 \<longleftrightarrow> c_prefix (take n s) < c_prefix (take n t)) \<and>
      (c_strncmp s t n = 0 \<longleftrightarrow> c_prefix (take n s) = c_prefix (take n t))"
    using assms
  proof (induction n arbitrary: s t)
    case 0
    then show ?case by simp
  next
    case (Suc n)
    then obtain a s' b t' where st: "s = a # s'" "t = b # t'"
      by (cases s; cases t) auto
    show ?case
    proof (cases "a = b")
      case True
      with Suc st show ?thesis by (simp add: Let_def)
    next
      case False
      then have "\<not> (a = 0 \<and> b = 0)" by auto
      with False st byte_diff_sign [of a b] byte_pos [of a] byte_pos [of b] show ?thesis
        by (cases "a = 0"; cases "b = 0") (auto simp: Let_def)
    qed
  qed
  then show "c_strncmp s t n < 0 \<longleftrightarrow> c_prefix (take n s) < c_prefix (take n t)"
    and "c_strncmp s t n = 0 \<longleftrightarrow> c_prefix (take n s) = c_prefix (take n t)"
    by simp_all
qed

lemma list_less_append: "x < y \<Longrightarrow> x < (y :: 'a::linorder list) @ z"
proof (induction x arbitrary: y)
  case Nil
  then show ?case by (cases y) auto
next
  case (Cons a x)
  then show ?case by (cases y) auto
qed

lemma list_less_self_append: "z \<noteq> [] \<Longrightarrow> x < (x :: 'a::linorder list) @ z"
  by (induction x) (auto simp: neq_Nil_conv)

lemma list_append_less:
  "x < (y :: 'a::linorder list) \<Longrightarrow> length y \<le> length x \<Longrightarrow> x @ z < y"
proof (induction x arbitrary: y)
  case Nil
  then show ?case by simp
next
  case (Cons a x)
  then show ?case by (cases y) auto
qed

lemma c_prefix_take: "\<exists>z. c_prefix s = c_prefix (take n s) @ z \<and>
    (z \<noteq> [] \<longrightarrow> length (c_prefix (take n s)) = n)"
proof (induction s arbitrary: n)
  case Nil
  then show ?case by simp
next
  case (Cons a s)
  then show ?case by (cases n) auto
qed

text \<open>The comparison of a shorter with a longer text.\<close>

lemma text_cmp_shorter:
  assumes "length s < length t"
  shows "c_strncmp s t (length s) < 0 \<or> c_strncmp s t (length s) = 0 \<longleftrightarrow>
      (c_prefix s, length s) < (c_prefix t, length t)"
proof -
  let ?b = "c_prefix (take (length s) t)"
  obtain z where z: "c_prefix t = ?b @ z" "z \<noteq> [] \<longrightarrow> length ?b = length s"
    using c_prefix_take [of t "length s"] by blast
  have lex: "c_strncmp s t (length s) < 0 \<longleftrightarrow> c_prefix s < ?b"
    "c_strncmp s t (length s) = 0 \<longleftrightarrow> c_prefix s = ?b"
    using c_strncmp_lex [of "length s" s t] assms by simp_all
  have le: "length (c_prefix s) \<le> length s" by (simp add: length_takeWhile_le)
  show ?thesis
  proof (cases "c_prefix s" ?b rule: linorder_cases)
    case less
    then have "c_prefix s < c_prefix t" unfolding z(1) by (rule list_less_append)
    with less lex show ?thesis by (simp add: less_prod_def)
  next
    case equal
    then have "c_prefix s < c_prefix t \<or> c_prefix s = c_prefix t"
      unfolding z(1) using list_less_self_append [of z ?b] by (cases "z = []") auto
    with equal lex assms show ?thesis by (auto simp: less_prod_def)
  next
    case greater
    have "c_prefix t < c_prefix s"
    proof (cases "z = []")
      case True
      with greater z show ?thesis by simp
    next
      case False
      with z le have "length (c_prefix s) \<le> length ?b" by simp
      with greater show ?thesis unfolding z(1) by (rule list_append_less)
    qed
    with greater lex show ?thesis by (auto simp: less_prod_def)
  qed
qed

lemma c_strncmp_sym: "c_strncmp s t n = - c_strncmp t s n"
  by (induction s t n rule: c_strncmp.induct) (auto simp: Let_def)

interpretation text_stream_order:
  bt_order btTextCmp "\<lambda>s. (c_prefix (text_of s), length (text_of s))"
proof
  fix a b
  let ?s = "text_of a" and ?t = "text_of b"
  show "btTextCmp a b < 0 \<longleftrightarrow> (c_prefix ?s, length ?s) < (c_prefix ?t, length ?t)"
    using c_strncmp_lex [of "length ?s" ?s ?t] text_cmp_shorter [of ?s ?t] text_cmp_shorter [of ?t ?s]
      c_strncmp_sym [of ?s ?t "length ?t"]
    by (cases "length ?s" "length ?t" rule: linorder_cases)
      (auto simp: btTextCmp_def Let_def less_prod_def)
  show "btTextCmp a b = 0 \<longleftrightarrow> (c_prefix ?s, length ?s) = (c_prefix ?t, length ?t)"
    using c_strncmp_lex [of "length ?s" ?s ?t] by (auto simp: btTextCmp_def Let_def)
qed

subsection \<open>UU rows\<close>

lemma c_div_nonneg: "0 \<le> a \<Longrightarrow> 0 < b \<Longrightarrow> c_div a b = a div b"
  by (cases "a = 0") (simp_all add: c_div_def sgn_if)

lemma sint_small:
  assumes "0 \<le> k" and "k < 2 ^ 63"
  shows "sint (word_of_int k :: ulong) = k"
proof -
  have "uint (word_of_int k :: ulong) = k"
    using assms by (simp add: uint_word_of_int)
  then show ?thesis
    using assms unfolding sint_uint by (simp add: signed_take_bit_int_eq_self_iff)
qed

lemma uu_stream_value:
  assumes "uint key * UINT_MAX + uint val < 2 ^ 63"
  shows "sint (uu_stream (uu_btkey key) val) = uint key * UINT_MAX + uint val"
proof -
  have "uu_stream (uu_btkey key) val = word_of_int (uint key * UINT_MAX + uint val)"
    by (simp add: uu_stream_def uu_btkey_def unsigned_ucast_eq)
  moreover have "0 \<le> uint key * UINT_MAX + uint val" by (simp add: UINT_MAX_def)
  ultimately show ?thesis using assms by (simp only: sint_small)
qed

text \<open>
  A UU row (INT key, INT value, both in one machine word) decodes to the key and value it was
  made from, as long as the word stays non-negative and the value is not \<open>2 ^ 32 - 1\<close>; with that
  value it decodes to the next key and the value 0.
\<close>

theorem uu_row_decode:
  assumes "uint key * UINT_MAX + uint val < 2 ^ 63"
  shows "uu_key (uu_stream (uu_btkey key) val) = (if val = - 1 then key + 1 else key) \<and>
     uu_val (uu_stream (uu_btkey key) val) = (if val = - 1 then 0 else ucast val)"
proof -
  let ?t = "uint key * UINT_MAX + uint val"
  have m: "0 < UINT_MAX" by (simp add: UINT_MAX_def)
  have nn: "0 \<le> ?t" by (simp add: UINT_MAX_def)
  have t: "sint (uu_stream (uu_btkey key) val) = ?t" by (rule uu_stream_value [OF assms])
  have vmax: "val = - 1 \<longleftrightarrow> uint val = UINT_MAX"
  proof -
    have "uint (- 1 :: uint32) = UINT_MAX" by (simp add: UINT_MAX_def uint_word_of_int_eq
          unsigned_minus_1_eq_mask mask_eq_exp_minus_1)
    then show ?thesis by (simp only: word_uint_eq_iff)
  qed
  have vle: "uint val \<le> UINT_MAX"
    using uint_lt2p [of val] by (simp add: UINT_MAX_def)
  have d: "c_div ?t UINT_MAX = (if val = - 1 then uint key + 1 else uint key)"
  proof (cases "val = - 1")
    case True
    then have "?t = (uint key + 1) * UINT_MAX" using vmax by (simp add: algebra_simps)
    then show ?thesis using True m nn by (simp add: c_div_nonneg)
  next
    case False
    then have "uint val < UINT_MAX" using vmax vle by simp
    then show ?thesis using False m nn
      by (simp only: c_div_nonneg if_False) (simp add: div_add1_eq)
  qed
  have r: "c_mod ?t UINT_MAX = (if val = - 1 then 0 else uint val)"
    unfolding c_mod_def d using vmax by (simp add: algebra_simps)
  show ?thesis
    unfolding uu_key_def uu_val_def t d r by (auto simp: word_of_int_uint)
qed

theorem uu_row_decode_witness:
  "uint (7 :: uint32) * UINT_MAX + uint (4294967295 :: uint32) < 2 ^ 63 \<and>
   uu_key (uu_stream (uu_btkey 7) 4294967295) = (if (4294967295 :: uint32) = - 1 then 7 + 1 else 7) \<and>
   uu_val (uu_stream (uu_btkey 7) 4294967295) = (if (4294967295 :: uint32) = - 1 then 0 else ucast (4294967295 :: uint32))"
proof -
  have "uint (7 :: uint32) * UINT_MAX + uint (4294967295 :: uint32) < 2 ^ 63"
    by (simp add: UINT_MAX_def)
  then show ?thesis using uu_row_decode [of 7 4294967295] by blast
qed

end
