(* ===== verification/Alc_BTSearch.thy ===== *)
theory Alc_BTSearch
  imports Alc_Cmp
begin

text \<open>
  Position search inside a B-tree node, \<^verbatim>\<open>src/DB/bt_code.c\<close>: the logarithm routines, their lookup
  table, and the binary search \<^verbatim>\<open>findkindex\<close>. The unsigned values here stay far below \<open>2 ^ 32\<close>
  (shift widths are at most 16), so they are natural numbers; \<^verbatim>\<open>a &= (1 << b) - 1\<close> is \<open>a mod 2 ^ b\<close>.
  A node's keys are a list, \<^verbatim>\<open>x->n\<close> is its length.
\<close>

fun real_log2_loop :: "nat \<Rightarrow> nat \<Rightarrow> nat \<Rightarrow> nat" where
  "real_log2_loop b a i =
     (if b = 0 then i
      else let i = 2 * i in
        if 2 ^ b \<le> a then real_log2_loop (b div 2) (a div 2 ^ b) (i OR 1)
        else real_log2_loop (b div 2) (a mod 2 ^ b) i)"

declare real_log2_loop.simps [simp del]

definition real_log2 :: "nat \<Rightarrow> nat \<Rightarrow> nat" where
  "real_log2 a nbits = real_log2_loop ((nbits + 1) div 2) a 0"

text \<open>
  The static table of \<^verbatim>\<open>_log2\<close>: \<open>-1\<close> marks a slot that is not computed yet, \<^verbatim>\<open>alloced\<close> is its length.
\<close>

definition log2_tab :: "int list \<Rightarrow> nat \<Rightarrow> nat \<Rightarrow> int list \<times> int" where
  "log2_tab tab a nbits =
     (let tab = (if length tab \<le> a then tab @ replicate (a + 1 - length tab) (- 1) else tab);
          tab = (if tab ! a = - 1 then tab[a := int (real_log2 a nbits)] else tab)
      in (tab, tab ! a))"

subsection \<open>The logarithm\<close>

text \<open>The number of bits of the shift width, which is the number of iterations.\<close>

fun bits_of :: "nat \<Rightarrow> nat" where
  "bits_of b = (if b = 0 then 0 else Suc (bits_of (b div 2)))"

declare bits_of.simps [simp del]

lemma bits_of_le: "0 < b \<Longrightarrow> 2 ^ (bits_of b - 1) \<le> b"
proof (induction b rule: bits_of.induct)
  case (1 b)
  show ?case
  proof (cases "b div 2 = 0")
    case True
    with 1 show ?thesis by (simp add: bits_of.simps [of b] bits_of.simps [of 0])
  next
    case False
    then have "2 ^ (bits_of (b div 2) - 1) \<le> b div 2" using 1 by simp
    moreover have "bits_of (b div 2) = Suc (bits_of (b div 2) - 1)"
      using False by (subst bits_of.simps) (simp add: bits_of.simps [of "b div 2"])
    ultimately have "2 ^ bits_of (b div 2) \<le> 2 * (b div 2)" by (metis mult_le_mono2 power_Suc)
    then show ?thesis using 1 by (simp add: bits_of.simps [of b])
  qed
qed

lemma nat_or_1: "2 * i OR 1 = 2 * i + (1 :: nat)"
  using or_one_eq [of "2 * i"] by simp

lemma real_log2_loop_0 [simp]: "real_log2_loop 0 a i = i"
  by (simp add: real_log2_loop.simps [of 0])

lemma real_log2_loop_rec:
  assumes "b \<noteq> 0"
  shows "real_log2_loop b a i =
     (if 2 ^ b \<le> a then real_log2_loop (b div 2) (a div 2 ^ b) (2 * i + 1)
      else real_log2_loop (b div 2) a (2 * i))"
  unfolding real_log2_loop.simps [of b a i] Let_def nat_or_1 using assms by simp

text \<open>The loop never overestimates: it returns a shift whose power is at most \<open>a\<close>.\<close>

lemma real_log2_loop_le:
  "0 < a \<Longrightarrow> \<exists>s. real_log2_loop b a i = i * 2 ^ bits_of b + s \<and> 2 ^ s \<le> a"
proof (induction b a i rule: real_log2_loop.induct)
  case (1 b a i)
  show ?case
  proof (cases "b = 0")
    case True
    with 1(3) show ?thesis
      by (intro exI [of _ 0]) (simp add: real_log2_loop.simps [of 0] bits_of.simps [of 0])
  next
    case False
    then have bb: "bits_of b = Suc (bits_of (b div 2))" by (subst bits_of.simps) simp
    show ?thesis
    proof (cases "2 ^ b \<le> a")
      case True
      then have "0 < a div 2 ^ b" by (simp add: div_greater_zero_iff)
      then obtain s where s: "real_log2_loop (b div 2) (a div 2 ^ b) (2 * i + 1) =
          (2 * i + 1) * 2 ^ bits_of (b div 2) + s" "2 ^ s \<le> a div 2 ^ b"
        using 1(1) [OF False refl True, unfolded nat_or_1] by blast
      have "2 ^ bits_of (b div 2) \<le> b" using bits_of_le [of b] False bb by simp
      then have "(2 :: nat) ^ (2 ^ bits_of (b div 2) + s) \<le> 2 ^ b * 2 ^ s"
        by (simp add: power_add)
      also have "\<dots> \<le> 2 ^ b * (a div 2 ^ b)" using s(2) by simp
      also have "\<dots> \<le> a" by simp
      finally have "(2 :: nat) ^ (2 ^ bits_of (b div 2) + s) \<le> a" .
      moreover have "real_log2_loop b a i = i * 2 ^ bits_of b + (2 ^ bits_of (b div 2) + s)"
        using s(1) True by (simp add: real_log2_loop_rec [OF False] bb algebra_simps)
      ultimately show ?thesis by blast
    next
      case False2: False
      then have "a mod 2 ^ b = a" by simp
      then obtain s where "real_log2_loop (b div 2) (a mod 2 ^ b) (2 * i) =
          2 * i * 2 ^ bits_of (b div 2) + s" "2 ^ s \<le> a"
        using 1(2) [OF False _ False2] 1(3) by auto
      then show ?thesis
        using False2 by (intro exI [of _ s]) (simp add: real_log2_loop_rec [OF False] bb)
    qed
  qed
qed

lemma real_log2_le: "0 < a \<Longrightarrow> 2 ^ real_log2 a nbits \<le> a"
  using real_log2_loop_le [of a "(nbits + 1) div 2" 0] by (auto simp: real_log2_def)

text \<open>With a power of two as width the result is the logarithm.\<close>

lemma real_log2_loop_exact:
  "0 < a \<Longrightarrow> a < 2 ^ (2 ^ Suc m) \<Longrightarrow>
   \<exists>s. real_log2_loop (2 ^ m) a i = i * 2 ^ Suc m + s \<and> 2 ^ s \<le> a \<and> a < 2 ^ Suc s"
proof (induction m arbitrary: a i)
  case 0
  then have "a = 1 \<or> a = 2 \<or> a = 3" by auto
  moreover have "real_log2_loop 1 a i = (if 2 \<le> a then 2 * i + 1 else 2 * i)"
    using real_log2_loop_rec [of 1 a i] by simp
  ultimately show ?case
    by (intro exI [of _ "if 2 \<le> a then 1 else 0"]) auto
next
  case (Suc m)
  have half: "2 ^ Suc m div 2 = (2 :: nat) ^ m" by simp
  show ?case
  proof (cases "2 ^ (2 ^ Suc m) \<le> a")
    case True
    let ?a = "a div 2 ^ (2 ^ Suc m)"
    have "0 < ?a" using True by (simp add: div_greater_zero_iff)
    moreover have "?a < 2 ^ (2 ^ Suc m)"
      using Suc.prems(2) by (simp add: div_less_iff_less_mult mult_2 flip: power_add)
    ultimately obtain s where s: "real_log2_loop (2 ^ m) ?a (2 * i + 1) = (2 * i + 1) * 2 ^ Suc m + s"
      "2 ^ s \<le> ?a" "?a < 2 ^ Suc s"
      using Suc.IH by blast
    have "2 ^ (2 ^ Suc m + s) \<le> a"
    proof -
      have "2 ^ (2 ^ Suc m + s) = (2::nat) ^ s * 2 ^ (2 ^ Suc m)" by (simp only: power_add mult.commute)
      also have "\<dots> \<le> a" using s(2) by (simp add: less_eq_div_iff_mult_less_eq)
      finally show ?thesis .
    qed
    moreover have "a < 2 ^ Suc (2 ^ Suc m + s)"
    proof -
      have "a < 2 ^ Suc s * 2 ^ (2 ^ Suc m)" using s(3) by (simp add: div_less_iff_less_mult)
      also have "\<dots> = 2 ^ Suc (2 ^ Suc m + s)" by (simp only: power_add power_Suc mult_ac)
      finally show ?thesis .
    qed
    moreover have "real_log2_loop (2 ^ Suc m) a i = i * 2 ^ Suc (Suc m) + (2 ^ Suc m + s)"
      using real_log2_loop_rec [of "2 ^ Suc m" a i] True s(1) unfolding half by (simp add: algebra_simps)
    ultimately show ?thesis by blast
  next
    case False
    then obtain s where "real_log2_loop (2 ^ m) a (2 * i) = 2 * i * 2 ^ Suc m + s"
      "2 ^ s \<le> a" "a < 2 ^ Suc s"
      using Suc.IH [of a "2 * i"] Suc.prems(1) by auto
    moreover have "real_log2_loop (2 ^ Suc m) a i = real_log2_loop (2 ^ m) a (2 * i)"
      using real_log2_loop_rec [of "2 ^ Suc m" a i] False unfolding half by simp
    ultimately show ?thesis by (intro exI [of _ s]) simp
  qed
qed

lemma real_log2_exact:
  assumes "0 < a" and "a < 2 ^ (2 ^ Suc m)"
  shows "2 ^ real_log2 a (2 ^ Suc m) \<le> a" "a < 2 ^ Suc (real_log2 a (2 ^ Suc m))"
proof -
  have "(2 ^ Suc m + 1) div 2 = (2 :: nat) ^ m" by simp
  then show "2 ^ real_log2 a (2 ^ Suc m) \<le> a" "a < 2 ^ Suc (real_log2 a (2 ^ Suc m))"
    using real_log2_loop_exact [OF assms, of 0] by (auto simp: real_log2_def)
qed

subsection \<open>Binary search\<close>

text \<open>
  The loop of \<^verbatim>\<open>findkindex\<close> on the slot range \<open>i .. i + a\<close>; it stops because \<open>real_log2_le\<close> makes
  \<open>a\<close> smaller in both branches.
\<close>

function findkindex_loop :: "('k \<Rightarrow> 'k \<Rightarrow> int) \<Rightarrow> nat \<Rightarrow> 'k list \<Rightarrow> 'k \<Rightarrow> nat \<Rightarrow> nat \<Rightarrow> nat" where
  "findkindex_loop cmp nbits keys k a i =
     (if a = 0 then i
      else let b = real_log2 a nbits; slot = 2 ^ b + i in
        if cmp k (keys ! slot) < 0 then findkindex_loop cmp nbits keys k (2 ^ b - 1) i
        else findkindex_loop cmp nbits keys k (a - 2 ^ b) (i OR 2 ^ b))"
  by pat_completeness auto
termination
proof (relation "measure (\<lambda>(cmp, nbits, keys, k, a, i). a)", goal_cases)
  case 1
  show ?case by simp
next
  case (2 cmp nbits keys k a i b slot)
  then show ?case using real_log2_le [of a nbits] by simp
next
  case (3 cmp nbits keys k a i b slot)
  then show ?case by simp
qed

declare findkindex_loop.simps [simp del]

text \<open>
  \<^verbatim>\<open>findkindex\<close>: the slot of the last key not greater than \<open>k\<close> (\<open>-1\<close> if there is none) and the last
  comparison result \<^verbatim>\<open>*r\<close>, which is not assigned on an empty node.
\<close>

definition findkindex :: "('k \<Rightarrow> 'k \<Rightarrow> int) \<Rightarrow> nat \<Rightarrow> 'k list \<Rightarrow> 'k \<Rightarrow> int \<times> int option" where
  "findkindex cmp nbits keys k =
     (if keys = [] then (- 1, None)
      else let i = findkindex_loop cmp nbits keys k (length keys - 1) 0;
               r = cmp k (keys ! i)
        in (if r < 0 then int i - 1 else int i, Some r))"

lemma nat_or_disjoint:
  assumes "2 ^ m dvd (i :: nat)" and "b < m"
  shows "i OR 2 ^ b = i + 2 ^ b" "2 ^ b dvd i OR 2 ^ b"
proof -
  have "\<not> bit i b"
  proof -
    have "2 * 2 ^ b dvd i"
      using assms by (metis Suc_leI dvd_trans le_imp_power_dvd power_Suc)
    then have "even (i div 2 ^ b)" by (auto elim!: dvdE simp: mult.assoc)
    then show ?thesis by (simp add: bit_iff_odd)
  qed
  then have "i AND 2 ^ b = 0" by (simp add: and_exp_eq_0_iff_not_bit)
  then show eq: "i OR 2 ^ b = i + 2 ^ b"
    by (simp add: disjunctive_add_eq_or)
  have "2 ^ b dvd i" using assms by (meson dvd_trans le_imp_power_dvd less_imp_le_nat)
  then show "2 ^ b dvd i OR 2 ^ b" unfolding eq by simp
qed

text \<open>The interface between a node and its search: keys strictly increasing in the comparator's key.\<close>

definition sorted_by :: "('e \<Rightarrow> 'o::linorder) \<Rightarrow> 'e list \<Rightarrow> bool" where
  "sorted_by ord ks \<longleftrightarrow> sorted_wrt (\<lambda>a b. ord a < ord b) ks"

text \<open>The number of leading keys that are not greater than the search key.\<close>

definition key_pos :: "('e \<Rightarrow> 'o::linorder) \<Rightarrow> 'e list \<Rightarrow> 'e \<Rightarrow> nat" where
  "key_pos ord ks k = length (takeWhile (\<lambda>e. ord e \<le> ord k) ks)"

lemma sorted_by_nth:
  "sorted_by ord ks \<Longrightarrow> i < j \<Longrightarrow> j < length ks \<Longrightarrow> ord (ks ! i) < ord (ks ! j)"
  by (simp add: sorted_by_def sorted_wrt_iff_nth_less)

lemma sorted_by_simps [simp]:
  "sorted_by ord []"
  "sorted_by ord (x # xs) \<longleftrightarrow> (\<forall>y \<in> set xs. ord x < ord y) \<and> sorted_by ord xs"
  "sorted_by ord (xs @ ys) \<longleftrightarrow>
     sorted_by ord xs \<and> sorted_by ord ys \<and> (\<forall>x \<in> set xs. \<forall>y \<in> set ys. ord x < ord y)"
  by (auto simp: sorted_by_def sorted_wrt_append)

lemma key_pos_le: "key_pos ord ks k \<le> length ks"
  by (simp add: key_pos_def length_takeWhile_le)

lemma key_pos_eqI:
  assumes "p \<le> length ks" and "\<And>j. j < p \<Longrightarrow> ord (ks ! j) \<le> ord k"
    and "p < length ks \<Longrightarrow> \<not> ord (ks ! p) \<le> ord k"
  shows "key_pos ord ks k = p"
  unfolding key_pos_def using assms
proof (induction ks arbitrary: p)
  case Nil
  then show ?case by simp
next
  case (Cons e ks)
  show ?case
  proof (cases p)
    case 0
    with Cons.prems(3) show ?thesis by simp
  next
    case (Suc q)
    have "ord e \<le> ord k" using Cons.prems(2) [of 0] Suc by simp
    moreover have "ord (ks ! j) \<le> ord k" if "j < q" for j
      using Cons.prems(2) [of "Suc j"] that Suc by simp
    then have "length (takeWhile (\<lambda>e. ord e \<le> ord k) ks) = q"
      using Cons.prems Suc by (intro Cons.IH) auto
    ultimately show ?thesis using Suc by simp
  qed
qed

context bt_order
begin

lemma findkindex_loop_correct:
  assumes sorted: "sorted_by ord ks" and width: "nbits = 2 ^ Suc m'"
    and "a < 2 ^ nbits" "i + a < length ks" "2 ^ m dvd i" "a < 2 ^ m"
    and "0 < i \<Longrightarrow> ord (ks ! i) \<le> ord k"
    and "\<And>j. i + a < j \<Longrightarrow> j < length ks \<Longrightarrow> ord k < ord (ks ! j)"
  defines "p \<equiv> findkindex_loop cmp nbits ks k a i"
  shows "p < length ks \<and> (0 < p \<longrightarrow> ord (ks ! p) \<le> ord k) \<and>
     (\<forall>j. p < j \<and> j < length ks \<longrightarrow> ord k < ord (ks ! j))"
  unfolding p_def using assms(3-8)
proof (induction a arbitrary: i m rule: less_induct)
  case (less a)
  show ?case
  proof (cases "a = 0")
    case True
    with less.prems show ?thesis by (simp add: findkindex_loop.simps [of _ _ _ _ 0])
  next
    case False
    let ?b = "real_log2 a nbits"
    have b: "2 ^ ?b \<le> a" "a < 2 ^ Suc ?b"
      using real_log2_exact [of a m'] False less.prems(1) width by simp_all
    have bm: "?b < m"
    proof (rule ccontr)
      assume "\<not> ?b < m"
      then have "(2::nat) ^ m \<le> 2 ^ ?b" by simp
      with b less.prems(4) show False by linarith
    qed
    note i_or = nat_or_disjoint [OF less.prems(3) bm]
    have dvd: "2 ^ ?b dvd i"
      using less.prems(3) bm by (meson dvd_trans le_imp_power_dvd less_imp_le_nat)
    show ?thesis
    proof (cases "cmp k (ks ! (2 ^ ?b + i)) < 0")
      case True
      then have lt: "ord k < ord (ks ! (i + 2 ^ ?b))" by (simp add: cmp_neg add.commute)
      have "ord k < ord (ks ! j)" if "i + (2 ^ ?b - 1) < j" "j < length ks" for j
      proof (cases "j = i + 2 ^ ?b")
        case False
        with that have "i + 2 ^ ?b < j" by linarith
        with lt sorted_by_nth [OF sorted this that(2)] show ?thesis by simp
      qed (use lt in simp)
      with less.IH [of "2 ^ ?b - 1" i ?b] b dvd less.prems True False show ?thesis
        by (simp add: findkindex_loop.simps [of _ _ _ _ a] Let_def)
    next
      case ge: False
      then have "ord (ks ! (i + 2 ^ ?b)) \<le> ord k" by (simp add: cmp_neg add.commute)
      with less.IH [of "a - 2 ^ ?b" "i + 2 ^ ?b" ?b] b dvd i_or less.prems ge False show ?thesis
        by (simp add: findkindex_loop.simps [of _ _ _ _ a] Let_def)
    qed
  qed
qed

lemma findkindex_loop_start:
  fixes k
  assumes "sorted_by ord ks" "nbits = 2 ^ Suc m'" "length ks \<le> 2 ^ nbits" "ks \<noteq> []"
  defines "p \<equiv> findkindex_loop cmp nbits ks k (length ks - 1) 0"
  shows "p < length ks \<and> (0 < p \<longrightarrow> ord (ks ! p) \<le> ord k) \<and>
     (\<forall>j. p < j \<and> j < length ks \<longrightarrow> ord k < ord (ks ! j))"
proof -
  have "length ks - 1 < 2 ^ nbits" "0 + (length ks - 1) < length ks"
    using assms(3,4) by (cases ks; simp)+
  then show ?thesis
    unfolding p_def using findkindex_loop_correct [OF assms(1,2), of "length ks - 1" 0 nbits] by simp
qed

text \<open>The result in terms of \<open>key_pos\<close>, the form the tree operations use.\<close>

lemma findkindex_pos:
  assumes "sorted_by ord ks" "nbits = 2 ^ Suc m'" "length ks \<le> 2 ^ nbits"
  shows "fst (findkindex cmp nbits ks k) = int (key_pos ord ks k) - 1"
    and "snd (findkindex cmp nbits ks k) = Some 0 \<longleftrightarrow>
      0 < key_pos ord ks k \<and> ord (ks ! (key_pos ord ks k - 1)) = ord k"
proof -
  have "fst (findkindex cmp nbits ks k) = int (key_pos ord ks k) - 1 \<and>
    (snd (findkindex cmp nbits ks k) = Some 0 \<longleftrightarrow>
      0 < key_pos ord ks k \<and> ord (ks ! (key_pos ord ks k - 1)) = ord k)"
  proof (cases "ks = []")
    case True
    then show ?thesis by (simp add: findkindex_def key_pos_def)
  next
    case False
    define p where "p = findkindex_loop cmp nbits ks k (length ks - 1) 0"
    have p: "p < length ks" "0 < p \<longrightarrow> ord (ks ! p) \<le> ord k"
      "\<And>j. p < j \<Longrightarrow> j < length ks \<Longrightarrow> ord k < ord (ks ! j)"
      using findkindex_loop_start [OF assms False, of k] unfolding p_def by auto
    have fk: "findkindex cmp nbits ks k =
        (if cmp k (ks ! p) < 0 then int p - 1 else int p, Some (cmp k (ks ! p)))"
      using False by (simp add: findkindex_def Let_def p_def)
    show ?thesis
    proof (cases "cmp k (ks ! p) < 0")
      case True
      then have "ord k < ord (ks ! p)" by (simp add: cmp_neg)
      moreover from this p have "p = 0" by (cases p) auto
      ultimately have "key_pos ord ks k = 0" using p by (intro key_pos_eqI) auto
      then show ?thesis using True \<open>p = 0\<close> by (simp add: fk)
    next
      case ge: False
      then have le: "ord (ks ! p) \<le> ord k" by (simp add: cmp_neg)
      have "ord (ks ! j) \<le> ord k" if "j < Suc p" for j
        using that le sorted_by_nth [OF assms(1), of j p] p(1) by (cases "j = p") auto
      then have "key_pos ord ks k = Suc p" using p by (intro key_pos_eqI) (auto simp: not_le)
      then show ?thesis using ge cmp_zero [of k "ks ! p"] by (auto simp: fk)
    qed
  qed
  then show "fst (findkindex cmp nbits ks k) = int (key_pos ord ks k) - 1"
    and "snd (findkindex cmp nbits ks k) = Some 0 \<longleftrightarrow>
      0 < key_pos ord ks k \<and> ord (ks ! (key_pos ord ks k - 1)) = ord k" by simp_all
qed

lemma findkindex_full:
  assumes "sorted_by ord ks" and "nbits = 4 \<and> length ks \<le> 7 \<or> nbits = 16 \<and> length ks \<le> 255"
  shows "\<exists>i r. findkindex cmp nbits ks k = (i, r) \<and> - 1 \<le> i \<and> i < int (length ks) \<and>
     (\<forall>j. j < length ks \<longrightarrow> (int j \<le> i \<longleftrightarrow> ord (ks ! j) \<le> ord k)) \<and>
     (r = Some 0 \<longleftrightarrow> 0 \<le> i \<and> ord (ks ! nat i) = ord k)"
proof -
  obtain m where m: "nbits = 2 ^ Suc m"
    using assms(2) that [of 1] that [of 3] by auto
  have len: "length ks \<le> 2 ^ nbits" using assms(2) by auto
  let ?p = "key_pos ord ks k"
  note f = findkindex_pos [OF assms(1) m len, of k]
  have below: "ord (ks ! j) \<le> ord k" if "j < ?p" for j
    using that nth_mem [of j "takeWhile (\<lambda>e. ord e \<le> ord k) ks"] takeWhile_nth [of j _ ks]
    by (force simp: key_pos_def dest: set_takeWhileD)
  have above: "\<not> ord (ks ! j) \<le> ord k" if "?p \<le> j" "j < length ks" for j
  proof -
    have p: "\<not> ord (ks ! ?p) \<le> ord k"
      using nth_length_takeWhile [of "\<lambda>e. ord e \<le> ord k" ks] that by (simp add: key_pos_def)
    show ?thesis
      using p sorted_by_nth [OF assms(1), of ?p j] that by (cases "j = ?p") auto
  qed
  have "int j \<le> int ?p - 1 \<longleftrightarrow> ord (ks ! j) \<le> ord k" if "j < length ks" for j
    using below [of j] above [of j] that by (cases "j < ?p") auto
  moreover have "int ?p - 1 < int (length ks)" using key_pos_le [of ord ks k] by simp
  moreover have "nat (int ?p - 1) = ?p - 1" by simp
  ultimately show ?thesis
    using f by (intro exI [of _ "int ?p - 1"] exI [of _ "snd (findkindex cmp nbits ks k)"])
      (auto simp: prod_eq_iff)
qed

end

subsection \<open>Properties of the component\<close>

definition log2_tab_ok :: "int list \<Rightarrow> bool" where
  "log2_tab_ok tab \<longleftrightarrow> (\<forall>i < length tab. tab ! i \<noteq> - 1 \<longrightarrow>
     0 \<le> tab ! i \<and> 2 ^ nat (tab ! i) \<le> i \<and> i < 2 ^ Suc (nat (tab ! i)))"

text \<open>
  The shared logarithm table is sound across trees of both sizes: whatever calls filled it
  before, with the widths 4 and 16 that \<^verbatim>\<open>bt_create\<close> gives its trees a call returns the base-2
  logarithm of its argument and leaves a table that is sound again.
\<close>

theorem log2_tab_correct:
  assumes "log2_tab_ok tab" and "nbits = 4 \<or> nbits = 16" and "0 < a" and "a < 2 ^ nbits"
  shows "case log2_tab tab a nbits of (tab', v) \<Rightarrow>
     log2_tab_ok tab' \<and> 0 \<le> v \<and> 2 ^ nat v \<le> a \<and> a < 2 ^ Suc (nat v)"
proof -
  define tab1 where "tab1 = (if length tab \<le> a then tab @ replicate (a + 1 - length tab) (- 1) else tab)"
  have len: "a < length tab1" by (simp add: tab1_def)
  have ok1: "log2_tab_ok tab1"
    using assms(1) by (auto simp: log2_tab_ok_def tab1_def nth_append)
  obtain m where m: "nbits = 2 ^ Suc m"
    using assms(2) that [of 1] that [of 3] by auto
  let ?v = "real_log2 a nbits"
  have v: "2 ^ ?v \<le> a" "a < 2 ^ Suc ?v"
    using real_log2_exact [OF assms(3), of m] assms(4) m by simp_all
  have ok2: "log2_tab_ok (tab1[a := int ?v])"
    unfolding log2_tab_ok_def
  proof (intro allI impI)
    fix i
    assume "i < length (tab1[a := int ?v])" and "tab1[a := int ?v] ! i \<noteq> - 1"
    then show "0 \<le> tab1[a := int ?v] ! i \<and> 2 ^ nat (tab1[a := int ?v] ! i) \<le> i \<and>
        i < 2 ^ Suc (nat (tab1[a := int ?v] ! i))"
      using ok1 v by (cases "i = a") (simp_all add: log2_tab_ok_def)
  qed
  have "log2_tab tab a nbits =
      (if tab1 ! a = - 1 then (tab1[a := int ?v], int ?v) else (tab1, tab1 ! a))"
    using len by (simp add: log2_tab_def tab1_def Let_def)
  then show ?thesis using ok1 ok2 v len by (auto simp: log2_tab_ok_def)
qed

theorem log2_tab_correct_witness:
  "log2_tab_ok [- 1, 0, - 1, 1] \<and>
   (case log2_tab [- 1, 0, - 1, 1] 200 16 of (tab', v) \<Rightarrow>
     log2_tab_ok tab' \<and> 0 \<le> v \<and> 2 ^ nat v \<le> (200 :: nat) \<and> (200 :: nat) < 2 ^ Suc (nat v))"
proof -
  have "log2_tab_ok [- 1, 0, - 1, 1]"
    by (simp add: log2_tab_ok_def less_Suc_eq numeral_eq_Suc)
  then show ?thesis using log2_tab_correct [of "[- 1, 0, - 1, 1]" 16 200] by simp
qed

text \<open>
  The binary search of a node is correct on text keys: in a node whose texts increase strictly
  it returns the position before the first key greater than the search key, and the comparison
  result 0 exactly when that position holds the search key.
\<close>

theorem findkindex_text_correct:
  fixes ks :: "byte list list"
  defines "ord \<equiv> \<lambda>s. (c_prefix (text_of s), length (text_of s))"
  assumes "sorted_by ord ks" and "nbits = 4 \<and> length ks \<le> 7 \<or> nbits = 16 \<and> length ks \<le> 255"
  shows "\<exists>i r. findkindex btTextCmp nbits ks k = (i, r) \<and> - 1 \<le> i \<and> i < int (length ks) \<and>
     (\<forall>j. j < length ks \<longrightarrow> (int j \<le> i \<longleftrightarrow> ord (ks ! j) \<le> ord k)) \<and>
     (r = Some 0 \<longleftrightarrow> 0 \<le> i \<and> ord (ks ! nat i) = ord k)"
  unfolding ord_def by (rule text_stream_order.findkindex_full) (use assms in simp_all)

theorem findkindex_text_correct_witness:
  "\<exists>i r. findkindex btTextCmp 4 [[3, 97], [3, 99]] [3, 98] = (i, r) \<and> - 1 \<le> i \<and>
     i < int (length [[3, 97], [3, 99 :: byte]]) \<and>
     (\<forall>j. j < length [[3, 97], [3, 99 :: byte]] \<longrightarrow> (int j \<le> i \<longleftrightarrow>
        (\<lambda>s. (c_prefix (text_of s), length (text_of s))) ([[3, 97], [3, 99]] ! j) \<le>
        (\<lambda>s. (c_prefix (text_of s), length (text_of s))) [3, 98])) \<and>
     (r = Some 0 \<longleftrightarrow> 0 \<le> i \<and>
        (\<lambda>s. (c_prefix (text_of s), length (text_of s))) ([[3, 97], [3, 99]] ! nat i) =
        (\<lambda>s. (c_prefix (text_of s), length (text_of s))) [3, 98])"
proof (rule findkindex_text_correct)
  have "text_of [3, 97] = [97]" "text_of [3, 99] = [99]"
    by (simp_all add: text_of_def streamText_def getSflag_def getTString_def c_take_def word_div_no)
  then show "sorted_by (\<lambda>s. (c_prefix (text_of s), length (text_of s))) [[3, 97], [3, 99]]"
    by (simp add: less_prod_def)
qed simp

end
