(* ===== verification/Alc_BTree.thy ===== *)
theory Alc_BTree
  imports Alc_BTSearch
begin

text \<open>
  The B-tree of \<^verbatim>\<open>src/DB/bt_code.c\<close> on trees without evicted rows: every node has \<^verbatim>\<open>x->dirty <= 0\<close>, so
  \<^verbatim>\<open>getDR\<close> is 0 and \<^verbatim>\<open>setDR\<close>, \<^verbatim>\<open>zeroDR\<close>, \<^verbatim>\<open>overwriteDR\<close> leave the node alone (proved in \<open>Alc_Dirty\<close>).
  A \<^verbatim>\<open>bt_n\<close> is a value: its \<^verbatim>\<open>scion\<close> counter, the leaf flag, the \<^verbatim>\<open>n\<close> keys and the child nodes; an inner
  node has \<^verbatim>\<open>n + 1\<close> children, and following a child slot that does not exist is an \<open>OOB_read\<close>. A key is
  what the tree stores by value (an \<^verbatim>\<open>ulong\<close>, or the pointer to a stream, represented by the stream).
\<close>

datatype 'k btn = BTN (scion: uint32) (leaf: bool) (bkeys: "'k list") (bkids: "'k btn list")

record 'k bt =
  bt_root :: "'k btn"
  bt_numkeys :: uint32
  bt_numnodes :: uint32
  bt_t :: nat
  bt_nbits :: nat

definition nkeys :: "'k btn \<Rightarrow> nat" where
  "nkeys x = length (bkeys x)"

definition kid :: "'k btn \<Rightarrow> nat \<Rightarrow> 'k btn c_res" where
  "kid x i = (if i < length (bkids x) then Inr (bkids x ! i) else Inl OOB_read)"

definition GETN :: "nat \<Rightarrow> nat" where
  "GETN t = 2 * t - 1"

definition sum_scion :: "'k btn list \<Rightarrow> uint32" where
  "sum_scion cs = sum_list (map scion cs)"

subsection \<open>Creation\<close>

datatype trans = TRANS_ONE | TRANS_TWO

definition bt_create :: "trans \<Rightarrow> 'k bt" where
  "bt_create tr =
     (let n = (if tr = TRANS_ONE then 7 else 255);
          nbits = real_log2 n 32 + 1
      in \<lparr>bt_root = BTN 0 True [] [], bt_numkeys = 0, bt_numnodes = 1,
          bt_t = (n + 1) div 2, bt_nbits = 2 ^ (real_log2 nbits 32 + 1)\<rparr>)"

subsection \<open>Insertion\<close>

text \<open>
  \<^verbatim>\<open>btreesplitchild\<close>: the full child \<open>y\<close> at slot \<open>i\<close> keeps its first \<open>t - 1\<close> keys, the new node \<open>z\<close> gets the
  last \<open>t - 1\<close> with their \<open>t\<close> children, the median moves up between them; the scions are adjusted in
  the order of the code.
\<close>

definition split_upper :: "nat \<Rightarrow> 'k btn \<Rightarrow> 'k btn" where
  "split_upper t y =
     (let moved = (if leaf y then [] else take t (drop t (bkids y)))
      in BTN (of_nat (t - 1) + sum_scion moved) (leaf y) (take (t - 1) (drop t (bkeys y))) moved)"

definition split_lower :: "nat \<Rightarrow> 'k btn \<Rightarrow> 'k btn" where
  "split_lower t y =
     (let moved = (if leaf y then [] else take t (drop t (bkids y)))
      in BTN (scion y - of_nat (t - 1) - sum_scion moved - 1) (leaf y)
           (take (t - 1) (bkeys y)) (if leaf y then bkids y else take t (bkids y)))"

definition btreesplitchild :: "nat \<Rightarrow> 'k btn \<Rightarrow> nat \<Rightarrow> 'k btn \<Rightarrow> 'k btn" where
  "btreesplitchild t x i y =
     BTN (scion x) (leaf x)
       (take i (bkeys x) @ (bkeys y ! (t - 1)) # drop i (bkeys x))
       (take i (bkids x) @ split_lower t y # split_upper t y # drop (i + 1) (bkids x))"

text \<open>The height bounds the recursion depth of every operation.\<close>

fun bheight :: "'k btn \<Rightarrow> nat" where
  "bheight (BTN s l ks cs) = Suc (foldr max (map bheight cs) 0)"

lemma foldr_max_ge: "x \<in> set xs \<Longrightarrow> x \<le> foldr max xs (0::nat)"
  by (induction xs) auto

lemma foldr_max_le: "(\<And>x. x \<in> set xs \<Longrightarrow> x \<le> b) \<Longrightarrow> foldr max xs (0::nat) \<le> b"
  by (induction xs) auto

lemma bheight_kid: "c \<in> set (bkids x) \<Longrightarrow> bheight c < bheight x"
  by (cases x) (auto simp: less_Suc_eq_le intro!: foldr_max_ge)

lemma bheight_le:
  assumes "\<And>c. c \<in> set (bkids x) \<Longrightarrow> Suc (bheight c) \<le> b" and "0 < b"
  shows "bheight x \<le> b"
proof (cases x)
  case (BTN s l ks cs)
  have "foldr max (map bheight cs) 0 \<le> b - 1"
    using assms(1) BTN by (intro foldr_max_le) fastforce
  with BTN assms(2) show ?thesis by simp
qed

lemma bheight_pos [simp]: "0 < bheight x"
  by (cases x) simp

lemma kid_bheight: "kid x i = Inr y \<Longrightarrow> bheight y < bheight x"
  by (auto simp: kid_def bheight_kid split: if_splits)

lemma bheight_subkids:
  assumes "set (bkids y') \<subseteq> set (bkids y)"
  shows "bheight y' \<le> bheight y"
  using assms by (intro bheight_le) (auto simp: Suc_le_eq bheight_kid)

lemma bheight_split: "bheight (split_upper t y) \<le> bheight y \<and> bheight (split_lower t y) \<le> bheight y"
proof
  show "bheight (split_upper t y) \<le> bheight y"
    by (rule bheight_subkids) (auto simp: split_upper_def Let_def dest!: in_set_takeD in_set_dropD)
  show "bheight (split_lower t y) \<le> bheight y"
    by (rule bheight_subkids) (auto simp: split_lower_def Let_def dest!: in_set_takeD in_set_dropD)
qed

lemma kid_splitchild_bheight:
  assumes "kid x i = Inr y" and "kid (btreesplitchild t x i y) j = Inr z"
  shows "bheight z < bheight x"
proof -
  have "z \<in> set (bkids (btreesplitchild t x i y))"
    using assms(2) by (auto simp: kid_def split: if_splits)
  then have "z \<in> set (bkids x) \<or> z = split_lower t y \<or> z = split_upper t y"
    by (auto simp: btreesplitchild_def dest: in_set_takeD in_set_dropD)
  then show ?thesis
    using kid_bheight [OF assms(1)] bheight_split [of t y] bheight_kid [of z x] by auto
qed

text \<open>
  \<^verbatim>\<open>bt_insertnonfull\<close>: the changed node and the number of nodes allocated below it.
\<close>

function bt_insertnonfull ::
  "('k \<Rightarrow> 'k \<Rightarrow> int) \<Rightarrow> nat \<Rightarrow> nat \<Rightarrow> 'k btn \<Rightarrow> 'k \<Rightarrow> ('k btn \<times> uint32) c_res" where
  "bt_insertnonfull cmp nbits t x k =
     (let i = nat (fst (findkindex cmp nbits (bkeys x) k) + 1) in
      if leaf x then
        Inr (BTN (scion x + 1) (leaf x) (take i (bkeys x) @ k # drop i (bkeys x)) (bkids x), 0)
      else c_bind (kid x i) (\<lambda>y.
        if nkeys y = GETN t then
          let x1 = btreesplitchild t x i y;
              j = (if cmp k (bkeys x1 ! i) > 0 then i + 1 else i)
          in c_bind (kid x1 j) (\<lambda>z.
             c_bind (bt_insertnonfull cmp nbits t z k) (\<lambda>(z', a).
               Inr (BTN (scion x1 + 1) (leaf x1) (bkeys x1) ((bkids x1)[j := z']), a + 1)))
        else c_bind (bt_insertnonfull cmp nbits t y k) (\<lambda>(y', a).
               Inr (BTN (scion x + 1) (leaf x) (bkeys x) ((bkids x)[i := y']), a))))"
  by pat_completeness auto
termination
  by (relation "measure (\<lambda>(cmp, nbits, t, x, k). bheight x)")
    (auto dest: kid_bheight kid_splitchild_bheight)

declare bt_insertnonfull.simps [simp del]

text \<open>
  \<^verbatim>\<open>bt_insert\<close>: a full root is split under a new root first. \<^verbatim>\<open>numnodes\<close> is incremented for each
  allocation, and once more for a root split.
\<close>

definition bt_insert :: "('k \<Rightarrow> 'k \<Rightarrow> int) \<Rightarrow> 'k bt \<Rightarrow> 'k \<Rightarrow> 'k bt c_res" where
  "bt_insert cmp btr k =
     (let r = bt_root btr; t = bt_t btr;
          full = (nkeys r = GETN t);
          r1 = (if full then btreesplitchild t (BTN (0 + scion r) False [] [r]) 0 r else r);
          nn = (if full then bt_numnodes btr + 1 + 1 + 1 else bt_numnodes btr)
      in c_bind (bt_insertnonfull cmp (bt_nbits btr) t r1 k) (\<lambda>(r', a).
           Inr (btr\<lparr>bt_root := r', bt_numkeys := bt_numkeys btr + 1, bt_numnodes := nn + a\<rparr>)))"

subsection \<open>What a tree holds\<close>

text \<open>The keys of a tree in order: the children's keys interleaved with the node's own.\<close>

fun interleave :: "'k list list \<Rightarrow> 'k list \<Rightarrow> 'k list" where
  "interleave [] ks = ks"
| "interleave (c # cs) [] = c @ concat cs"
| "interleave (c # cs) (k # ks) = c @ k # interleave cs ks"

fun inorder :: "'k btn \<Rightarrow> 'k list" where
  "inorder (BTN s l ks cs) = interleave (map inorder cs) ks"

definition il_pre :: "'k list list \<Rightarrow> 'k list \<Rightarrow> 'k list" where
  "il_pre cs ks = concat (map2 (\<lambda>c k. c @ [k]) cs ks)"

definition il_post :: "'k list \<Rightarrow> 'k list list \<Rightarrow> 'k list" where
  "il_post ks cs = concat (map2 (#) ks cs)"

lemma il_simps [simp]:
  "il_pre [] ks = []" "il_pre (c # cs) (k # ks) = c @ k # il_pre cs ks"
  "il_post ks [] = []" "il_post [] cs = []" "il_post (k # ks) (c # cs) = k # c @ il_post ks cs"
  by (simp_all add: il_pre_def il_post_def)

lemma il_pre_append [simp]:
  "length cs = length ks \<Longrightarrow> il_pre (cs @ cs') (ks @ ks') = il_pre cs ks @ il_pre cs' ks'"
  by (simp add: il_pre_def)

lemma il_post_append [simp]:
  "length ks = length cs \<Longrightarrow> il_post (ks @ ks') (cs @ cs') = il_post ks cs @ il_post ks' cs'"
  by (simp add: il_post_def)

lemma interleave_kid:
  "length kr = length cr \<Longrightarrow> interleave (c # cr) kr = c @ il_post kr cr"
proof (induction kr cr arbitrary: c rule: list_induct2)
  case Nil
  then show ?case by simp
next
  case (Cons k kr d cr)
  then show ?case by simp
qed

lemma interleave_split:
  assumes "length cl = length kl" and "length kr = length cr"
  shows "interleave (cl @ c # cr) (kl @ kr) = il_pre cl kl @ c @ il_post kr cr"
  using assms by (induction cl kl rule: list_induct2) (simp_all add: interleave_kid)

lemma set_interleave: "set (interleave cs ks) = set ks \<union> (\<Union>c\<in>set cs. set c)"
  by (induction cs ks rule: interleave.induct) auto

lemma length_interleave: "length (interleave cs ks) = length ks + sum_list (map length cs)"
  by (induction cs ks rule: interleave.induct) (auto simp: length_concat)

lemma sorted_interleave_keys: "sorted_by ord (interleave cs ks) \<Longrightarrow> sorted_by ord ks"
  by (induction cs ks rule: interleave.induct) (auto simp: set_interleave)

subsection \<open>The invariant\<close>

text \<open>
  \<open>shape t h x\<close>: all leaves at depth \<open>h\<close>, an inner node has one child more than keys, and every node
  below \<open>x\<close> has between \<open>t - 1\<close> and \<open>2 t - 1\<close> keys. \<open>scion_ok\<close>: every \<^verbatim>\<open>scion\<close> counts its subtree's keys.
\<close>

primrec shape :: "nat \<Rightarrow> nat \<Rightarrow> 'k btn \<Rightarrow> bool" where
  "shape t 0 x \<longleftrightarrow> leaf x \<and> bkids x = []"
| "shape t (Suc h) x \<longleftrightarrow> \<not> leaf x \<and> length (bkids x) = nkeys x + 1 \<and>
     (\<forall>c \<in> set (bkids x). shape t h c \<and> t - 1 \<le> nkeys c \<and> nkeys c \<le> GETN t)"

fun scion_ok :: "'k btn \<Rightarrow> bool" where
  "scion_ok (BTN s l ks cs) \<longleftrightarrow>
     s = of_nat (length (inorder (BTN s l ks cs))) \<and> (\<forall>c \<in> set cs. scion_ok c)"

lemma length_inorder: "length (inorder x) = nkeys x + sum_list (map (length \<circ> inorder) (bkids x))"
  by (cases x) (simp add: length_interleave nkeys_def comp_def)

lemma scion_ok_scion: "scion_ok x \<Longrightarrow> scion x = of_nat (length (inorder x))"
  by (cases x) simp

lemma sum_scion_ok:
  "(\<And>c. c \<in> set cs \<Longrightarrow> scion_ok c) \<Longrightarrow> sum_scion cs = of_nat (sum_list (map (length \<circ> inorder) cs))"
  by (induction cs) (auto simp: sum_scion_def scion_ok_scion)

lemma scion_okI:
  "scion x = of_nat (length (inorder x)) \<Longrightarrow> (\<And>c. c \<in> set (bkids x) \<Longrightarrow> scion_ok c) \<Longrightarrow> scion_ok x"
  by (cases x) auto

lemma nkeys_BTN [simp]: "nkeys (BTN s l ks cs) = length ks"
  by (simp add: nkeys_def)

text \<open>An inner node seen around its child slot \<open>i\<close>.\<close>

lemma node_view:
  assumes "length (bkids x) = nkeys x + 1" and "i \<le> nkeys x"
  obtains kl kr cl c cr where "x = BTN (scion x) (leaf x) (kl @ kr) (cl @ c # cr)"
    "length kl = i" "length cl = i" "length kr = length cr"
proof -
  have i: "i < length (bkids x)" using assms by simp
  have "x = BTN (scion x) (leaf x) (take i (bkeys x) @ drop i (bkeys x))
      (take i (bkids x) @ bkids x ! i # drop (Suc i) (bkids x))"
    using id_take_nth_drop [OF i] by (cases x) simp
  with that [of "take i (bkeys x)" "drop i (bkeys x)" "take i (bkids x)" "bkids x ! i"
      "drop (Suc i) (bkids x)"] assms show ?thesis
    by (simp add: nkeys_def)
qed

lemma inorder_view:
  assumes "length cl = length kl" and "length kr = length cr"
  shows "inorder (BTN s l (kl @ kr) (cl @ c # cr)) =
     il_pre (map inorder cl) kl @ inorder c @ il_post kr (map inorder cr)"
  using assms by (simp add: interleave_split)

lemma kid_view [simp]: "length cl = i \<Longrightarrow> kid (BTN s l ks (cl @ c # cr)) i = Inr c"
  by (auto simp: kid_def)

lemma interleave_join:
  assumes "length cl = length kl + 1"
  shows "interleave (cl @ cr) (kl @ m # kr) = interleave cl kl @ m # interleave cr kr"
  using assms
proof (induction cl kl rule: interleave.induct)
  case (2 c cs)
  then show ?case by simp
qed auto

text \<open>Two sibling subtrees and the key between them, as one node and as two.\<close>

lemma inorder_join:
  assumes "length cl = length kl + 1 \<or> cl = [] \<and> cr = []"
  shows "inorder (BTN s l (kl @ m # kr) (cl @ cr)) =
     inorder (BTN s1 l1 kl cl) @ m # inorder (BTN s2 l2 kr cr)"
  using assms interleave_join [of "map inorder cl" kl "map inorder cr" m kr] by auto

subsection \<open>Insertion keeps the invariant\<close>

lemma split_correct:
  assumes "shape t h y" "scion_ok y" "nkeys y = GETN t" "2 \<le> t"
  shows "inorder y = inorder (split_lower t y) @ bkeys y ! (t - 1) # inorder (split_upper t y)"
    and "shape t h (split_lower t y)" "shape t h (split_upper t y)"
    and "nkeys (split_lower t y) = t - 1" "nkeys (split_upper t y) = t - 1"
    and "scion_ok (split_lower t y)" "scion_ok (split_upper t y)"
proof -
  obtain s l ks cs where y: "y = BTN s l ks cs" by (cases y)
  define ca cb where "ca = take t cs" and "cb = drop t cs"
  define ka m kb where "ka = take (t - 1) ks" and "m = ks ! (t - 1)" and "kb = drop t ks"
  have len: "length ks = 2 * t - 1" using assms(3) by (simp add: y GETN_def)
  have ks: "ks = ka @ m # kb" "length ka = t - 1" "length kb = t - 1"
    using id_take_nth_drop [of "t - 1" ks] len assms(4) by (simp_all add: ka_def kb_def m_def)
  have kids: "(l \<and> ca = [] \<and> cb = [] \<or> \<not> l \<and> length ca = t \<and> length cb = t)" "cs = ca @ cb"
    using assms(1) len assms(4) by (cases h; auto simp: y ca_def cb_def)+
  have up: "split_upper t y = BTN (of_nat (t - 1) + sum_scion cb) l kb cb"
    using ks(3) kids by (auto simp: split_upper_def y Let_def kb_def)
  have lo: "split_lower t y = BTN (s - of_nat (t - 1) - sum_scion cb - 1) l ka ca"
    using kids by (auto simp: split_lower_def y Let_def sum_scion_def ka_def)
  have m: "bkeys y ! (t - 1) = m" by (simp add: y m_def)
  have "length ca = length ka + 1 \<or> ca = [] \<and> cb = []" using ks kids assms(4) by auto
  from inorder_join [OF this, of s l m kb "s - of_nat (t - 1) - sum_scion cb - 1" l
      "of_nat (t - 1) + sum_scion cb" l]
  show io: "inorder y = inorder (split_lower t y) @ bkeys y ! (t - 1) # inorder (split_upper t y)"
    unfolding m lo up by (simp only: y ks(1) kids(2))
  have sh: "shape t h (BTN s l ks (ca @ cb))" using assms(1) by (simp only: y kids(2))
  show "shape t h (split_lower t y)"
    using sh assms(4) kids(1) ks(2) unfolding lo by (cases h) auto
  show "shape t h (split_upper t y)"
    using sh assms(4) kids(1) ks(3) unfolding up by (cases h) auto
  show "nkeys (split_lower t y) = t - 1" "nkeys (split_upper t y) = t - 1"
    using ks by (simp_all add: lo up)
  have sc: "scion_ok c" if "c \<in> set ca \<or> c \<in> set cb" for c
    using assms(2) that by (auto simp: y kids(2))
  have "sum_scion cb = of_nat (sum_list (map (length \<circ> inorder) cb))"
    by (rule sum_scion_ok) (simp add: sc)
  then have "scion (split_upper t y) = of_nat (length (inorder (split_upper t y)))"
    unfolding length_inorder up by (simp add: ks(3))
  then show up_ok: "scion_ok (split_upper t y)"
    by (rule scion_okI) (simp add: up sc)
  have "scion y = of_nat (length (inorder (split_lower t y))) + 1 + scion (split_upper t y)"
    using scion_ok_scion [OF assms(2)] scion_ok_scion [OF up_ok] by (simp add: io)
  moreover have "scion (split_lower t y) = scion y - scion (split_upper t y) - 1"
    unfolding lo up by (simp add: y)
  ultimately have "scion (split_lower t y) = of_nat (length (inorder (split_lower t y)))" by simp
  then show "scion_ok (split_lower t y)" by (rule scion_okI) (simp add: lo sc)
qed

text \<open>Insertion into an ordered list, what an insertion does to the keys of a tree.\<close>

definition ins_by :: "('k \<Rightarrow> 'o::linorder) \<Rightarrow> 'k \<Rightarrow> 'k list \<Rightarrow> 'k list" where
  "ins_by ord k xs = takeWhile (\<lambda>e. ord e < ord k) xs @ k # dropWhile (\<lambda>e. ord e < ord k) xs"

lemma ins_by_mid:
  assumes "\<forall>e \<in> set us. ord e < ord k" and "\<forall>e \<in> set vs. ord k < ord e"
  shows "ins_by ord k (us @ ms @ vs) = us @ ins_by ord k ms @ vs"
proof -
  have tw: "takeWhile (\<lambda>e. ord e < ord k) (ms @ vs) = takeWhile (\<lambda>e. ord e < ord k) ms"
    "dropWhile (\<lambda>e. ord e < ord k) (ms @ vs) = dropWhile (\<lambda>e. ord e < ord k) ms @ vs"
    using assms(2) by (induction ms)
      (auto simp: neq_Nil_conv takeWhile_eq_Nil_iff dropWhile_eq_self_iff dest: order_less_asym)
  show ?thesis using assms(1) tw by (simp add: ins_by_def)
qed

lemma ins_by_here:
  assumes "\<forall>e \<in> set us. ord e < ord k" and "\<forall>e \<in> set vs. ord k < ord e"
  shows "ins_by ord k (us @ vs) = us @ k # vs"
  using ins_by_mid [OF assms, of "[]"] by (simp add: ins_by_def)

lemma takeWhile_dropWhile_un: "set (takeWhile P xs) \<union> set (dropWhile P xs) = set xs"
  by (metis set_append takeWhile_dropWhile_id)

lemma takeWhile_dropWhile_len: "length (takeWhile P xs) + length (dropWhile P xs) = length xs"
  by (metis length_append takeWhile_dropWhile_id)

lemma set_ins_by [simp]: "set (ins_by ord k xs) = insert k (set xs)"
  using takeWhile_dropWhile_un [of "\<lambda>e. ord e < ord k" xs] by (auto simp: ins_by_def)

lemma length_ins_by [simp]: "length (ins_by ord k xs) = Suc (length xs)"
  using takeWhile_dropWhile_len [of "\<lambda>e. ord e < ord k" xs] by (simp add: ins_by_def)

lemma sorted_split_at:
  assumes "sorted_by ord xs"
  obtains us vs where "xs = us @ vs" "\<And>e. e \<in> set us \<Longrightarrow> ord e < ord k" "\<And>e. e \<in> set vs \<Longrightarrow> ord k \<le> ord e"
proof -
  have "\<exists>us vs. xs = us @ vs \<and> (\<forall>e \<in> set us. ord e < ord k) \<and> (\<forall>e \<in> set vs. ord k \<le> ord e)"
    using assms
  proof (induction xs)
    case (Cons x xs)
    then obtain us vs where IH: "xs = us @ vs" "\<forall>e \<in> set us. ord e < ord k" "\<forall>e \<in> set vs. ord k \<le> ord e"
      by auto
    show ?case
    proof (cases "ord x < ord k")
      case True
      with IH show ?thesis by (intro exI [of _ "x # us"] exI [of _ vs]) simp
    next
      case False
      with Cons.prems have "\<forall>e \<in> set (x # xs). ord k \<le> ord e" by force
      then show ?thesis by (intro exI [of _ "[]"] exI [of _ "x # xs"]) simp
    qed
  qed simp
  with that show ?thesis by blast
qed

lemma sorted_ins_by:
  assumes "sorted_by ord xs" and "\<forall>e \<in> set xs. ord e \<noteq> ord k"
  shows "sorted_by ord (ins_by ord k xs)"
proof -
  obtain us vs where x: "xs = us @ vs" "\<And>e. e \<in> set us \<Longrightarrow> ord e < ord k"
      "\<And>e. e \<in> set vs \<Longrightarrow> ord k \<le> ord e"
    using sorted_split_at [OF assms(1)] by blast
  then have "ord k < ord e" if "e \<in> set vs" for e
    using assms(2) that by (metis Un_iff order_le_imp_less_or_eq set_append)
  with x assms(1) show ?thesis by (simp add: ins_by_here)
qed


lemma il_pre_le_last:
  assumes "length cs = length ks" "ks \<noteq> []" "sorted_by ord (il_pre cs ks)" "e \<in> set (il_pre cs ks)"
  shows "ord e \<le> ord (last ks)"
proof -
  obtain ks' k cs' c where "ks = ks' @ [k]" "cs = cs' @ [c]"
    using assms(1,2) by (metis append_butlast_last_id length_0_conv)
  with assms show ?thesis by auto
qed

lemma il_post_ge_hd:
  assumes "length ks = length cs" "sorted_by ord (il_post ks cs)" "e \<in> set (il_post ks cs)"
  shows "ord (hd ks) \<le> ord e"
  using assms by (cases ks; cases cs) (auto intro: less_imp_le)

lemma key_pos_split:
  assumes "key_pos ord (kl @ kr) k = length kl"
  shows "e \<in> set kl \<Longrightarrow> ord e \<le> ord k" and "kr \<noteq> [] \<Longrightarrow> ord k < ord (hd kr)"
proof -
  have tw: "takeWhile (\<lambda>e. ord e \<le> ord k) (kl @ kr) = kl"
    using assms takeWhile_eq_take [of "\<lambda>e. ord e \<le> ord k" "kl @ kr"] by (simp add: key_pos_def)
  show le: "ord e \<le> ord k" if "e \<in> set kl" for e
    using set_takeWhileD [of e "\<lambda>e. ord e \<le> ord k" "kl @ kr"] that unfolding tw by simp
  have "takeWhile (\<lambda>e. ord e \<le> ord k) kr = []"
    using tw le by (simp add: takeWhile_append2)
  then show "ord k < ord (hd kr)" if "kr \<noteq> []"
    using that by (cases kr) (auto split: if_splits)
qed

text \<open>Around the search position of a key: what lies left is not greater, what lies right is greater.\<close>

lemma search_view:
  assumes "length (bkids x) = nkeys x + 1" and "sorted_by ord (inorder x)"
  obtains kl kr cl c cr where "x = BTN (scion x) (leaf x) (kl @ kr) (cl @ c # cr)"
    "key_pos ord (bkeys x) k = length kl" "length cl = length kl" "length kr = length cr"
    "\<And>e. e \<in> set (il_pre (map inorder cl) kl) \<Longrightarrow> ord e \<le> ord k"
    "\<And>e. e \<in> set (il_pre (map inorder cl) kl) \<Longrightarrow> kl \<noteq> [] \<and> ord e \<le> ord (last kl)"
    "\<And>e. e \<in> set (il_post kr (map inorder cr)) \<Longrightarrow> ord k < ord e"
proof -
  have "key_pos ord (bkeys x) k \<le> nkeys x" by (simp add: nkeys_def key_pos_le)
  then obtain kl kr cl c cr where x: "x = BTN (scion x) (leaf x) (kl @ kr) (cl @ c # cr)"
    "length kl = key_pos ord (bkeys x) k" "length cl = length kl" "length kr = length cr"
    using node_view [OF assms(1)] by metis
  have io: "inorder x = il_pre (map inorder cl) kl @ inorder c @ il_post kr (map inorder cr)"
    using inorder_view [OF x(3,4)] x(1) by metis
  have pos: "key_pos ord (kl @ kr) k = length kl" using x(1,2) by (metis btn.sel(3))
  have pre: "kl \<noteq> [] \<and> ord e \<le> ord (last kl) \<and> ord (last kl) \<le> ord k"
    if "e \<in> set (il_pre (map inorder cl) kl)" for e
  proof -
    have "kl \<noteq> []" using that x(3) by auto
    moreover have "ord e \<le> ord (last kl)"
      using assms(2) that x(3) \<open>kl \<noteq> []\<close> by (intro il_pre_le_last) (auto simp: io)
    ultimately show ?thesis using key_pos_split(1) [OF pos] by simp
  qed
  have post: "ord k < ord e" if "e \<in> set (il_post kr (map inorder cr))" for e
  proof -
    have "kr \<noteq> []" using that by auto
    moreover have "ord (hd kr) \<le> ord e"
      using assms(2) that x(4) by (intro il_post_ge_hd) (auto simp: io)
    ultimately show ?thesis using key_pos_split(2) [OF pos] by force
  qed
  show ?thesis
    by (rule that [OF x(1) x(2) [symmetric] x(3,4)]) (use pre post in \<open>force+\<close>)
qed


text \<open>A child that took the key, put back into its node.\<close>

lemma insert_step:
  assumes len: "length cl = length kl" "length kr = length cr"
    and x: "shape t (Suc h) (BTN s l (kl @ kr) (cl @ c # cr))" "scion_ok (BTN s l (kl @ kr) (cl @ c # cr))"
    and c': "shape t h c'" "scion_ok c'" "nkeys c \<le> nkeys c'" "nkeys c' \<le> GETN t"
      "inorder c' = ins_by ord k (inorder c)"
    and lt: "\<And>e. e \<in> set (il_pre (map inorder cl) kl) \<Longrightarrow> ord e < ord k"
      "\<And>e. e \<in> set (il_post kr (map inorder cr)) \<Longrightarrow> ord k < ord e"
  defines "x' \<equiv> BTN (s + 1) l (kl @ kr) (cl @ c' # cr)"
  shows "shape t (Suc h) x'" "scion_ok x'"
    "inorder x' = ins_by ord k (inorder (BTN s l (kl @ kr) (cl @ c # cr)))"
proof -
  show "shape t (Suc h) x'" using x(1) c' by (auto simp: x'_def)
  show io: "inorder x' = ins_by ord k (inorder (BTN s l (kl @ kr) (cl @ c # cr)))"
    using ins_by_mid [of "il_pre (map inorder cl) kl" ord k "il_post kr (map inorder cr)" "inorder c"] lt
    unfolding x'_def inorder_view [OF len] c'(5) by simp
  have "scion x' = of_nat (length (inorder x'))"
    unfolding io using scion_ok_scion [OF x(2)] by (simp add: x'_def del: inorder.simps)
  then show "scion_ok x'" by (rule scion_okI) (use x(2) c'(2) in \<open>auto simp: x'_def\<close>)
qed

lemma splitchild_view:
  assumes "length cl = length kl"
  shows "btreesplitchild t (BTN s l (kl @ kr) (cl @ y # cr)) (length kl) y =
     BTN s l (kl @ (bkeys y ! (t - 1)) # kr) (cl @ split_lower t y # split_upper t y # cr)"
  using assms by (simp add: btreesplitchild_def)

lemma splitchild_ok:
  assumes len: "length cl = length kl" "length kr = length cr" and t: "2 \<le> t"
    and x: "shape t (Suc h) (BTN s l (kl @ kr) (cl @ y # cr))" "scion_ok (BTN s l (kl @ kr) (cl @ y # cr))"
    and full: "nkeys y = GETN t"
  defines "x1 \<equiv> BTN s l (kl @ (bkeys y ! (t - 1)) # kr) (cl @ split_lower t y # split_upper t y # cr)"
  shows "shape t (Suc h) x1" "scion_ok x1" "inorder x1 = inorder (BTN s l (kl @ kr) (cl @ y # cr))"
proof -
  have y: "shape t h y" "scion_ok y" using x by auto
  note sp = split_correct [OF y full t]
  have g: "t - 1 \<le> GETN t" by (simp add: GETN_def)
  show "shape t (Suc h) x1" using x(1) sp g by (auto simp: x1_def)
  have "inorder x1 = il_pre (map inorder cl) kl @ inorder (split_lower t y) @
      il_post (bkeys y ! (t - 1) # kr) (map inorder (split_upper t y # cr))"
    unfolding x1_def by (rule inorder_view) (simp_all add: len)
  also have "\<dots> = inorder (BTN s l (kl @ kr) (cl @ y # cr))"
    unfolding inorder_view [OF len] sp(1) by simp
  finally show io: "inorder x1 = inorder (BTN s l (kl @ kr) (cl @ y # cr))" .
  have "scion x1 = of_nat (length (inorder x1))"
    unfolding io using scion_ok_scion [OF x(2)] by (simp add: x1_def del: inorder.simps)
  then show "scion_ok x1" by (rule scion_okI) (use x(2) sp in \<open>auto simp: x1_def\<close>)
qed

lemma takeWhile_key_pos:
  "takeWhile (\<lambda>e. ord e \<le> ord k) ks = take (key_pos ord ks k) ks"
  "dropWhile (\<lambda>e. ord e \<le> ord k) ks = drop (key_pos ord ks k) ks"
  using takeWhile_eq_take [of "\<lambda>e. ord e \<le> ord k" ks] dropWhile_eq_drop [of "\<lambda>e. ord e \<le> ord k" ks]
  by (simp_all add: key_pos_def)

lemma ins_by_pos:
  assumes "\<forall>e \<in> set ks. ord e \<noteq> ord k"
  shows "ins_by ord k ks = take (key_pos ord ks k) ks @ k # drop (key_pos ord ks k) ks"
proof -
  have "takeWhile (\<lambda>e. ord e < ord k) ks = takeWhile (\<lambda>e. ord e \<le> ord k) ks"
    "dropWhile (\<lambda>e. ord e < ord k) ks = dropWhile (\<lambda>e. ord e \<le> ord k) ks"
    using assms by (auto intro!: takeWhile_cong dropWhile_cong simp: less_le)
  then show ?thesis by (simp add: ins_by_def takeWhile_key_pos)
qed

context bt_order
begin

lemma insertnonfull_ok:
  assumes w: "nbits = 2 ^ Suc m'" and t: "2 \<le> t" and b: "GETN t \<le> 2 ^ nbits"
    and "shape t h x" "scion_ok x" "nkeys x < GETN t" "sorted_by ord (inorder x)"
    and "\<forall>e \<in> set (inorder x). ord e \<noteq> ord k"
  shows "\<exists>x' a. bt_insertnonfull cmp nbits t x k = Inr (x', a) \<and> shape t h x' \<and> scion_ok x' \<and>
     nkeys x \<le> nkeys x' \<and> nkeys x' \<le> nkeys x + 1 \<and> inorder x' = ins_by ord k (inorder x)"
  using assms(4-8)
proof (induction h arbitrary: x)
  case 0
  then obtain s ks where x: "x = BTN s True ks []" by (cases x) auto
  have fk: "fst (findkindex cmp nbits ks k) = int (key_pos ord ks k) - 1"
    using 0 b x by (intro findkindex_pos(1) [OF _ w]) auto
  have "bt_insertnonfull cmp nbits t x k = Inr (BTN (s + 1) True (ins_by ord k ks) [], 0)"
    using 0(5) by (subst bt_insertnonfull.simps) (simp add: x fk Let_def ins_by_pos)
  with 0(2) show ?case by (auto simp: x)
next
  case (Suc h)
  have len: "length (bkids x) = nkeys x + 1" using Suc.prems(1) by simp
  have sk: "sorted_by ord (bkeys x)"
    using Suc.prems(4) by (cases x) (auto dest: sorted_interleave_keys)
  obtain kl kr cl c cr where v: "x = BTN (scion x) (leaf x) (kl @ kr) (cl @ c # cr)"
    "key_pos ord (bkeys x) k = length kl" "length cl = length kl" "length kr = length cr"
    "\<And>e. e \<in> set (il_pre (map inorder cl) kl) \<Longrightarrow> ord e \<le> ord k"
    "\<And>e. e \<in> set (il_post kr (map inorder cr)) \<Longrightarrow> ord k < ord e"
    using search_view [OF len Suc.prems(4), of k] by metis
  define s where "s = scion x"
  have x: "x = BTN s False (kl @ kr) (cl @ c # cr)" using v(1) Suc.prems(1) by (simp add: s_def)
  have fk: "nat (fst (findkindex cmp nbits (kl @ kr) k) + 1) = length kl"
    using findkindex_pos(1) [OF sk w, of k] v(2) Suc.prems(3) b by (simp add: x)
  have io: "inorder x = il_pre (map inorder cl) kl @ inorder c @ il_post kr (map inorder cr)"
    unfolding x by (rule inorder_view [OF v(3,4)])
  have lt: "ord e < ord k" if "e \<in> set (il_pre (map inorder cl) kl)" for e
    using v(5) [OF that] Suc.prems(5) that by (auto simp: io order_le_less)
  have c: "shape t h c" "scion_ok c" "t - 1 \<le> nkeys c" "nkeys c \<le> GETN t"
    using Suc.prems(1,2) by (auto simp: x)
  have sc: "sorted_by ord (inorder c)" "\<forall>e \<in> set (inorder c). ord e \<noteq> ord k"
    using Suc.prems(4,5) by (auto simp: io)
  show ?case
  proof (cases "nkeys c = GETN t")
    case False
    with c have "nkeys c < GETN t" by simp
    then obtain c' a where r: "bt_insertnonfull cmp nbits t c k = Inr (c', a)" "shape t h c'"
      "scion_ok c'" "nkeys c \<le> nkeys c'" "nkeys c' \<le> nkeys c + 1" "inorder c' = ins_by ord k (inorder c)"
      using Suc.IH [OF c(1,2) _ sc] by blast
    have "bt_insertnonfull cmp nbits t x k = Inr (BTN (s + 1) False (kl @ kr) (cl @ c' # cr), a)"
      using False by (subst bt_insertnonfull.simps) (simp add: x fk Let_def v(3) r(1))
    moreover have "nkeys c' \<le> GETN t" using r(5) \<open>nkeys c < GETN t\<close> by simp
    note st = insert_step [OF v(3,4) Suc.prems(1,2) [unfolded x] r(2,3,4) this r(6) lt v(6)]
    ultimately show ?thesis using st by (simp add: x del: inorder.simps shape.simps scion_ok.simps)
  next
    case True
    define md where "md = bkeys c ! (t - 1)"
    let ?lo = "split_lower t c" and ?up = "split_upper t c"
    note sp = split_correct [OF c(1,2) True t]
    note x1 = splitchild_ok [OF v(3,4) t Suc.prems(1,2) [unfolded x] True]
    have half: "t - 1 < GETN t" using t by (simp add: GETN_def)
    have md: "md \<in> set (inorder c)" "inorder c = inorder ?lo @ md # inorder ?up"
      unfolding sp(1) md_def by simp_all
    show ?thesis
    proof (cases "cmp k md > 0")
      case gt: True
      then have "ord md < ord k" by (simp add: cmp_pos)
      then have lt2: "ord e < ord k" if "e \<in> set (il_pre (map inorder (cl @ [?lo])) (kl @ [md]))" for e
        using that lt sc(1) v(3) by (auto simp: md(2))
      obtain c' a where r: "bt_insertnonfull cmp nbits t ?up k = Inr (c', a)" "shape t h c'"
        "scion_ok c'" "nkeys ?up \<le> nkeys c'" "nkeys c' \<le> nkeys ?up + 1"
        "inorder c' = ins_by ord k (inorder ?up)"
        using Suc.IH [OF sp(3,7)] sc sp(5) half by (auto simp: md(2))
      have "bt_insertnonfull cmp nbits t x k =
          Inr (BTN (s + 1) False (kl @ md # kr) (cl @ ?lo # c' # cr), a + 1)"
        using True gt by (subst bt_insertnonfull.simps)
          (simp add: x fk Let_def v(3) r(1) splitchild_view md_def kid_def nth_append list_update_append)
      moreover have "nkeys c' \<le> GETN t" using r(5) sp(5) half by simp
      note st = insert_step [of "cl @ [?lo]" "kl @ [md]" kr cr t h s False ?up c' ord k,
          OF _ _ _ _ r(2,3,4) this r(6) lt2 v(6)]
      ultimately show ?thesis
        using st v(3,4) x1 by (simp add: x md_def del: inorder.simps shape.simps scion_ok.simps)
    next
      case le: False
      then have "ord k < ord md"
        using sc(2) md(1) by (metis cmp_pos linorder_neqE)
      then have gt2: "ord k < ord e" if "e \<in> set (il_post (md # kr) (map inorder (?up # cr)))" for e
        using that v(6) sc(1) by (auto simp: md(2))
      obtain c' a where r: "bt_insertnonfull cmp nbits t ?lo k = Inr (c', a)" "shape t h c'"
        "scion_ok c'" "nkeys ?lo \<le> nkeys c'" "nkeys c' \<le> nkeys ?lo + 1"
        "inorder c' = ins_by ord k (inorder ?lo)"
        using Suc.IH [OF sp(2,6)] sc sp(4) half by (auto simp: md(2))
      have "bt_insertnonfull cmp nbits t x k =
          Inr (BTN (s + 1) False (kl @ md # kr) (cl @ c' # ?up # cr), a + 1)"
        using True le by (subst bt_insertnonfull.simps)
          (simp add: x fk Let_def v(3) r(1) splitchild_view md_def)
      moreover have "nkeys c' \<le> GETN t" using r(5) sp(4) half by simp
      note st = insert_step [of cl kl "md # kr" "?up # cr" t h s False ?lo c' ord k,
          OF v(3) _ _ _ r(2,3,4) this r(6) lt gt2]
      ultimately show ?thesis
        using st v(3,4) x1 by (simp add: x md_def del: inorder.simps shape.simps scion_ok.simps)
    qed
  qed
qed

text \<open>The tree-level invariant: \<open>m'\<close> is the binary logarithm of half the search width.\<close>

lemma bt_insert_ok:
  assumes "bt_nbits b = 2 ^ Suc m'" "2 \<le> bt_t b" "GETN (bt_t b) \<le> 2 ^ bt_nbits b"
    and "shape (bt_t b) h (bt_root b)" "scion_ok (bt_root b)" "nkeys (bt_root b) \<le> GETN (bt_t b)"
    and "sorted_by ord (inorder (bt_root b))" "leaf (bt_root b) \<or> 0 < nkeys (bt_root b)"
    and "\<forall>e \<in> set (inorder (bt_root b)). ord e \<noteq> ord k"
  shows "\<exists>b' h'. bt_insert cmp b k = Inr b' \<and> shape (bt_t b) h' (bt_root b') \<and>
     scion_ok (bt_root b') \<and> nkeys (bt_root b') \<le> GETN (bt_t b) \<and>
     inorder (bt_root b') = ins_by ord k (inorder (bt_root b)) \<and>
     bt_numkeys b' = bt_numkeys b + 1 \<and> bt_t b' = bt_t b \<and> bt_nbits b' = bt_nbits b \<and>
     (leaf (bt_root b') \<or> 0 < nkeys (bt_root b'))"
proof (cases "nkeys (bt_root b) = GETN (bt_t b)")
  case False
  then have "nkeys (bt_root b) < GETN (bt_t b)" using assms(6) by simp
  from insertnonfull_ok [OF assms(1-5) this assms(7,9)] obtain x' a where
    "bt_insertnonfull cmp (bt_nbits b) (bt_t b) (bt_root b) k = Inr (x', a)"
    "shape (bt_t b) h x'" "scion_ok x'" "nkeys (bt_root b) \<le> nkeys x'" "nkeys x' \<le> nkeys (bt_root b) + 1"
    "inorder x' = ins_by ord k (inorder (bt_root b))" by blast
  with False assms(4,6,8) show ?thesis
    by (intro exI [of _ "b\<lparr>bt_root := x', bt_numkeys := bt_numkeys b + 1,
        bt_numnodes := bt_numnodes b + a\<rparr>"] exI [of _ h])
      (cases h, auto simp: bt_insert_def Let_def)
next
  case True
  let ?r = "bt_root b" and ?t = "bt_t b"
  define r0 where "r0 = BTN (scion ?r) False [] [?r]"
  define r1 where "r1 = BTN (scion ?r) False [bkeys ?r ! (?t - 1)] [split_lower ?t ?r, split_upper ?t ?r]"
  have "shape ?t (Suc h) r0" "scion_ok r0"
    using assms(2,4,5) True scion_ok_scion [OF assms(5)] by (auto simp: r0_def GETN_def)
  moreover have "inorder r0 = inorder ?r" by (simp add: r0_def)
  ultimately have r1: "shape ?t (Suc h) r1" "scion_ok r1" "inorder r1 = inorder ?r"
    using splitchild_ok [of "[]" "[]" "[]" "[]" ?t h "scion ?r" False ?r, OF _ _ assms(2)] True
    unfolding r0_def r1_def append_Nil by auto
  have nk: "nkeys r1 = 1" "1 < GETN ?t" using assms(2) by (simp_all add: r1_def GETN_def)
  then have "nkeys r1 < GETN ?t" by simp
  from insertnonfull_ok [OF assms(1-3) r1(1,2) this, unfolded r1(3), OF assms(7,9)] obtain x' a where
    "bt_insertnonfull cmp (bt_nbits b) ?t r1 k = Inr (x', a)"
    "shape ?t (Suc h) x'" "scion_ok x'" "nkeys r1 \<le> nkeys x'" "nkeys x' \<le> nkeys r1 + 1"
    "inorder x' = ins_by ord k (inorder ?r)" by blast
  moreover have "btreesplitchild ?t r0 0 ?r = r1"
    by (simp add: btreesplitchild_def r0_def r1_def)
  ultimately show ?thesis using True nk
    by (intro exI [of _ "b\<lparr>bt_root := x', bt_numkeys := bt_numkeys b + 1,
        bt_numnodes := bt_numnodes b + 3 + a\<rparr>"] exI [of _ "Suc h"])
      (simp add: bt_insert_def Let_def r0_def)
qed

end

subsection \<open>Well-formed trees\<close>

text \<open>
  The invariant of a tree made by \<^verbatim>\<open>bt_create\<close>: one of its two geometries, all leaves at one depth, the
  key bounds, the \<^verbatim>\<open>scion\<close> and \<^verbatim>\<open>numkeys\<close> counters exact, the keys strictly increasing.
\<close>

definition bt_geometry :: "'k bt \<Rightarrow> bool" where
  "bt_geometry b \<longleftrightarrow> bt_t b = 4 \<and> bt_nbits b = 4 \<or> bt_t b = 128 \<and> bt_nbits b = 16"

definition bt_wf :: "('k \<Rightarrow> 'o::linorder) \<Rightarrow> 'k bt \<Rightarrow> bool" where
  "bt_wf ord b \<longleftrightarrow> bt_geometry b \<and>
     shape (bt_t b) (bheight (bt_root b) - 1) (bt_root b) \<and> scion_ok (bt_root b) \<and>
     nkeys (bt_root b) \<le> GETN (bt_t b) \<and> (leaf (bt_root b) \<or> 0 < nkeys (bt_root b)) \<and>
     sorted_by ord (inorder (bt_root b)) \<and> length (inorder (bt_root b)) < 2 ^ 32 \<and>
     bt_numkeys b = of_nat (length (inorder (bt_root b)))"

lemma foldr_max_same:
  assumes "xs \<noteq> []" and eq: "\<And>x. x \<in> set xs \<Longrightarrow> x = n"
  shows "foldr max xs 0 = (n :: nat)"
proof (rule antisym)
  show "foldr max xs 0 \<le> n" by (rule foldr_max_le) (use eq in blast)
  have "hd xs \<in> set xs" using assms(1) by simp
  with foldr_max_ge [OF this] eq [OF this] show "n \<le> foldr max xs 0" by simp
qed

lemma shape_bheight: "shape t h x \<Longrightarrow> bheight x = Suc h"
proof (induction h arbitrary: x)
  case 0
  then show ?case by (cases x) simp
next
  case (Suc h)
  then have "foldr max (map bheight (bkids x)) 0 = Suc h"
    by (intro foldr_max_same) auto
  then show ?case by (cases x) simp
qed

lemma bt_geometry_dest:
  assumes "bt_geometry b"
  obtains m where "bt_nbits b = 2 ^ Suc m" "2 \<le> bt_t b" "GETN (bt_t b) \<le> 2 ^ bt_nbits b"
  using assms that [of 1] that [of 3] by (auto simp: bt_geometry_def GETN_def)

lemma bt_wf_dest:
  assumes "bt_wf ord b"
  obtains h m where "bt_nbits b = 2 ^ Suc m" "2 \<le> bt_t b" "GETN (bt_t b) \<le> 2 ^ bt_nbits b"
    "shape (bt_t b) h (bt_root b)" "scion_ok (bt_root b)" "nkeys (bt_root b) \<le> GETN (bt_t b)"
    "sorted_by ord (inorder (bt_root b))" "bheight (bt_root b) = Suc h"
    "leaf (bt_root b) \<or> 0 < nkeys (bt_root b)"
proof -
  obtain m where m: "bt_nbits b = 2 ^ Suc m" "2 \<le> bt_t b" "GETN (bt_t b) \<le> 2 ^ bt_nbits b"
    using bt_geometry_dest [of b] assms unfolding bt_wf_def by metis
  have "bheight (bt_root b) = Suc (bheight (bt_root b) - 1)" by simp
  with assms show ?thesis by (intro that [OF m]) (auto simp: bt_wf_def)
qed

lemma bt_wfI:
  assumes "bt_geometry b" "shape (bt_t b) h (bt_root b)" "scion_ok (bt_root b)"
    "nkeys (bt_root b) \<le> GETN (bt_t b)" "leaf (bt_root b) \<or> 0 < nkeys (bt_root b)"
    "sorted_by ord (inorder (bt_root b))" "length (inorder (bt_root b)) < 2 ^ 32"
    "bt_numkeys b = of_nat (length (inorder (bt_root b)))"
  shows "bt_wf ord b"
  using assms shape_bheight [OF assms(2)] by (simp add: bt_wf_def)

text \<open>A new tree is well formed and empty, in both geometries.\<close>

lemma bt_create_geometry: "bt_geometry (bt_create tr)"
  by (cases tr; simp add: bt_create_def bt_geometry_def Let_def real_log2_def real_log2_loop.simps
      or_Suc_0_eq)

lemma bt_create_wf:
  "bt_wf ord (bt_create tr :: 'k bt) \<and> inorder (bt_root (bt_create tr :: 'k bt)) = []"
  by (auto intro!: bt_wfI [where h = 0] bt_create_geometry)
    (simp_all add: bt_create_def Let_def)

context bt_order
begin

lemma bt_insert_wf:
  assumes "bt_wf ord b" "\<forall>e \<in> set (inorder (bt_root b)). ord e \<noteq> ord k"
    "Suc (length (inorder (bt_root b))) < 2 ^ 32"
  shows "\<exists>b'. bt_insert cmp b k = Inr b' \<and> bt_wf ord b' \<and>
     inorder (bt_root b') = ins_by ord k (inorder (bt_root b)) \<and>
     bt_t b' = bt_t b \<and> bt_nbits b' = bt_nbits b"
proof -
  obtain h m where d: "bt_nbits b = 2 ^ Suc m" "2 \<le> bt_t b" "GETN (bt_t b) \<le> 2 ^ bt_nbits b"
    "shape (bt_t b) h (bt_root b)" "scion_ok (bt_root b)" "nkeys (bt_root b) \<le> GETN (bt_t b)"
    "sorted_by ord (inorder (bt_root b))" "leaf (bt_root b) \<or> 0 < nkeys (bt_root b)"
    using bt_wf_dest [OF assms(1)] by metis
  obtain b' h' where b': "bt_insert cmp b k = Inr b'" "shape (bt_t b) h' (bt_root b')"
    "scion_ok (bt_root b')" "nkeys (bt_root b') \<le> GETN (bt_t b)"
    "inorder (bt_root b') = ins_by ord k (inorder (bt_root b))"
    "bt_numkeys b' = bt_numkeys b + 1" "bt_t b' = bt_t b" "bt_nbits b' = bt_nbits b"
    "leaf (bt_root b') \<or> 0 < nkeys (bt_root b')"
    using bt_insert_ok [OF d assms(2)] by blast
  have "bt_wf ord b'"
  proof (rule bt_wfI)
    show "bt_geometry b'" using assms(1) b'(7,8) by (simp add: bt_wf_def bt_geometry_def)
    show "sorted_by ord (inorder (bt_root b'))"
      unfolding b'(5) by (rule sorted_ins_by [OF d(7) assms(2)])
    show "bt_numkeys b' = of_nat (length (inorder (bt_root b')))"
      using assms(1) b'(5,6) by (simp add: bt_wf_def)
  qed (use b' assms(3) in \<open>simp_all\<close>)
  with b' show ?thesis by blast
qed

end

end
