(* ===== verification/Alc_BTFind.thy ===== *)
theory Alc_BTFind
  imports Alc_BTree
begin

text \<open>
  The accessors of \<^verbatim>\<open>src/DB/bt_code.c\<close> on trees without evicted rows: lookup, existence, in-place
  replacement, smallest and largest key, and the copy of a tree key by key. On such a tree
  \<^verbatim>\<open>key_covers_miss\<close> is false (\<^verbatim>\<open>getDR\<close> is 0), so the branches it guards do not occur.
\<close>

subsection \<open>Lookup\<close>

function findnodekey :: "('k \<Rightarrow> 'k \<Rightarrow> int) \<Rightarrow> nat \<Rightarrow> 'k btn \<Rightarrow> 'k \<Rightarrow> 'k option c_res" where
  "findnodekey cmp nbits x k =
     (let (i, r) = findkindex cmp nbits (bkeys x) k in
      if 0 \<le> i \<and> r = Some 0 then c_bind (c_read (bkeys x) (nat i)) (\<lambda>e. Inr (Some e))
      else if leaf x then Inr None
      else c_bind (kid x (nat (i + 1))) (\<lambda>y. findnodekey cmp nbits y k))"
  by pat_completeness auto
termination
  by (relation "measure (\<lambda>(cmp, nbits, x, k). bheight x)") (auto dest: kid_bheight)

definition bt_find :: "('k \<Rightarrow> 'k \<Rightarrow> int) \<Rightarrow> 'k bt \<Rightarrow> 'k \<Rightarrow> 'k option c_res" where
  "bt_find cmp btr k = findnodekey cmp (bt_nbits btr) (bt_root btr) k"

function bt_exist_node :: "('k \<Rightarrow> 'k \<Rightarrow> int) \<Rightarrow> nat \<Rightarrow> 'k btn \<Rightarrow> 'k \<Rightarrow> bool c_res" where
  "bt_exist_node cmp nbits x k =
     (let (i, r) = findkindex cmp nbits (bkeys x) k in
      if 0 \<le> i \<and> r = Some 0 then Inr True
      else if leaf x then Inr False
      else c_bind (kid x (nat (i + 1))) (\<lambda>y. bt_exist_node cmp nbits y k))"
  by pat_completeness auto
termination
  by (relation "measure (\<lambda>(cmp, nbits, x, k). bheight x)") (auto dest: kid_bheight)

definition bt_exist :: "('k \<Rightarrow> 'k \<Rightarrow> int) \<Rightarrow> 'k bt \<Rightarrow> 'k \<Rightarrow> bool c_res" where
  "bt_exist cmp btr k = bt_exist_node cmp (bt_nbits btr) (bt_root btr) k"

text \<open>
  \<^verbatim>\<open>bt_find_loc\<close> returns the address of the slot; here the path of child indices and the slot index.
\<close>

function bt_find_loc_node :: "('k \<Rightarrow> 'k \<Rightarrow> int) \<Rightarrow> nat \<Rightarrow> 'k btn \<Rightarrow> 'k \<Rightarrow> (nat list \<times> nat) option c_res" where
  "bt_find_loc_node cmp nbits x k =
     (let (i, r) = findkindex cmp nbits (bkeys x) k in
      if 0 \<le> i \<and> r = Some 0 then Inr (Some ([], nat i))
      else if leaf x then Inr None
      else c_bind (kid x (nat (i + 1))) (\<lambda>y.
           c_bind (bt_find_loc_node cmp nbits y k) (\<lambda>loc.
             Inr (map_option (\<lambda>(p, s). (nat (i + 1) # p, s)) loc))))"
  by pat_completeness auto
termination
  by (relation "measure (\<lambda>(cmp, nbits, x, k). bheight x)") (auto dest: kid_bheight)

definition bt_find_loc :: "('k \<Rightarrow> 'k \<Rightarrow> int) \<Rightarrow> 'k bt \<Rightarrow> 'k \<Rightarrow> (nat list \<times> nat) option c_res" where
  "bt_find_loc cmp btr k = bt_find_loc_node cmp (bt_nbits btr) (bt_root btr) k"

subsection \<open>Replacement\<close>

text \<open>The changed node and the key that was stored, which is \<^verbatim>\<open>NULL\<close> when there is none.\<close>

function findnodekeyreplace ::
  "('k \<Rightarrow> 'k \<Rightarrow> int) \<Rightarrow> nat \<Rightarrow> 'k btn \<Rightarrow> 'k \<Rightarrow> 'k \<Rightarrow> ('k btn \<times> 'k option) c_res" where
  "findnodekeyreplace cmp nbits x k val =
     (let (i, r) = findkindex cmp nbits (bkeys x) k in
      if 0 \<le> i \<and> r = Some 0 then
        c_bind (c_read (bkeys x) (nat i)) (\<lambda>b.
          Inr (BTN (scion x) (leaf x) ((bkeys x)[nat i := val]) (bkids x), Some b))
      else if leaf x then Inr (x, None)
      else c_bind (kid x (nat (i + 1))) (\<lambda>y.
           c_bind (findnodekeyreplace cmp nbits y k val) (\<lambda>(y', b).
             Inr (BTN (scion x) (leaf x) (bkeys x) ((bkids x)[nat (i + 1) := y']), b))))"
  by pat_completeness auto
termination
  by (relation "measure (\<lambda>(cmp, nbits, x, k, val). bheight x)") (auto dest: kid_bheight)

definition bt_replace :: "('k \<Rightarrow> 'k \<Rightarrow> int) \<Rightarrow> 'k bt \<Rightarrow> 'k \<Rightarrow> 'k \<Rightarrow> ('k bt \<times> 'k option) c_res" where
  "bt_replace cmp btr k val =
     c_bind (findnodekeyreplace cmp (bt_nbits btr) (bt_root btr) k val) (\<lambda>(r, b).
       Inr (btr\<lparr>bt_root := r\<rparr>, b))"

subsection \<open>Smallest and largest key\<close>

function findminkey :: "'k btn \<Rightarrow> 'k c_res" where
  "findminkey x = (if leaf x then c_read (bkeys x) 0 else c_bind (kid x 0) findminkey)"
  by pat_completeness auto
termination
  by (relation "measure bheight") (auto dest: kid_bheight)

function findminnode :: "'k btn \<Rightarrow> 'k btn c_res" where
  "findminnode x = (if leaf x then Inr x else c_bind (kid x 0) findminnode)"
  by pat_completeness auto
termination
  by (relation "measure bheight") (auto dest: kid_bheight)

text \<open>\<^verbatim>\<open>KEYS(btr, x, x->n - 1)\<close> on an empty leaf reads before the first key.\<close>

function findmaxkey :: "'k btn \<Rightarrow> 'k c_res" where
  "findmaxkey x =
     (if leaf x then if nkeys x = 0 then Inl OOB_read else c_read (bkeys x) (nkeys x - 1)
      else c_bind (kid x (nkeys x)) findmaxkey)"
  by pat_completeness auto
termination
  by (relation "measure bheight") (auto dest: kid_bheight)

definition bt_min :: "'k bt \<Rightarrow> 'k option c_res" where
  "bt_min btr = (if bt_numkeys btr = 0 then Inr None
     else c_bind (findminkey (bt_root btr)) (\<lambda>e. Inr (Some e)))"

definition bt_max :: "'k bt \<Rightarrow> 'k option c_res" where
  "bt_max btr = (if bt_numkeys btr = 0 then Inr None
     else c_bind (findmaxkey (bt_root btr)) (\<lambda>e. Inr (Some e)))"

declare findnodekey.simps [simp del] bt_exist_node.simps [simp del] bt_find_loc_node.simps [simp del]
  findnodekeyreplace.simps [simp del] findminkey.simps [simp del] findminnode.simps [simp del]
  findmaxkey.simps [simp del]

subsection \<open>Copying a tree\<close>

text \<open>
  \<^verbatim>\<open>bt_to_bt_insert\<close>: a node's keys, then its children, each key by \<^verbatim>\<open>bt_insert\<close>.
\<close>

fun c_fold :: "('a \<Rightarrow> 'b \<Rightarrow> 'b c_res) \<Rightarrow> 'a list \<Rightarrow> 'b \<Rightarrow> 'b c_res" where
  "c_fold f [] s = Inr s"
| "c_fold f (x # xs) s = c_bind (f x s) (c_fold f xs)"

lemma c_fold_cong [fundef_cong]:
  "xs = ys \<Longrightarrow> s = s' \<Longrightarrow> (\<And>x s. x \<in> set ys \<Longrightarrow> f x s = g x s) \<Longrightarrow> c_fold f xs s = c_fold g ys s'"
proof (induction xs arbitrary: ys s s')
  case (Cons x xs)
  then show ?case by (auto intro!: c_bind_cong)
qed auto

function bt_to_bt_insert :: "('k \<Rightarrow> 'k \<Rightarrow> int) \<Rightarrow> 'k btn \<Rightarrow> 'k bt \<Rightarrow> 'k bt c_res" where
  "bt_to_bt_insert cmp x nbtr =
     c_bind (c_fold (\<lambda>k b. bt_insert cmp b k) (bkeys x) nbtr) (\<lambda>b.
       if leaf x then Inr b
       else if length (bkids x) \<le> nkeys x then Inl OOB_read
       else c_fold (bt_to_bt_insert cmp) (take (nkeys x + 1) (bkids x)) b)"
  by pat_completeness auto
termination
  by (relation "measure (\<lambda>(cmp, x, nbtr). bheight x)") (auto dest: in_set_takeD intro: bheight_kid)

declare bt_to_bt_insert.simps [simp del]

subsection \<open>Correctness of the accessors\<close>

lemma find_sorted:
  "sorted_by ord xs \<Longrightarrow> e \<in> set xs \<Longrightarrow> ord e = ord k \<Longrightarrow> List.find (\<lambda>e. ord e = ord k) xs = Some e"
  by (induction xs) auto

lemma find_append: "List.find P (xs @ ys) = (case List.find P xs of None \<Rightarrow> List.find P ys | Some e \<Rightarrow> Some e)"
  by (induction xs) auto

lemma find_none: "(\<And>e. e \<in> set xs \<Longrightarrow> \<not> P e) \<Longrightarrow> List.find P xs = None"
  by (simp add: find_None_iff)

lemma sorted_by_keys: "sorted_by ord (inorder x) \<Longrightarrow> sorted_by ord (bkeys x)"
  by (cases x) (auto dest: sorted_interleave_keys)

context bt_order
begin

lemma findkindex_found:
  assumes "sorted_by ord ks" "nbits = 2 ^ Suc m'" "length ks \<le> 2 ^ nbits"
  obtains r where "findkindex cmp nbits ks k = (int (key_pos ord ks k) - 1, r)"
    "r = Some 0 \<longleftrightarrow> 0 < key_pos ord ks k \<and> ord (ks ! (key_pos ord ks k - 1)) = ord k"
  using findkindex_pos [OF assms, of k] by (metis prod.collapse)

lemma leaf_search:
  fixes k
  assumes "sorted_by ord ks"
  defines "p \<equiv> key_pos ord ks k"
  shows "0 < p \<and> ord (ks ! (p - 1)) = ord k \<longleftrightarrow> (\<exists>e \<in> set ks. ord e = ord k)"
    and "0 < p \<Longrightarrow> p - 1 < length ks"
proof -
  have ks: "ks = take p ks @ drop p ks" by simp
  then have kp: "key_pos ord (take p ks @ drop p ks) k = length (take p ks)"
    using key_pos_le [of ord ks k] by (simp add: p_def)
  have gt: "ord k < ord e" if "e \<in> set (drop p ks)" for e
  proof -
    have "drop p ks \<noteq> []" using that by auto
    moreover from this have "ord (hd (drop p ks)) \<le> ord e"
      using assms(1) that ks by (cases "drop p ks") (auto simp: sorted_by_def sorted_wrt_drop
          dest!: sorted_wrt_drop [of _ ks p] intro: less_imp_le)
    ultimately show ?thesis using key_pos_split(2) [OF kp] by force
  qed
  show p: "0 < p \<Longrightarrow> p - 1 < length ks" using key_pos_le [of ord ks k] by (auto simp: p_def)
  have "ord (ks ! (p - 1)) = ord k" "0 < p" if "e \<in> set ks" "ord e = ord k" for e
  proof -
    have "e \<in> set (take p ks)" using that gt ks by (metis Un_iff less_irrefl set_append)
    then obtain j where j: "j < p" "j < length ks" "e = ks ! j" by (auto simp: in_set_conv_nth)
    then show "0 < p" by simp
    have "p - 1 < length ks" using p \<open>0 < p\<close> by blast
    moreover from this have "ks ! (p - 1) \<in> set (take p ks)"
      using \<open>0 < p\<close> by (auto simp: in_set_conv_nth intro!: exI [of _ "p - 1"])
    then have "ord (ks ! (p - 1)) \<le> ord k" by (rule key_pos_split(1) [OF kp])
    moreover have "j = p - 1 \<or> j < p - 1" using j(1) by linarith
    ultimately show "ord (ks ! (p - 1)) = ord k"
      using j(3) that(2) sorted_by_nth [OF assms(1), of j "p - 1"] by auto
  qed
  with p show "0 < p \<and> ord (ks ! (p - 1)) = ord k \<longleftrightarrow> (\<exists>e \<in> set ks. ord e = ord k)"
    by (metis nth_mem)
qed

text \<open>One step of a descent: the search in an inner node and what it says about the subtrees.\<close>

lemma descend_view:
  assumes w: "nbits = 2 ^ Suc m'" and x: "shape t (Suc h) x" "nkeys x \<le> 2 ^ nbits"
    and srt: "sorted_by ord (inorder x)"
  obtains s kl kr cl c cr r where "x = BTN s False (kl @ kr) (cl @ c # cr)"
    "length cl = length kl" "length kr = length cr"
    "findkindex cmp nbits (kl @ kr) k = (int (length kl) - 1, r)"
    "r = Some 0 \<longleftrightarrow> kl \<noteq> [] \<and> ord (last kl) = ord k"
    "\<And>e. r \<noteq> Some 0 \<Longrightarrow> e \<in> set (il_pre (map inorder cl) kl) \<Longrightarrow> ord e < ord k"
    "\<And>e. e \<in> set (il_post kr (map inorder cr)) \<Longrightarrow> ord k < ord e"
proof -
  have len: "length (bkids x) = nkeys x + 1" "\<not> leaf x" using x(1) by simp_all
  obtain kl kr cl c cr where v: "x = BTN (scion x) (leaf x) (kl @ kr) (cl @ c # cr)"
    "key_pos ord (bkeys x) k = length kl" "length cl = length kl" "length kr = length cr"
    "\<And>e. e \<in> set (il_pre (map inorder cl) kl) \<Longrightarrow> ord e \<le> ord k"
    "\<And>e. e \<in> set (il_pre (map inorder cl) kl) \<Longrightarrow> kl \<noteq> [] \<and> ord e \<le> ord (last kl)"
    "\<And>e. e \<in> set (il_post kr (map inorder cr)) \<Longrightarrow> ord k < ord e"
    using search_view [OF len(1) srt, of k] by metis
  have ks: "bkeys x = kl @ kr" using v(1) by (metis btn.sel(3))
  obtain r where r: "findkindex cmp nbits (kl @ kr) k = (int (length kl) - 1, r)"
    "r = Some 0 \<longleftrightarrow> 0 < length kl \<and> ord ((kl @ kr) ! (length kl - 1)) = ord k"
    using findkindex_found [OF sorted_by_keys [OF srt] w, of k] x(2) v(2) ks by (metis nkeys_def)
  have r0: "r = Some 0 \<longleftrightarrow> kl \<noteq> [] \<and> ord (last kl) = ord k"
    using r(2) by (cases "kl = []") (auto simp: nth_append last_conv_nth)
  have kp: "key_pos ord (kl @ kr) k = length kl" using v(2) ks by simp
  have "ord e < ord k" if "r \<noteq> Some 0" "e \<in> set (il_pre (map inorder cl) kl)" for e
    using v(6) [OF that(2)] key_pos_split(1) [OF kp, of "last kl"] that(1) r0
    by (metis last_in_set le_less_trans order_le_less)
  with v r(1) r0 len(2) show ?thesis by (intro that [of "scion x" kl kr cl c cr r]) auto
qed

lemma found_slot:
  assumes "kl \<noteq> []"
  obtains n where "int (length kl) - 1 = int n" "c_read (kl @ kr) n = Inr (last kl)"
    "\<And>v. (kl @ kr)[n := v] = butlast kl @ v # kr"
  using assms that by (cases kl rule: rev_cases) (auto simp: c_read_def)

text \<open>When the search stops in an inner node, the found key sits between two subtrees.\<close>

lemma found_view:
  assumes "length cl = length kl" "kl \<noteq> []"
  obtains kl' cl' d where "kl = kl' @ [last kl]" "cl = cl' @ [d]" "length cl' = length kl'"
    "il_pre (map inorder cl) kl = il_pre (map inorder cl') kl' @ inorder d @ [last kl]"
proof -
  obtain kl' cl' d where e: "kl = kl' @ [last kl]" "cl = cl' @ [d]"
    using assms by (metis append_butlast_last_id length_0_conv)
  then have "length cl' = length kl'" using assms(1) by (metis Suc_inject length_append_singleton)
  moreover from this have "il_pre (map inorder (cl' @ [d])) (kl' @ [last kl]) =
      il_pre (map inorder cl') kl' @ inorder d @ [last kl]" by simp
  ultimately show ?thesis using e that by metis
qed

end

context bt_order
begin

lemma findnodekey_ok:
  assumes w: "nbits = 2 ^ Suc m'" and b: "GETN t \<le> 2 ^ nbits"
    and "shape t h x" "nkeys x \<le> GETN t" "sorted_by ord (inorder x)"
  shows "findnodekey cmp nbits x k = Inr (List.find (\<lambda>e. ord e = ord k) (inorder x))"
  using assms(3-5)
proof (induction h arbitrary: x)
  case 0
  then obtain s ks where x: "x = BTN s True ks []" by (cases x) auto
  have ks: "sorted_by ord ks" "length ks \<le> 2 ^ nbits" using 0 b x by simp_all
  let ?p = "key_pos ord ks k"
  obtain r where r: "findkindex cmp nbits ks k = (int ?p - 1, r)"
    "r = Some 0 \<longleftrightarrow> 0 < ?p \<and> ord (ks ! (?p - 1)) = ord k"
    using findkindex_found [OF ks(1) w ks(2)] by blast
  note ls = leaf_search [OF ks(1), of k]
  show ?case
  proof (cases "r = Some 0")
    case True
    with r(2) ls(2) find_sorted [OF ks(1), of "ks ! (?p - 1)" k] show ?thesis
      by (subst findnodekey.simps) (simp add: x r(1) nat_diff_distrib)
  next
    case False
    with r(2) ls(1) have "List.find (\<lambda>e. ord e = ord k) ks = None" by (intro find_none) blast
    with False show ?thesis by (subst findnodekey.simps) (simp add: x r(1))
  qed
next
  case (Suc h)
  have nk: "nkeys x \<le> 2 ^ nbits" using Suc.prems(2) b by simp
  obtain s kl kr cl c cr r where v: "x = BTN s False (kl @ kr) (cl @ c # cr)"
    "length cl = length kl" "length kr = length cr"
    "findkindex cmp nbits (kl @ kr) k = (int (length kl) - 1, r)"
    "r = Some 0 \<longleftrightarrow> kl \<noteq> [] \<and> ord (last kl) = ord k"
    "\<And>e. r \<noteq> Some 0 \<Longrightarrow> e \<in> set (il_pre (map inorder cl) kl) \<Longrightarrow> ord e < ord k"
    "\<And>e. e \<in> set (il_post kr (map inorder cr)) \<Longrightarrow> ord k < ord e"
    using descend_view [OF w Suc.prems(1) nk Suc.prems(3), of k] by blast
  have io: "inorder x = il_pre (map inorder cl) kl @ inorder c @ il_post kr (map inorder cr)"
    unfolding v(1) by (rule inorder_view [OF v(2,3)])
  show ?case
  proof (cases "r = Some 0")
    case True
    with v(5) have kl: "kl \<noteq> []" "ord (last kl) = ord k" by auto
    have "last kl \<in> set (inorder x)"
      using found_view [OF v(2) kl(1)] unfolding io by (metis UnCI in_set_conv_decomp set_append)
    from find_sorted [OF Suc.prems(3) this kl(2)] have fnd:
      "List.find (\<lambda>e. ord e = ord k) (inorder x) = Some (last kl)" .
    obtain n where "int (length kl) - 1 = int n" "c_read (kl @ kr) n = Inr (last kl)"
      using found_slot [OF kl(1)] by metis
    then show ?thesis
      unfolding fnd by (subst findnodekey.simps) (simp add: v(1,4) True del: c_read_Inr)
  next
    case False
    have "shape t h c" "nkeys c \<le> GETN t" "sorted_by ord (inorder c)"
      using Suc.prems by (simp_all add: v(1), simp add: io [unfolded v(1), simplified])
    note IH = Suc.IH [OF this]
    have "List.find (\<lambda>e. ord e = ord k) (il_pre (map inorder cl) kl) = None"
      "List.find (\<lambda>e. ord e = ord k) (il_post kr (map inorder cr)) = None"
      by (rule find_none; use v(6,7) False in force)+
    then have "List.find (\<lambda>e. ord e = ord k) (inorder x) = List.find (\<lambda>e. ord e = ord k) (inorder c)"
      by (simp add: io find_append split: option.split)
    then show ?thesis
      using IH False by (subst findnodekey.simps) (simp add: v(1,2,4) del: inorder.simps)
  qed
qed

end

text \<open>The key in the slot that a path of child indices leads to.\<close>

primrec slot_read :: "nat list \<Rightarrow> nat \<Rightarrow> 'k btn \<Rightarrow> 'k c_res" where
  "slot_read [] j x = c_read (bkeys x) j"
| "slot_read (i # p) j x = c_bind (kid x i) (slot_read p j)"

lemma c_bind_assoc [simp]: "c_bind (c_bind r f) g = c_bind r (\<lambda>x. c_bind (f x) g)"
  by (cases r) simp_all

text \<open>The three lookups descend alike.\<close>

lemma findnodekey_loc:
  "findnodekey cmp nbits x k = c_bind (bt_find_loc_node cmp nbits x k) (\<lambda>loc.
     case loc of None \<Rightarrow> Inr None | Some (p, j) \<Rightarrow> c_bind (slot_read p j x) (\<lambda>e. Inr (Some e)))"
proof (induction cmp nbits x k rule: findnodekey.induct)
  case (1 cmp nbits x k)
  obtain i r where ir: "findkindex cmp nbits (bkeys x) k = (i, r)" by fastforce
  show ?case
  proof (cases "(0 \<le> i \<and> r = Some 0) \<or> leaf x")
    case True
    then show ?thesis
      by (subst findnodekey.simps, subst bt_find_loc_node.simps) (auto simp: ir)
  next
    case False
    show ?thesis
    proof (cases "kid x (nat (i + 1))")
      case (Inl e)
      then show ?thesis using False
        by (subst findnodekey.simps, subst bt_find_loc_node.simps) (auto simp: ir)
    next
      case (Inr y)
      have eq: "findnodekey cmp nbits x k = findnodekey cmp nbits y k"
        using False Inr by (subst findnodekey.simps) (auto simp: ir)
      have "bt_find_loc_node cmp nbits x k = c_bind (bt_find_loc_node cmp nbits y k) (\<lambda>loc.
          Inr (map_option (\<lambda>(p, s). (nat (i + 1) # p, s)) loc))"
        using False Inr by (subst bt_find_loc_node.simps) (auto simp: ir)
      then show ?thesis
        unfolding eq 1 [OF ir [symmetric] refl, of y] using False Inr "1" [of "(i, r)" i r y] ir
        by (auto intro!: c_bind_cong split: option.splits)
    qed
  qed
qed

lemma bt_exist_loc:
  "bt_exist_node cmp nbits x k = c_bind (bt_find_loc_node cmp nbits x k) (\<lambda>loc. Inr (loc \<noteq> None))"
proof (induction cmp nbits x k rule: bt_exist_node.induct)
  case (1 cmp nbits x k)
  obtain i r where ir: "findkindex cmp nbits (bkeys x) k = (i, r)" by fastforce
  show ?case
    using 1 [of "(i, r)" i r] ir
    by (subst bt_exist_node.simps, subst bt_find_loc_node.simps)
      (auto intro!: c_bind_cong)
qed

definition upd_by :: "('k \<Rightarrow> 'o::linorder) \<Rightarrow> 'k \<Rightarrow> 'k \<Rightarrow> 'k list \<Rightarrow> 'k list" where
  "upd_by ord k v xs = map (\<lambda>e. if ord e = ord k then v else e) xs"

lemma upd_by_simps [simp]:
  "upd_by ord k v [] = []"
  "upd_by ord k v (xs @ ys) = upd_by ord k v xs @ upd_by ord k v ys"
  "upd_by ord k v (x # xs) = (if ord x = ord k then v else x) # upd_by ord k v xs"
  "length (upd_by ord k v xs) = length xs"
  by (simp_all add: upd_by_def)

lemma upd_by_none: "(\<And>e. e \<in> set xs \<Longrightarrow> ord e \<noteq> ord k) \<Longrightarrow> upd_by ord k v xs = xs"
  by (simp add: upd_by_def map_idI)

lemma sorted_upd_by: "ord v = ord k \<Longrightarrow> sorted_by ord xs \<Longrightarrow> sorted_by ord (upd_by ord k v xs)"
  by (induction xs) (auto simp: upd_by_def)

lemma upd_by_mid:
  assumes "sorted_by ord (us @ e # vs)" "ord e = ord k"
  shows "upd_by ord k v (us @ e # vs) = us @ v # vs"
proof -
  have "upd_by ord k v us = us" "upd_by ord k v vs = vs"
    by (rule upd_by_none; use assms in force)+
  with assms(2) show ?thesis by simp
qed

lemma upd_by_slot:
  assumes "sorted_by ord ks" "j < length ks" "ord (ks ! j) = ord k"
  shows "ks[j := v] = upd_by ord k v ks"
proof (rule nth_equalityI)
  fix i
  assume i: "i < length (ks[j := v])"
  have "ord (ks ! i) \<noteq> ord k" if "i \<noteq> j"
    using sorted_by_nth [OF assms(1), of i j] sorted_by_nth [OF assms(1), of j i] that i assms(2,3)
    by (cases "i < j") auto
  with i assms show "ks[j := v] ! i = upd_by ord k v ks ! i"
    by (cases "i = j") (auto simp: upd_by_def)
qed simp

context bt_order
begin

lemma findnodekeyreplace_ok:
  assumes w: "nbits = 2 ^ Suc m'" and b: "GETN t \<le> 2 ^ nbits"
    and "shape t h x" "nkeys x \<le> GETN t" "sorted_by ord (inorder x)" "scion_ok x"
  shows "\<exists>x'. findnodekeyreplace cmp nbits x k v = Inr (x', List.find (\<lambda>e. ord e = ord k) (inorder x)) \<and>
     shape t h x' \<and> scion_ok x' \<and> nkeys x' = nkeys x \<and> inorder x' = upd_by ord k v (inorder x)"
  using assms(3-6)
proof (induction h arbitrary: x)
  case 0
  then obtain s ks where x: "x = BTN s True ks []" by (cases x) auto
  have ks: "sorted_by ord ks" "length ks \<le> 2 ^ nbits" using 0 b x by simp_all
  let ?p = "key_pos ord ks k"
  obtain r where r: "findkindex cmp nbits ks k = (int ?p - 1, r)"
    "r = Some 0 \<longleftrightarrow> 0 < ?p \<and> ord (ks ! (?p - 1)) = ord k"
    using findkindex_found [OF ks(1) w ks(2)] by blast
  note ls = leaf_search [OF ks(1), of k]
  show ?case
  proof (cases "r = Some 0")
    case True
    with r(2) ls(2) find_sorted [OF ks(1), of "ks ! (?p - 1)" k] 0(4)
      upd_by_slot [OF ks(1), of "?p - 1" k v] show ?thesis
      by (subst findnodekeyreplace.simps) (simp add: x r(1) nat_diff_distrib)
  next
    case False
    with r(2) ls(1) have "List.find (\<lambda>e. ord e = ord k) ks = None" "upd_by ord k v ks = ks"
      by (intro find_none upd_by_none; blast)+
    with False 0(4) show ?thesis by (subst findnodekeyreplace.simps) (simp add: x r(1))
  qed
next
  case (Suc h)
  have nk: "nkeys x \<le> 2 ^ nbits" using Suc.prems(2) b by simp
  obtain s kl kr cl c cr r where v: "x = BTN s False (kl @ kr) (cl @ c # cr)"
    "length cl = length kl" "length kr = length cr"
    "findkindex cmp nbits (kl @ kr) k = (int (length kl) - 1, r)"
    "r = Some 0 \<longleftrightarrow> kl \<noteq> [] \<and> ord (last kl) = ord k"
    "\<And>e. r \<noteq> Some 0 \<Longrightarrow> e \<in> set (il_pre (map inorder cl) kl) \<Longrightarrow> ord e < ord k"
    "\<And>e. e \<in> set (il_post kr (map inorder cr)) \<Longrightarrow> ord k < ord e"
    using descend_view [OF w Suc.prems(1) nk Suc.prems(3), of k] by blast
  have io: "inorder x = il_pre (map inorder cl) kl @ inorder c @ il_post kr (map inorder cr)"
    unfolding v(1) by (rule inorder_view [OF v(2,3)])
  show ?case
  proof (cases "r = Some 0")
    case True
    with v(5) have kl: "kl \<noteq> []" "ord (last kl) = ord k" by auto
    obtain kl' cl' d where fv: "kl = kl' @ [last kl]" "cl = cl' @ [d]" "length cl' = length kl'"
      "il_pre (map inorder cl) kl = il_pre (map inorder cl') kl' @ inorder d @ [last kl]"
      using found_view [OF v(2) kl(1)] .
    have "last kl \<in> set (inorder x)" unfolding io fv(4) by simp
    from find_sorted [OF Suc.prems(3) this kl(2)] have fnd:
      "List.find (\<lambda>e. ord e = ord k) (inorder x) = Some (last kl)" .
    obtain n where n: "int (length kl) - 1 = int n" "c_read (kl @ kr) n = Inr (last kl)"
      "\<And>v. (kl @ kr)[n := v] = butlast kl @ v # kr"
      using found_slot [OF kl(1)] by metis
    have "butlast kl = kl'" using fv(1) by (metis butlast_snoc)
    then have "findnodekeyreplace cmp nbits x k v =
        Inr (BTN s False (kl' @ v # kr) (cl @ c # cr), Some (last kl))"
      using n by (subst findnodekeyreplace.simps) (simp add: v(1,4) True del: c_read_Inr)
    moreover have upd: "inorder (BTN s False (kl' @ v # kr) (cl @ c # cr)) = upd_by ord k v (inorder x)"
    proof -
      have "inorder (BTN s False ((kl' @ [v]) @ kr) (cl @ c # cr)) =
          il_pre (map inorder cl') kl' @ inorder d @ v # inorder c @ il_post kr (map inorder cr)"
        using v(3) fv(2,3) by (subst inorder_view) simp_all
      moreover have "upd_by ord k v (inorder x) =
          il_pre (map inorder cl') kl' @ inorder d @ v # inorder c @ il_post kr (map inorder cr)"
        using upd_by_mid [of ord "il_pre (map inorder cl') kl' @ inorder d" "last kl"
            "inorder c @ il_post kr (map inorder cr)" k v] Suc.prems(3) kl(2)
        unfolding io fv(4) by simp
      ultimately show ?thesis by simp
    qed
    moreover have "length kl = length kl' + 1" using fv(1) by (metis Suc_eq_plus1 length_append_singleton)
    ultimately show ?thesis unfolding fnd
      using Suc.prems(1,4) by (simp add: v(1) upd_by_def [symmetric])
  next
    case False
    have c: "shape t h c" "nkeys c \<le> GETN t" "sorted_by ord (inorder c)" "scion_ok c"
      using Suc.prems by (simp_all add: v(1), simp add: io [unfolded v(1), simplified])
    from Suc.IH [OF this] obtain c' where
      IH: "findnodekeyreplace cmp nbits c k v = Inr (c', List.find (\<lambda>e. ord e = ord k) (inorder c))"
      "shape t h c'" "scion_ok c'" "nkeys c' = nkeys c" "inorder c' = upd_by ord k v (inorder c)" by blast
    have "List.find (\<lambda>e. ord e = ord k) (il_pre (map inorder cl) kl) = None"
      "List.find (\<lambda>e. ord e = ord k) (il_post kr (map inorder cr)) = None"
      by (rule find_none; use v(6,7) False in force)+
    then have fnd: "List.find (\<lambda>e. ord e = ord k) (inorder x) = List.find (\<lambda>e. ord e = ord k) (inorder c)"
      by (simp add: io find_append split: option.split)
    have "upd_by ord k v (il_pre (map inorder cl) kl) = il_pre (map inorder cl) kl"
      "upd_by ord k v (il_post kr (map inorder cr)) = il_post kr (map inorder cr)"
      by (rule upd_by_none; use v(6,7) False in force)+
    then have upd: "inorder (BTN s False (kl @ kr) (cl @ c' # cr)) = upd_by ord k v (inorder x)"
      unfolding inorder_view [OF v(2,3)] io by (simp add: IH(5))
    have "findnodekeyreplace cmp nbits x k v =
        Inr (BTN s False (kl @ kr) (cl @ c' # cr), List.find (\<lambda>e. ord e = ord k) (inorder x))"
      using IH(1) False unfolding fnd
      by (subst findnodekeyreplace.simps) (simp add: v(1,2,4) del: inorder.simps)
    moreover have "scion_ok (BTN s False (kl @ kr) (cl @ c' # cr))"
      by (rule scion_okI) (use Suc.prems(4) IH(3) upd in \<open>auto simp: v(1)\<close>)
    ultimately show ?thesis using Suc.prems(1) IH upd by (auto simp: v(1) simp del: inorder.simps)
  qed
qed

end

subsection \<open>The ends of a tree\<close>

lemma first_view:
  assumes "length (bkids x) = nkeys x + 1"
  obtains s l kr c cr where "x = BTN s l kr (c # cr)" "length kr = length cr"
    "inorder x = inorder c @ il_post kr (map inorder cr)"
proof -
  obtain s l ks cs where x: "x = BTN s l ks cs" by (cases x)
  with assms obtain c cr where cs: "cs = c # cr" by (cases cs) auto
  with x assms interleave_kid [of ks "map inorder cr" "inorder c"] that show ?thesis by simp
qed

lemma last_view:
  assumes "length (bkids x) = nkeys x + 1"
  obtains s l kl cl c where "x = BTN s l kl (cl @ [c])" "length cl = length kl"
    "inorder x = il_pre (map inorder cl) kl @ inorder c"
proof -
  obtain s l ks cs where x: "x = BTN s l ks cs" by (cases x)
  with assms obtain cl c where cs: "cs = cl @ [c]" by (cases cs rule: rev_cases) auto
  with x assms interleave_split [of "map inorder cl" ks "[]" "[]" "inorder c"] that show ?thesis by simp
qed

lemma findminkey_ok:
  assumes "2 \<le> t" "shape t h x" "h = 0 \<Longrightarrow> 0 < nkeys x"
  shows "findminkey x = Inr (hd (inorder x)) \<and> inorder x \<noteq> []"
  using assms(2,3)
proof (induction h arbitrary: x)
  case 0
  then show ?case by (subst findminkey.simps, cases x) (auto simp: hd_conv_nth)
next
  case (Suc h)
  then have "length (bkids x) = nkeys x + 1" by simp
  then obtain s l kr c cr where v: "x = BTN s l kr (c # cr)" "length kr = length cr"
    "inorder x = inorder c @ il_post kr (map inorder cr)" by (rule first_view)
  have "shape t h c" "t - 1 \<le> nkeys c" using Suc.prems(1) v(1) by auto
  with Suc.IH [of c] assms(1) have "findminkey c = Inr (hd (inorder c)) \<and> inorder c \<noteq> []" by force
  with Suc.prems(1) show ?case
    unfolding v(3) by (subst findminkey.simps) (simp add: v(1) kid_def)
qed

lemma findmaxkey_ok:
  assumes "2 \<le> t" "shape t h x" "h = 0 \<Longrightarrow> 0 < nkeys x"
  shows "findmaxkey x = Inr (last (inorder x)) \<and> inorder x \<noteq> []"
  using assms(2,3)
proof (induction h arbitrary: x)
  case 0
  then show ?case by (subst findmaxkey.simps, cases x) (auto simp: last_conv_nth nkeys_def)
next
  case (Suc h)
  then have "length (bkids x) = nkeys x + 1" by simp
  then obtain s l kl cl c where v: "x = BTN s l kl (cl @ [c])" "length cl = length kl"
    "inorder x = il_pre (map inorder cl) kl @ inorder c" by (rule last_view)
  have "shape t h c" "t - 1 \<le> nkeys c" using Suc.prems(1) v(1) by auto
  with Suc.IH [of c] assms(1) have "findmaxkey c = Inr (last (inorder c)) \<and> inorder c \<noteq> []" by force
  with Suc.prems(1) show ?case
    unfolding v(3) by (subst findmaxkey.simps) (simp add: v(1,2))
qed

subsection \<open>Copying\<close>

function preorder :: "'k btn \<Rightarrow> 'k list" where
  "preorder x = bkeys x @ concat (map preorder (bkids x))"
  by pat_completeness auto
termination
  by (relation "measure bheight") (auto intro: bheight_kid)

declare preorder.simps [simp del]

lemma c_fold_append: "c_fold f (xs @ ys) s = c_bind (c_fold f xs s) (c_fold f ys)"
proof (induction xs arbitrary: s)
  case (Cons a xs)
  then show ?case by (auto intro: c_bind_cong)
qed simp

lemma c_fold_concat: "c_fold f (concat (map g xs)) s = c_fold (\<lambda>x. c_fold f (g x)) xs s"
proof (induction xs arbitrary: s)
  case (Cons a xs)
  then show ?case by (auto simp: c_fold_append intro: c_bind_cong)
qed simp

lemma bt_to_bt_insert_preorder:
  "shape t h x \<Longrightarrow> bt_to_bt_insert cmp x b = c_fold (\<lambda>k b. bt_insert cmp b k) (preorder x) b"
proof (induction h arbitrary: x b)
  case 0
  then show ?case
    by (subst bt_to_bt_insert.simps, subst preorder.simps)
      (simp add: c_bind_def split: sum.splits)
next
  case (Suc h)
  have "c_fold (bt_to_bt_insert cmp) (bkids x) b' =
      c_fold (\<lambda>k b. bt_insert cmp b k) (concat (map preorder (bkids x))) b'" for b'
    unfolding c_fold_concat using Suc by (intro c_fold_cong) auto
  with Suc.prems show ?case
    by (subst bt_to_bt_insert.simps, subst preorder.simps) (simp add: c_fold_append)
qed

lemma set_preorder: "set (preorder x) = set (inorder x)"
proof (induction x rule: preorder.induct)
  case (1 x)
  then show ?case by (subst preorder.simps, cases x) (auto simp: set_interleave)
qed

lemma length_preorder: "length (preorder x) = length (inorder x)"
proof (induction x rule: preorder.induct)
  case (1 x)
  then show ?case
    by (subst preorder.simps, cases x)
      (auto simp: length_interleave length_concat comp_def intro!: arg_cong [of _ _ sum_list])
qed

lemma sorted_by_unique:
  "sorted_by ord xs \<Longrightarrow> sorted_by ord ys \<Longrightarrow> set xs = set ys \<Longrightarrow> xs = ys"
proof (induction xs arbitrary: ys)
  case Nil
  then show ?case by simp
next
  case (Cons x xs)
  then obtain y ys' where y: "ys = y # ys'" by (cases ys) auto
  have "x \<in> set (y # ys')" "y \<in> set (x # xs)" using Cons.prems(3) y by auto
  then have "x = y"
    using Cons.prems(1,2) unfolding y sorted_by_simps by (metis order_less_asym set_ConsD)
  moreover have "x \<notin> set xs" "y \<notin> set ys'" using Cons.prems(1,2) y by auto
  ultimately have "set xs = set ys'" using Cons.prems(3) y by auto
  with Cons y \<open>x = y\<close> show ?case by simp
qed

lemma sorted_by_distinct: "sorted_by ord xs \<Longrightarrow> distinct xs \<and> inj_on ord (set xs)"
proof (induction xs)
  case (Cons x xs)
  then have "ord x \<notin> ord ` set xs" by auto
  with Cons show ?case by (auto simp: inj_on_insert)
qed simp

context bt_order
begin

lemma bt_insert_all:
  assumes "bt_wf ord b" "distinct ks" "inj_on ord (set ks \<union> set (inorder (bt_root b)))"
    "set ks \<inter> set (inorder (bt_root b)) = {}"
    "length ks + length (inorder (bt_root b)) < 2 ^ 32"
  shows "\<exists>b'. c_fold (\<lambda>k b. bt_insert cmp b k) ks b = Inr b' \<and> bt_wf ord b' \<and>
     set (inorder (bt_root b')) = set ks \<union> set (inorder (bt_root b))"
  using assms
proof (induction ks arbitrary: b)
  case Nil
  then show ?case by simp
next
  case (Cons k ks)
  have "ord e \<noteq> ord k" if "e \<in> set (inorder (bt_root b))" for e
    using inj_onD [OF Cons.prems(3), of e k] that Cons.prems(4) by auto
  then obtain b1 where b1: "bt_insert cmp b k = Inr b1" "bt_wf ord b1"
    "inorder (bt_root b1) = ins_by ord k (inorder (bt_root b))"
    using bt_insert_wf [OF Cons.prems(1)] Cons.prems(5) by fastforce
  have "\<exists>b'. c_fold (\<lambda>k b. bt_insert cmp b k) ks b1 = Inr b' \<and> bt_wf ord b' \<and>
     set (inorder (bt_root b')) = set ks \<union> set (inorder (bt_root b1))"
    using Cons.prems b1 by (intro Cons.IH) (auto simp: insert_commute)
  with b1 show ?case by auto
qed

lemma bt_copy_ok:
  assumes "bt_wf ord b"
  shows "\<exists>b'. bt_to_bt_insert cmp (bt_root b) (bt_create tr) = Inr b' \<and> bt_wf ord b' \<and>
     inorder (bt_root b') = inorder (bt_root b)"
proof -
  obtain h where sh: "shape (bt_t b) h (bt_root b)" using bt_wf_dest [OF assms] by metis
  have srt: "sorted_by ord (inorder (bt_root b))" and len: "length (inorder (bt_root b)) < 2 ^ 32"
    using assms by (simp_all add: bt_wf_def)
  note nw = bt_create_wf [of ord tr]
  have "distinct (preorder (bt_root b))"
    using sorted_by_distinct [OF srt]
    by (metis card_distinct distinct_card length_preorder set_preorder)
  then obtain b' where "c_fold (\<lambda>k b. bt_insert cmp b k) (preorder (bt_root b)) (bt_create tr) = Inr b'"
    "bt_wf ord b'" "set (inorder (bt_root b')) = set (inorder (bt_root b))"
    using bt_insert_all [of "bt_create tr" "preorder (bt_root b)"] nw sorted_by_distinct [OF srt] len
    by (auto simp: set_preorder length_preorder)
  with srt sh show ?thesis
    by (auto simp: bt_to_bt_insert_preorder bt_wf_def intro: sorted_by_unique)
qed

lemma bt_find_ok: "bt_wf ord b \<Longrightarrow> bt_find cmp b k = Inr (List.find (\<lambda>e. ord e = ord k) (inorder (bt_root b)))"
  unfolding bt_find_def by (erule bt_wf_dest) (rule findnodekey_ok)

lemma bt_find_loc_ok:
  assumes "bt_wf ord b"
  shows "\<exists>loc. bt_find_loc cmp b k = Inr loc \<and>
     (loc = None \<longleftrightarrow> (\<forall>e \<in> set (inorder (bt_root b)). ord e \<noteq> ord k)) \<and>
     (\<forall>p j. loc = Some (p, j) \<longrightarrow> (\<exists>e. slot_read p j (bt_root b) = Inr e \<and> ord e = ord k))"
proof -
  have "c_bind (bt_find_loc cmp b k) (\<lambda>loc. case loc of None \<Rightarrow> Inr None
      | Some (p, j) \<Rightarrow> c_bind (slot_read p j (bt_root b)) (\<lambda>e. Inr (Some e))) =
      Inr (List.find (\<lambda>e. ord e = ord k) (inorder (bt_root b)))"
    using bt_find_ok [OF assms, of k] by (simp add: bt_find_def findnodekey_loc bt_find_loc_def)
  then obtain loc where l: "bt_find_loc cmp b k = Inr loc" "(case loc of None \<Rightarrow> Inr None
      | Some (p, j) \<Rightarrow> c_bind (slot_read p j (bt_root b)) (\<lambda>e. Inr (Some e))) =
      Inr (List.find (\<lambda>e. ord e = ord k) (inorder (bt_root b)))" by (auto simp: c_bind_Inr_iff)
  show ?thesis
  proof (cases "List.find (\<lambda>e. ord e = ord k) (inorder (bt_root b))")
    case None
    with l show ?thesis by (cases loc) (auto simp: c_bind_Inr_iff find_None_iff)
  next
    case (Some e)
    then have "e \<in> set (inorder (bt_root b)) \<and> ord e = ord k" by (auto simp: find_Some_iff in_set_conv_nth)
    with l Some show ?thesis by (cases loc) (auto simp: c_bind_Inr_iff)
  qed
qed

lemma bt_exist_ok:
  assumes "bt_wf ord b"
  shows "bt_exist cmp b k = Inr (\<exists>e \<in> set (inorder (bt_root b)). ord e = ord k)"
  using bt_find_loc_ok [OF assms, of k] by (auto simp: bt_exist_def bt_exist_loc bt_find_loc_def)

lemma bt_replace_ok:
  assumes "bt_wf ord b" "ord v = ord k"
  shows "\<exists>b'. bt_replace cmp b k v = Inr (b', List.find (\<lambda>e. ord e = ord k) (inorder (bt_root b))) \<and>
     bt_wf ord b' \<and> inorder (bt_root b') = upd_by ord k v (inorder (bt_root b))"
proof -
  obtain h m where d: "bt_nbits b = 2 ^ Suc m" "GETN (bt_t b) \<le> 2 ^ bt_nbits b"
    "shape (bt_t b) h (bt_root b)" "nkeys (bt_root b) \<le> GETN (bt_t b)"
    "sorted_by ord (inorder (bt_root b))" "scion_ok (bt_root b)"
    using bt_wf_dest [OF assms(1)] by metis
  obtain x' where x': "findnodekeyreplace cmp (bt_nbits b) (bt_root b) k v =
      Inr (x', List.find (\<lambda>e. ord e = ord k) (inorder (bt_root b)))" "shape (bt_t b) h x'"
    "scion_ok x'" "nkeys x' = nkeys (bt_root b)" "inorder x' = upd_by ord k v (inorder (bt_root b))"
    using findnodekeyreplace_ok [OF d] by blast
  have "leaf x' \<or> 0 < nkeys x'"
    using assms(1) d(3) x'(2,4) by (cases h) (auto simp: bt_wf_def)
  then have "bt_wf ord (b\<lparr>bt_root := x'\<rparr>)"
    using x' d assms(1) sorted_upd_by [OF assms(2) d(5)]
    by (intro bt_wfI [where h = h]) (simp_all add: bt_wf_def bt_geometry_def)
  with x' show ?thesis by (simp add: bt_replace_def)
qed

lemma bt_ends_ok:
  assumes "bt_wf ord b"
  defines "xs \<equiv> inorder (bt_root b)"
  shows "bt_min b = Inr (if xs = [] then None else Some (hd xs))"
    and "bt_max b = Inr (if xs = [] then None else Some (last xs))"
proof -
  obtain h where d: "2 \<le> bt_t b" "shape (bt_t b) h (bt_root b)" using bt_wf_dest [OF assms(1)] by metis
  have "unat (of_nat (length xs) :: uint32) = length xs"
    using assms(1) by (simp add: bt_wf_def xs_def unat_of_nat)
  then have z: "bt_numkeys b = 0 \<longleftrightarrow> xs = []"
    using assms(1) by (metis bt_wf_def length_0_conv unat_eq_zero xs_def)
  have "0 < nkeys (bt_root b)" if "h = 0" "xs \<noteq> []"
    using that d(2) by (cases "bt_root b") (auto simp: xs_def)
  then show "bt_min b = Inr (if xs = [] then None else Some (hd xs))"
    "bt_max b = Inr (if xs = [] then None else Some (last xs))"
    using findminkey_ok [OF d] findmaxkey_ok [OF d] z by (auto simp: bt_min_def bt_max_def xs_def)
qed

end

end
