(* ===== verification/Alc_BTDelete.thy ===== *)
theory Alc_BTDelete
  imports Alc_BTFind
begin

text \<open>
  Deletion in \<^verbatim>\<open>src/DB/bt_code.c\<close>: \<^verbatim>\<open>deletekey\<close>, \<^verbatim>\<open>remove_key\<close> and \<^verbatim>\<open>bt_delete\<close> (\<^verbatim>\<open>drt = 0\<close>) on trees without evicted
  rows, case by case as the code numbers them. The global \<^verbatim>\<open>case_2c_ptr\<close> is threaded through as state.
\<close>

datatype dk_mode = DK_NONE | DK_2A | DK_2B

subsection \<open>Moving keys between siblings\<close>

text \<open>
  \<open>bt_merge lf y m z\<close>: the separator \<open>m\<close> and all of \<open>z\<close> appended to \<open>y\<close> (cases 2c, 3b1, 3b2); \<open>lf\<close> is the leaf
  flag that the code tests.
\<close>

definition bt_merge :: "bool \<Rightarrow> 'k btn \<Rightarrow> 'k \<Rightarrow> 'k btn \<Rightarrow> 'k btn" where
  "bt_merge lf y m z =
     BTN (scion y + 1 + of_nat (nkeys z) + (if lf then 0 else sum_scion (bkids z))) (leaf y)
       (bkeys y @ m # bkeys z) (if lf then bkids y else bkids y @ bkids z)"

text \<open>
  Case 3a1: the separator \<open>m\<close> moves down in front of \<open>xp\<close>, the last key of the left sibling \<open>y\<close> moves up,
  and the last child of \<open>y\<close> moves over.
\<close>

definition rotate_right :: "'k \<Rightarrow> 'k btn \<Rightarrow> 'k btn \<Rightarrow> ('k btn \<times> 'k \<times> 'k btn) c_res" where
  "rotate_right m y xp =
     (if nkeys y = 0 then Inl OOB_read
      else let b = bkeys y ! (nkeys y - 1); ky = take (nkeys y - 1) (bkeys y) in
        if leaf xp then
          Inr (BTN (scion y - 1) (leaf y) ky (bkids y), b, BTN (scion xp + 1) (leaf xp) (m # bkeys xp) (bkids xp))
        else c_bind (kid y (nkeys y)) (\<lambda>d.
          Inr (BTN (scion y - 1 - scion d) (leaf y) ky (take (nkeys y) (bkids y)), b,
               BTN (scion xp + 1 + scion d) (leaf xp) (m # bkeys xp) (d # bkids xp))))"

text \<open>Case 3a2: the mirror image, with the right sibling \<open>y\<close>.\<close>

definition rotate_left :: "'k \<Rightarrow> 'k btn \<Rightarrow> 'k btn \<Rightarrow> ('k btn \<times> 'k \<times> 'k btn) c_res" where
  "rotate_left m xp y =
     (if nkeys y = 0 then Inl OOB_read
      else let b = bkeys y ! 0; ky = drop 1 (bkeys y) in
        if leaf xp then
          Inr (BTN (scion xp + 1) (leaf xp) (bkeys xp @ [m]) (bkids xp), b, BTN (scion y - 1) (leaf y) ky (bkids y))
        else c_bind (kid y 0) (\<lambda>d.
          Inr (BTN (scion xp + 1 + scion d) (leaf xp) (bkeys xp @ [m]) (bkids xp @ [d]), b,
               BTN (scion y - 1 - scion d) (leaf y) ky (drop 1 (bkids y)))))"

text \<open>
  Case 3: make sure that the child \<open>xp\<close> at slot \<open>i\<close> can lose a key. The result is the changed node, the
  slot to descend to and the node there. The left sibling exists because slot \<open>i\<close> does.
\<close>

definition case_3a1 :: "'k btn \<Rightarrow> nat \<Rightarrow> 'k btn \<Rightarrow> ('k btn \<times> nat \<times> 'k btn) c_res" where
  "case_3a1 x i xp =
     c_bind (kid x (i - 1)) (\<lambda>y. c_bind (c_read (bkeys x) (i - 1)) (\<lambda>m.
       c_bind (rotate_right m y xp) (\<lambda>(y', b, xp').
         Inr (BTN (scion x) (leaf x) ((bkeys x)[i - 1 := b]) ((bkids x)[i - 1 := y', i := xp']), i, xp'))))"

definition case_3a2 :: "'k btn \<Rightarrow> nat \<Rightarrow> 'k btn \<Rightarrow> ('k btn \<times> nat \<times> 'k btn) c_res" where
  "case_3a2 x i xp =
     c_bind (kid x (i + 1)) (\<lambda>y. c_bind (c_read (bkeys x) i) (\<lambda>m.
       c_bind (rotate_left m xp y) (\<lambda>(xp', b, y').
         Inr (BTN (scion x) (leaf x) ((bkeys x)[i := b]) ((bkids x)[i := xp', i + 1 := y']), i, xp'))))"

definition case_3b1 :: "'k btn \<Rightarrow> nat \<Rightarrow> 'k btn \<Rightarrow> ('k btn \<times> nat \<times> 'k btn) c_res" where
  "case_3b1 x i xp =
     c_bind (kid x (i - 1)) (\<lambda>y. c_bind (c_read (bkeys x) (i - 1)) (\<lambda>m.
       let y' = bt_merge (leaf xp) y m xp in
       Inr (BTN (scion x) (leaf x) (take (i - 1) (bkeys x) @ drop i (bkeys x))
              (take (i - 1) (bkids x) @ y' # drop (i + 1) (bkids x)), i - 1, y')))"

definition case_3b2 :: "'k btn \<Rightarrow> nat \<Rightarrow> 'k btn \<Rightarrow> ('k btn \<times> nat \<times> 'k btn) c_res" where
  "case_3b2 x i xp =
     c_bind (kid x (i + 1)) (\<lambda>y. c_bind (c_read (bkeys x) i) (\<lambda>m.
       let xp' = bt_merge (leaf xp) xp m y in
       Inr (BTN (scion x) (leaf x) (take i (bkeys x) @ drop (i + 1) (bkeys x))
              (take i (bkids x) @ xp' # drop (i + 2) (bkids x)), i, xp')))"

definition fix_child :: "nat \<Rightarrow> 'k btn \<Rightarrow> nat \<Rightarrow> 'k btn \<Rightarrow> ('k btn \<times> nat \<times> 'k btn) c_res" where
  "fix_child t x i xp =
     (if nkeys xp \<noteq> t - 1 then Inr (x, i, xp)
      else if 0 < i \<and> t \<le> nkeys (bkids x ! (i - 1)) then case_3a1 x i xp
      else if i < nkeys x \<and> i + 1 \<ge> length (bkids x) then Inl OOB_read
      else if i < nkeys x \<and> t \<le> nkeys (bkids x ! (i + 1)) then case_3a2 x i xp
      else if 0 < i \<and> nkeys (bkids x ! (i - 1)) = t - 1 then case_3b1 x i xp
      else if i < nkeys x \<and> nkeys (bkids x ! (i + 1)) = t - 1 then case_3b2 x i xp
      else Inr (x, i, xp))"

subsection \<open>Termination measure of the helpers\<close>

lemma bheight_leI:
  "(\<And>c. c \<in> set (bkids y') \<Longrightarrow> \<exists>y :: 'k btn. bheight c < bheight y \<and> bheight y < b) \<Longrightarrow> 1 < b \<Longrightarrow>
   bheight (y' :: 'k btn) < b"
  using bheight_le [of y' "b - 1"] by (metis One_nat_def Suc_leI Suc_pred less_Suc_eq_le less_trans_Suc
      not_less_eq zero_less_diff zero_less_one less_trans)

lemma one_less_bheight: "kid x i = Inr y \<Longrightarrow> 1 < bheight x"
  using kid_bheight [of x i y] bheight_pos [of y] by linarith

lemma bheight_merge:
  assumes "bheight y < b" "bheight z < b" "1 < b"
  shows "bheight (bt_merge lf y m z) < b"
  by (rule bheight_leI [OF _ assms(3)]) (use assms bheight_kid in \<open>auto simp: bt_merge_def split: if_splits\<close>)

lemma bheight_rotate_right:
  assumes "bheight y < b" "bheight xp < b" "1 < b" "rotate_right m y xp = Inr (y', k, xp')"
  shows "bheight xp' < b"
proof (rule bheight_leI [OF _ assms(3)])
  fix c
  assume "c \<in> set (bkids xp')"
  then have "c \<in> set (bkids xp) \<or> c \<in> set (bkids y)"
    using assms(4) by (auto simp: rotate_right_def Let_def c_bind_Inr_iff kid_def split: if_splits)
  then show "\<exists>w :: 'a btn. bheight c < bheight w \<and> bheight w < b"
    using assms(1,2) bheight_kid [of c] by blast
qed

lemma bheight_rotate_left:
  assumes "bheight y < b" "bheight xp < b" "1 < b" "rotate_left m xp y = Inr (xp', k, y')"
  shows "bheight xp' < b"
proof (rule bheight_leI [OF _ assms(3)])
  fix c
  assume "c \<in> set (bkids xp')"
  then have "c \<in> set (bkids xp) \<or> c \<in> set (bkids y)"
    using assms(4) by (auto simp: rotate_left_def Let_def c_bind_Inr_iff kid_def split: if_splits)
  then show "\<exists>w :: 'a btn. bheight c < bheight w \<and> bheight w < b"
    using assms(1,2) bheight_kid [of c] by blast
qed

lemma bheight_fix_child:
  assumes "kid x i = Inr xp" "fix_child t x i xp = Inr (x', j, xp')"
  shows "bheight xp' < bheight x"
proof -
  note hs = kid_bheight [OF assms(1)] one_less_bheight [OF assms(1)]
  consider "xp' = xp" | "case_3a1 x i xp = Inr (x', j, xp')" | "case_3a2 x i xp = Inr (x', j, xp')"
    | "case_3b1 x i xp = Inr (x', j, xp')" | "case_3b2 x i xp = Inr (x', j, xp')"
    using assms(2) by (auto simp: fix_child_def split: if_splits)
  then show ?thesis
  proof cases
    case 1
    with hs show ?thesis by simp
  next
    case 2
    with hs show ?thesis
      by (auto simp: case_3a1_def c_bind_Inr_iff dest: kid_bheight bheight_rotate_right [rotated 3])
  next
    case 3
    with hs show ?thesis
      by (auto simp: case_3a2_def c_bind_Inr_iff dest: kid_bheight bheight_rotate_left [rotated 3])
  next
    case 4
    with hs show ?thesis
      by (auto simp: case_3b1_def c_bind_Inr_iff Let_def intro!: bheight_merge dest: kid_bheight)
  next
    case 5
    with hs show ?thesis
      by (auto simp: case_3b2_def c_bind_Inr_iff Let_def intro!: bheight_merge dest: kid_bheight)
  qed
qed

subsection \<open>Deletion\<close>

text \<open>
  The search position in \<open>x\<close>: fixed for the deletion of a maximum (\<^verbatim>\<open>DK_2A\<close>) or minimum (\<^verbatim>\<open>DK_2B\<close>). \<^verbatim>\<open>r\<close> starts
  as \<open>-1\<close>, which \<^verbatim>\<open>findkindex\<close> leaves on an empty node.
\<close>

definition del_pos :: "('k \<Rightarrow> 'k \<Rightarrow> int) \<Rightarrow> nat \<Rightarrow> 'k btn \<Rightarrow> 'k \<Rightarrow> dk_mode \<Rightarrow> int \<times> int" where
  "del_pos cmp nbits x k s =
     (case s of
        DK_2A \<Rightarrow> (int (nkeys x) - 1, if leaf x then 0 else 1)
      | DK_2B \<Rightarrow> (- 1, if leaf x then 0 else - 1)
      | DK_NONE \<Rightarrow> (let (i, r) = findkindex cmp nbits (bkeys x) k
                    in (i, case r of None \<Rightarrow> - 1 | Some r \<Rightarrow> r)))"

text \<open>Reading and removing the key at slot \<open>i\<close> of a leaf (case 1); a slot \<open>-1\<close> is before the keys.\<close>

definition leaf_remove :: "'k btn \<Rightarrow> int \<Rightarrow> ('k btn \<times> 'k) c_res" where
  "leaf_remove x i =
     (if i < 0 then Inl OOB_read
      else c_bind (c_read (bkeys x) (nat i)) (\<lambda>kp.
        Inr (BTN (scion x) (leaf x) (take (nat i) (bkeys x) @ drop (nat i + 1) (bkeys x)) (bkids x), kp)))"

function deletekey :: "('k \<Rightarrow> 'k \<Rightarrow> int) \<Rightarrow> nat \<Rightarrow> nat \<Rightarrow> 'k btn \<Rightarrow> 'k \<Rightarrow> dk_mode \<Rightarrow> 'k option \<Rightarrow>
    ('k btn \<times> 'k \<times> 'k option) c_res" where
  "deletekey cmp nbits t x0 k s case_2c_ptr =
     (let (i, r) = del_pos cmp nbits x0 k s;
          x = BTN (scion x0 - 1) (leaf x0) (bkeys x0) (bkids x0)
      in
      if leaf x0 then
        c_bind (leaf_remove x (if s = DK_2B then i + 1 else i)) (\<lambda>(x', kp). Inr (x', kp, case_2c_ptr))
      else if r = 0 then
        let i = nat i in
        c_bind (c_read (bkeys x0) i) (\<lambda>kp.
        c_bind (kid x0 i) (\<lambda>y.
        if t \<le> nkeys y then
          c_bind (deletekey cmp nbits t y k DK_2A case_2c_ptr) (\<lambda>(y', d, ptr).
            Inr (BTN (scion x) (leaf x) ((bkeys x)[i := d]) ((bkids x)[i := y']), kp, ptr))
        else c_bind (kid x0 (i + 1)) (\<lambda>z.
        if t \<le> nkeys z then
          c_bind (deletekey cmp nbits t z k DK_2B case_2c_ptr) (\<lambda>(z', d, ptr).
            Inr (BTN (scion x) (leaf x) ((bkeys x)[i := d]) ((bkids x)[i + 1 := z']), kp, ptr))
        else if nkeys y = t - 1 \<and> nkeys z = t - 1 then
          let ptr = (if case_2c_ptr = None then Some kp else case_2c_ptr);
              yz = bt_merge (leaf y) y k z
          in c_bind (deletekey cmp nbits t yz k s ptr) (\<lambda>(y', d, ptr').
            Inr (BTN (scion x) (leaf x) (take i (bkeys x) @ drop (i + 1) (bkeys x))
                   (take i (bkids x) @ y' # drop (i + 2) (bkids x)), d, ptr'))
        else Inl Assert_fail)))
      else
        let i = nat (i + 1) in
        c_bind (kid x0 i) (\<lambda>xp.
        c_bind (fix_child t x0 i xp) (\<lambda>(x1, j, xp1).
        c_bind (deletekey cmp nbits t xp1 k s case_2c_ptr) (\<lambda>(xp', d, ptr).
          Inr (BTN (scion x) (leaf x1) (bkeys x1) ((bkids x1)[j := xp']), d, ptr)))))"
  by pat_completeness auto
termination
proof (relation "measure (\<lambda>(cmp, nbits, t, x, k, s, p). bheight x)", goal_cases)
  case 1
  show ?case by simp
next
  case 2
  then show ?case by (auto dest: kid_bheight)
next
  case 3
  then show ?case by (auto dest: kid_bheight)
next
  case (4 cmp nbits t x0)
  then show ?case by (auto intro!: bheight_merge dest: kid_bheight one_less_bheight)
next
  case 5
  then show ?case by (auto dest: bheight_fix_child)
qed

declare deletekey.simps [simp del]

text \<open>
  \<^verbatim>\<open>remove_key\<close>: the root shrinks when it has lost its last key; the answer is the key that case 2c noted,
  if it did.
\<close>

definition remove_key :: "('k \<Rightarrow> 'k \<Rightarrow> int) \<Rightarrow> 'k bt \<Rightarrow> 'k \<Rightarrow> ('k bt \<times> 'k) c_res" where
  "remove_key cmp btr k =
     c_bind (deletekey cmp (bt_nbits btr) (bt_t btr) (bt_root btr) k DK_NONE None) (\<lambda>(r, d, ptr).
       let b1 = btr\<lparr>bt_root := r, bt_numkeys := bt_numkeys btr - 1\<rparr>;
           ans = (case ptr of None \<Rightarrow> d | Some p \<Rightarrow> p)
       in if nkeys r = 0 \<and> \<not> leaf r then
            c_bind (kid r 0) (\<lambda>c. Inr (b1\<lparr>bt_root := c, bt_numnodes := bt_numnodes btr - 1\<rparr>, ans))
          else Inr (b1, ans))"

definition bt_delete :: "('k \<Rightarrow> 'k \<Rightarrow> int) \<Rightarrow> 'k bt \<Rightarrow> 'k \<Rightarrow> ('k bt \<times> 'k) c_res" where
  "bt_delete cmp btr k = remove_key cmp btr k"

subsection \<open>Siblings keep their keys in order\<close>

lemma merge_ok:
  assumes y: "shape t h y" "scion_ok y" and z: "shape t h z" "scion_ok z"
    and lf: "lf = leaf y \<or> lf = leaf z"
  shows "inorder (bt_merge lf y m z) = inorder y @ m # inorder z"
    and "shape t h (bt_merge lf y m z)" "scion_ok (bt_merge lf y m z)"
    and "nkeys (bt_merge lf y m z) = nkeys y + nkeys z + 1"
proof -
  obtain sy ly ky cy where ye: "y = BTN sy ly ky cy" by (cases y)
  obtain sz lz kz cz where ze: "z = BTN sz lz kz cz" by (cases z)
  have l: "lf = ly" "lz = ly" "(if lf then cy else cy @ cz) = cy @ cz"
    "(if lf then 0 else sum_scion cz) = sum_scion cz"
    using y(1) z(1) lf by (cases h; auto simp: ye ze sum_scion_def)+
  have c: "length cy = length ky + 1 \<or> cy = [] \<and> cz = []"
    using y(1) z(1) by (cases h) (simp_all add: ye ze)
  have mg: "bt_merge lf y m z = BTN (sy + 1 + of_nat (length kz) + sum_scion cz) ly (ky @ m # kz) (cy @ cz)"
    unfolding bt_merge_def using l(3,4) by (cases lf) (simp_all add: ye ze)
  show io: "inorder (bt_merge lf y m z) = inorder y @ m # inorder z"
    unfolding mg by (simp only: ye ze) (rule inorder_join [OF c])
  show "shape t h (bt_merge lf y m z)"
    using y(1) z(1) unfolding mg by (cases h) (auto simp: ye ze)
  show "nkeys (bt_merge lf y m z) = nkeys y + nkeys z + 1"
    unfolding mg by (simp add: ye ze)
  have "sum_scion cz = of_nat (sum_list (map (length \<circ> inorder) cz))"
    by (rule sum_scion_ok) (use z(2) ze in simp)
  then have "of_nat (length kz) + sum_scion cz = scion z"
    using scion_ok_scion [OF z(2)] length_inorder [of z] by (simp add: ze)
  then have "scion (bt_merge lf y m z) = of_nat (length (inorder (bt_merge lf y m z)))"
    using scion_ok_scion [OF y(2)] scion_ok_scion [OF z(2)] unfolding io unfolding mg
    by (simp add: ye add.assoc)
  then show "scion_ok (bt_merge lf y m z)"
    by (rule scion_okI) (use y(2) z(2) in \<open>unfold mg, auto simp: ye ze\<close>)
qed

lemma rotate_right_ok:
  assumes y: "shape t h y" "scion_ok y" "0 < nkeys y" and xp: "shape t h xp" "scion_ok xp"
  shows "\<exists>y' b xp' A. rotate_right m y xp = Inr (y', b, xp') \<and>
     inorder xp' = A @ inorder xp \<and> inorder y @ [m] = inorder y' @ b # A \<and> shape t h y' \<and> shape t h xp' \<and>
     nkeys y' = nkeys y - 1 \<and> nkeys xp' = nkeys xp + 1 \<and> scion_ok y' \<and> scion_ok xp'"
proof (cases h)
  case 0
  obtain sy ky sp kp where e: "y = BTN sy True ky []" "xp = BTN sp True kp []"
    using y(1) xp(1) 0 by (cases y; cases xp) auto
  obtain kb b where k: "ky = kb @ [b]" using y(3) by (cases ky rule: rev_cases) (auto simp: e)
  with y(2) xp(2) 0 show ?thesis by (simp add: rotate_right_def e)
next
  case (Suc h')
  obtain sy ky cy sp kp cp where e: "y = BTN sy False ky cy" "xp = BTN sp False kp cp"
    using y(1) xp(1) Suc by (cases y; cases xp) auto
  obtain kb b where k: "ky = kb @ [b]" using y(3) by (cases ky rule: rev_cases) (auto simp: e)
  have ly: "length cy = length kb + 2" using y(1) Suc by (simp add: e k)
  then obtain cb d where c: "cy = cb @ [d]" by (cases cy rule: rev_cases) auto
  have lb: "length cb = length kb + 1" using ly c by simp
  define y' where "y' = BTN (sy - 1 - scion d) False kb cb"
  define xp' where "xp' = BTN (sp + 1 + scion d) False (m # kp) (d # cp)"
  have r: "rotate_right m y xp = Inr (y', b, xp')"
    using lb by (simp add: rotate_right_def e k c kid_def y'_def xp'_def nth_append)
  have d: "shape t h' d" "scion_ok d" using y(1,2) Suc by (auto simp: e c)
  have ioy: "inorder y = inorder y' @ b # inorder d"
    using interleave_join [of "map inorder cb" kb "[inorder d]" b "[]"] lb by (simp add: e k c y'_def)
  have iox: "inorder xp' = inorder d @ m # inorder xp" by (simp add: xp'_def e)
  have sh: "shape t h y'" "shape t h xp'" using y(1) xp(1) lb Suc by (auto simp: e k c y'_def xp'_def)
  have sc: "scion y' = of_nat (length (inorder y'))" "scion xp' = of_nat (length (inorder xp'))"
    using scion_ok_scion [OF y(2)] scion_ok_scion [OF xp(2)] scion_ok_scion [OF d(2)] ioy iox
    by (simp_all add: y'_def xp'_def e(1,2) [THEN arg_cong [of _ _ scion]] algebra_simps del: inorder.simps)
  have "scion_ok y'" by (rule scion_okI [OF sc(1)]) (use y(2) in \<open>auto simp: y'_def e c\<close>)
  moreover have "scion_ok xp'"
    by (rule scion_okI [OF sc(2)]) (use xp(2) d(2) in \<open>auto simp: xp'_def e\<close>)
  ultimately show ?thesis
    using r sh ioy iox
    by (intro exI [of _ y'] exI [of _ b] exI [of _ xp'] exI [of _ "inorder d @ [m]"])
      (simp add: y'_def xp'_def e(1,2) k del: inorder.simps)
qed

lemma rotate_left_ok:
  assumes y: "shape t h y" "scion_ok y" "0 < nkeys y" and xp: "shape t h xp" "scion_ok xp"
  shows "\<exists>xp' b y' B. rotate_left m xp y = Inr (xp', b, y') \<and>
     inorder xp' = inorder xp @ B \<and> m # inorder y = B @ b # inorder y' \<and> shape t h y' \<and> shape t h xp' \<and>
     nkeys y' = nkeys y - 1 \<and> nkeys xp' = nkeys xp + 1 \<and> scion_ok y' \<and> scion_ok xp'"
proof (cases h)
  case 0
  obtain sy ky sp kp where e: "y = BTN sy True ky []" "xp = BTN sp True kp []"
    using y(1) xp(1) 0 by (cases y; cases xp) auto
  obtain kb b where k: "ky = b # kb" using y(3) by (cases ky) (auto simp: e)
  with y(2) xp(2) 0 show ?thesis by (simp add: rotate_left_def e)
next
  case (Suc h')
  obtain sy ky cy sp kp cp where e: "y = BTN sy False ky cy" "xp = BTN sp False kp cp"
    using y(1) xp(1) Suc by (cases y; cases xp) auto
  obtain kb b where k: "ky = b # kb" using y(3) by (cases ky) (auto simp: e)
  have ly: "length cy = length kb + 2" using y(1) Suc by (simp add: e k)
  then obtain cb d where c: "cy = d # cb" by (cases cy) auto
  have lb: "length cb = length kb + 1" using ly c by simp
  define y' where "y' = BTN (sy - 1 - scion d) False kb cb"
  define xp' where "xp' = BTN (sp + 1 + scion d) False (kp @ [m]) (cp @ [d])"
  have r: "rotate_left m xp y = Inr (xp', b, y')"
    using lb by (simp add: rotate_left_def e k c kid_def y'_def xp'_def)
  have d: "shape t h' d" "scion_ok d" using y(1,2) Suc by (auto simp: e c)
  have ioy: "inorder y = inorder d @ b # inorder y'" by (simp add: e k c y'_def)
  have "length cp = length kp + 1" using xp(1) Suc by (simp add: e)
  then have iox: "inorder xp' = inorder xp @ m # inorder d"
    using interleave_join [of "map inorder cp" kp "[inorder d]" m "[]"] by (simp add: xp'_def e)
  have sh: "shape t h y'" "shape t h xp'" using y(1) xp(1) lb Suc by (auto simp: e k c y'_def xp'_def)
  have sc: "scion y' = of_nat (length (inorder y'))" "scion xp' = of_nat (length (inorder xp'))"
    using scion_ok_scion [OF y(2)] scion_ok_scion [OF xp(2)] scion_ok_scion [OF d(2)] ioy iox
    by (simp_all add: y'_def xp'_def e(1,2) [THEN arg_cong [of _ _ scion]] algebra_simps del: inorder.simps)
  have "scion_ok y'" by (rule scion_okI [OF sc(1)]) (use y(2) in \<open>auto simp: y'_def e c\<close>)
  moreover have "scion_ok xp'"
    by (rule scion_okI [OF sc(2)]) (use xp(2) d(2) in \<open>auto simp: xp'_def e\<close>)
  ultimately show ?thesis
    using r sh ioy iox
    by (intro exI [of _ xp'] exI [of _ b] exI [of _ y'] exI [of _ "m # inorder d"])
      (simp add: y'_def xp'_def e(1,2) k del: inorder.simps)
qed


text \<open>The children of a node, and what the deletion may rely on before it descends.\<close>

definition kid_ok :: "nat \<Rightarrow> nat \<Rightarrow> 'k btn \<Rightarrow> bool" where
  "kid_ok t h c \<longleftrightarrow> shape t h c \<and> t - 1 \<le> nkeys c \<and> nkeys c \<le> GETN t \<and> scion_ok c"

definition refilled :: "nat \<Rightarrow> nat \<Rightarrow> 'k list \<Rightarrow> 'k list \<Rightarrow> 'k btn list \<Rightarrow> 'k btn \<Rightarrow> 'k btn list \<Rightarrow>
    'k list \<Rightarrow> 'k list \<Rightarrow> 'k btn list \<Rightarrow> 'k btn \<Rightarrow> 'k btn list \<Rightarrow> bool" where
  "refilled t h kl kr cl c cr kl' kr' cl' c' cr' \<longleftrightarrow>
     length cl' = length kl' \<and> length kr' = length cr' \<and> (\<forall>d \<in> set (cl' @ c' # cr'). kid_ok t h d) \<and>
     t \<le> nkeys c' \<and> length (kl' @ kr') \<le> length (kl @ kr) \<and> length (kl @ kr) \<le> length (kl' @ kr') + 1 \<and>
     (\<exists>A B. inorder c' = A @ inorder c @ B \<and> (kr = [] \<longrightarrow> kr' = [] \<and> B = []) \<and>
        (kl = [] \<longrightarrow> kl' = [] \<and> A = []) \<and>
        il_pre (map inorder cl') kl' @ A = il_pre (map inorder cl) kl \<and>
        B @ il_post kr' (map inorder cr') = il_post kr (map inorder cr))"

lemma case_3a1_ok:
  fixes m and s :: uint32 and l :: bool
  assumes len: "length cl = length kl" "length kr = length cr"
    and ok: "\<forall>d \<in> set (cl @ y # c # cr). kid_ok t h d" and t: "2 \<le> t"
    and n: "nkeys c = t - 1" "t \<le> nkeys y"
  defines "x \<equiv> BTN s l ((kl @ [m]) @ kr) ((cl @ [y]) @ c # cr)"
  shows "\<exists>b y' c'. case_3a1 x (length kl + 1) c =
      Inr (BTN s l ((kl @ [b]) @ kr) ((cl @ [y']) @ c' # cr), length (kl @ [b]), c') \<and>
      refilled t h (kl @ [m]) kr (cl @ [y]) c cr (kl @ [b]) kr (cl @ [y']) c' cr"
proof -
  have y: "shape t h y" "scion_ok y" "0 < nkeys y" "nkeys y \<le> GETN t"
    and c: "shape t h c" "scion_ok c"
    using ok n t by (auto simp: kid_ok_def)
  obtain y' b c' A where r: "rotate_right m y c = Inr (y', b, c')" "inorder c' = A @ inorder c"
    "inorder y @ [m] = inorder y' @ b # A" "shape t h y'" "shape t h c'" "nkeys y' = nkeys y - 1"
    "nkeys c' = nkeys c + 1" "scion_ok y'" "scion_ok c'"
    using rotate_right_ok [OF y(1-3) c, of m] by blast
  have "kid_ok t h y'" "kid_ok t h c'" "t \<le> nkeys c'"
    using r y n t by (auto simp: kid_ok_def GETN_def)
  moreover have "case_3a1 x (length kl + 1) c =
      Inr (BTN s l ((kl @ [b]) @ kr) ((cl @ [y']) @ c' # cr), length (kl @ [b]), c')"
    using len r(1) by (simp add: case_3a1_def x_def kid_def nth_append list_update_append)
  ultimately show ?thesis
    using ok len r(2,3) by (auto simp: refilled_def intro!: exI [of _ A] exI [of _ "[]"] exI [of _ b])
qed

lemma case_3a2_ok:
  fixes m and s :: uint32 and l :: bool
  assumes len: "length cl = length kl" "length kr = length cr"
    and ok: "\<forall>d \<in> set (cl @ c # y # cr). kid_ok t h d" and t: "2 \<le> t"
    and n: "nkeys c = t - 1" "t \<le> nkeys y"
  defines "x \<equiv> BTN s l (kl @ m # kr) (cl @ c # y # cr)"
  shows "\<exists>b y' c'. case_3a2 x (length kl) c =
      Inr (BTN s l (kl @ b # kr) (cl @ c' # y' # cr), length kl, c') \<and>
      refilled t h kl (m # kr) cl c (y # cr) kl (b # kr) cl c' (y' # cr)"
proof -
  have y: "shape t h y" "scion_ok y" "0 < nkeys y" "nkeys y \<le> GETN t"
    and c: "shape t h c" "scion_ok c"
    using ok n t by (auto simp: kid_ok_def)
  obtain c' b y' B where r: "rotate_left m c y = Inr (c', b, y')" "inorder c' = inorder c @ B"
    "m # inorder y = B @ b # inorder y'" "shape t h y'" "shape t h c'" "nkeys y' = nkeys y - 1"
    "nkeys c' = nkeys c + 1" "scion_ok y'" "scion_ok c'"
    using rotate_left_ok [OF y(1-3) c, of m] by blast
  have "kid_ok t h y'" "kid_ok t h c'" "t \<le> nkeys c'"
    using r y n t by (auto simp: kid_ok_def GETN_def)
  moreover have "case_3a2 x (length kl) c =
      Inr (BTN s l (kl @ b # kr) (cl @ c' # y' # cr), length kl, c')"
    using len r(1) by (simp add: case_3a2_def x_def kid_def nth_append list_update_append)
  ultimately show ?thesis
    using ok len r(2,3) by (auto simp: refilled_def intro!: exI [of _ "[]"] exI [of _ B] exI [of _ b])
qed

lemma case_3b1_ok:
  fixes m and s :: uint32 and l :: bool
  assumes len: "length cl = length kl" "length kr = length cr"
    and ok: "\<forall>d \<in> set (cl @ y # c # cr). kid_ok t h d" and t: "2 \<le> t"
    and n: "nkeys c = t - 1" "nkeys y = t - 1"
  defines "x \<equiv> BTN s l ((kl @ [m]) @ kr) ((cl @ [y]) @ c # cr)"
  shows "\<exists>c'. case_3b1 x (length kl + 1) c = Inr (BTN s l (kl @ kr) (cl @ c' # cr), length kl, c') \<and>
      refilled t h (kl @ [m]) kr (cl @ [y]) c cr kl kr cl c' cr"
proof -
  have k: "shape t h y" "scion_ok y" "shape t h c" "scion_ok c"
    using ok by (auto simp: kid_ok_def)
  let ?c = "bt_merge (leaf c) y m c"
  note mg = merge_ok [OF k, of "leaf c" m]
  have "kid_ok t h ?c" "t \<le> nkeys ?c" using mg n t by (auto simp: kid_ok_def GETN_def)
  moreover have "case_3b1 x (length kl + 1) c = Inr (BTN s l (kl @ kr) (cl @ ?c # cr), length kl, ?c)"
    using len by (simp add: case_3b1_def x_def kid_def nth_append Let_def)
  ultimately show ?thesis
    using ok len mg(1) by (auto simp: refilled_def intro!: exI [of _ "inorder y @ [m]"] exI [of _ "[]"])
qed

lemma case_3b2_ok:
  fixes m and s :: uint32 and l :: bool
  assumes len: "length cl = length kl" "length kr = length cr"
    and ok: "\<forall>d \<in> set (cl @ c # y # cr). kid_ok t h d" and t: "2 \<le> t"
    and n: "nkeys c = t - 1" "nkeys y = t - 1"
  defines "x \<equiv> BTN s l (kl @ m # kr) (cl @ c # y # cr)"
  shows "\<exists>c'. case_3b2 x (length kl) c = Inr (BTN s l (kl @ kr) (cl @ c' # cr), length kl, c') \<and>
      refilled t h kl (m # kr) cl c (y # cr) kl kr cl c' cr"
proof -
  have k: "shape t h c" "scion_ok c" "shape t h y" "scion_ok y"
    using ok by (auto simp: kid_ok_def)
  let ?c = "bt_merge (leaf c) c m y"
  note mg = merge_ok [OF k, of "leaf c" m]
  have "kid_ok t h ?c" "t \<le> nkeys ?c" using mg n t by (auto simp: kid_ok_def GETN_def)
  moreover have "case_3b2 x (length kl) c = Inr (BTN s l (kl @ kr) (cl @ ?c # cr), length kl, ?c)"
    using len by (simp add: case_3b2_def x_def kid_def nth_append Let_def)
  ultimately show ?thesis
    using ok len mg(1) by (auto simp: refilled_def intro!: exI [of _ "[]"] exI [of _ "m # inorder y"])
qed


lemma fix_child_ok:
  assumes len: "length cl = length kl" "length kr = length cr"
    and ok: "\<forall>d \<in> set (cl @ c # cr). kid_ok t h d" and t: "2 \<le> t" and ne: "kl @ kr \<noteq> []"
  shows "\<exists>kl' kr' cl' c' cr'. fix_child t (BTN s l (kl @ kr) (cl @ c # cr)) (length kl) c =
      Inr (BTN s l (kl' @ kr') (cl' @ c' # cr'), length kl', c') \<and>
      refilled t h kl kr cl c cr kl' kr' cl' c' cr'"
proof -
  let ?x = "BTN s l (kl @ kr) (cl @ c # cr)"
  have lo: "nkeys d = t - 1 \<or> t \<le> nkeys d" if "d \<in> set (cl @ c # cr)" for d
    using ok that t by (fastforce simp: kid_ok_def)
  consider (stay) "nkeys c \<noteq> t - 1"
    | (left) kl0 m cl0 y where "nkeys c = t - 1" "kl = kl0 @ [m]" "cl = cl0 @ [y]"
        "t \<le> nkeys y"
    | (right) m y kr0 cr0 where "nkeys c = t - 1" "kr = m # kr0" "cr = y # cr0" "t \<le> nkeys y"
        "cl = [] \<or> (\<exists>cl0 z. cl = cl0 @ [z] \<and> nkeys z = t - 1)"
    | (mleft) kl0 m cl0 y where "nkeys c = t - 1" "kl = kl0 @ [m]" "cl = cl0 @ [y]"
        "nkeys y = t - 1" "kr = [] \<or> (\<exists>z cr0. cr = z # cr0 \<and> nkeys z = t - 1)"
    | (mright) m y kr0 cr0 where "nkeys c = t - 1" "kl = []" "kr = m # kr0" "cr = y # cr0"
        "nkeys y = t - 1"
    using ne len lo by (cases kl rule: rev_cases; cases cl rule: rev_cases; cases kr; cases cr) force+
  then show ?thesis
  proof cases
    case stay
    then have "t \<le> nkeys c" using lo by auto
    then have "refilled t h kl kr cl c cr kl kr cl c cr"
      using len ok by (auto simp: refilled_def)
    with stay show ?thesis by (auto simp: fix_child_def)
  next
    case left
    have "fix_child t ?x (length kl) c = case_3a1 ?x (length kl0 + 1) c"
      using left len by (simp add: fix_child_def nth_append)
    moreover obtain b y' c' where "case_3a1 ?x (length kl0 + 1) c =
        Inr (BTN s l ((kl0 @ [b]) @ kr) ((cl0 @ [y']) @ c' # cr), length (kl0 @ [b]), c')"
      "refilled t h kl kr cl c cr (kl0 @ [b]) kr (cl0 @ [y']) c' cr"
      using case_3a1_ok [of cl0 kl0 kr cr y c t h s l m] left len ok t by auto
    ultimately show ?thesis by metis
  next
    case right
    have "fix_child t ?x (length kl) c = case_3a2 ?x (length kl) c"
      using right len(2) t by (auto simp: fix_child_def nth_append len(1) [symmetric])
    moreover obtain b y' c' where "case_3a2 ?x (length kl) c =
        Inr (BTN s l (kl @ b # kr0) (cl @ c' # y' # cr0), length kl, c')"
      "refilled t h kl kr cl c cr kl (b # kr0) cl c' (y' # cr0)"
      using case_3a2_ok [of cl kl kr0 cr0 c y t h s l m] right(1-4) len ok t by auto
    ultimately show ?thesis by metis
  next
    case mleft
    have "fix_child t ?x (length kl) c = case_3b1 ?x (length kl0 + 1) c"
      using mleft len t by (auto simp: fix_child_def nth_append)
    moreover obtain c' where "case_3b1 ?x (length kl0 + 1) c =
        Inr (BTN s l (kl0 @ kr) (cl0 @ c' # cr), length kl0, c')"
      "refilled t h kl kr cl c cr kl0 kr cl0 c' cr"
      using case_3b1_ok [of cl0 kl0 kr cr y c t h s l m] mleft(1-4) len ok t by auto
    ultimately show ?thesis by metis
  next
    case mright
    have "fix_child t ?x (length kl) c = case_3b2 ?x (length kl) c"
      using mright len t by (auto simp: fix_child_def)
    moreover obtain c' where "case_3b2 ?x (length kl) c =
        Inr (BTN s l (kl @ kr0) (cl @ c' # cr0), length kl, c')"
      "refilled t h kl kr cl c cr kl kr0 cl c' cr0"
      using case_3b2_ok [of cl kl kr0 cr0 c y t h s l m] mright len ok t by auto
    ultimately show ?thesis by metis
  qed
qed

subsection \<open>Deletion removes exactly the key\<close>

definition del_target :: "('k \<Rightarrow> 'o::linorder) \<Rightarrow> dk_mode \<Rightarrow> 'k \<Rightarrow> 'k list \<Rightarrow> 'k \<Rightarrow> 'k list \<Rightarrow> bool" where
  "del_target ord s k us e vs \<longleftrightarrow>
     (case s of DK_NONE \<Rightarrow> ord e = ord k | DK_2A \<Rightarrow> vs = [] | DK_2B \<Rightarrow> us = [])"

definition del_post :: "nat \<Rightarrow> nat \<Rightarrow> dk_mode \<Rightarrow> 'k btn \<Rightarrow> 'k list \<Rightarrow> 'k \<Rightarrow> 'k list \<Rightarrow> 'k option \<Rightarrow>
    'k btn \<times> 'k \<times> 'k option \<Rightarrow> bool" where
  "del_post t h s x us e vs ptr r \<longleftrightarrow> (case r of (x', d, ptr') \<Rightarrow>
     shape t h x' \<and> scion_ok x' \<and> nkeys x' \<le> nkeys x \<and> nkeys x \<le> nkeys x' + 1 \<and>
     inorder x' = us @ vs \<and> (ptr \<noteq> None \<longrightarrow> ptr' = ptr) \<and> (s \<noteq> DK_NONE \<longrightarrow> ptr' = ptr \<and> d = e) \<and>
     (ptr = None \<longrightarrow> (case ptr' of None \<Rightarrow> d | Some p \<Rightarrow> p) = e))"

lemma key_pos_found:
  assumes "sorted_by ord (us @ e # vs)" "ord e = ord k"
  shows "key_pos ord (us @ e # vs) k = length us + 1"
proof -
  have "takeWhile (\<lambda>e. ord e \<le> ord k) vs = []"
    using assms by (cases vs) (auto simp: not_le)
  moreover have "\<forall>x \<in> set us. ord x \<le> ord k" using assms by (auto intro: less_imp_le)
  ultimately show ?thesis using assms(2) by (simp add: key_pos_def)
qed

lemma sorted_split_unique:
  assumes "sorted_by ord (us @ e # vs)" "us @ e # vs = us' @ e' # vs'" "ord e = ord e'"
  shows "us = us' \<and> e = e' \<and> vs = vs'"
proof -
  have "key_pos ord (us @ e # vs) e = length us + 1"
    by (rule key_pos_found [OF assms(1) refl])
  moreover have "key_pos ord (us' @ e' # vs') e = length us' + 1"
    using assms by (intro key_pos_found) simp_all
  ultimately have "length us = length us'" using assms(2) by simp
  with assms(2) show ?thesis by simp
qed

lemma del_post_inner:
  assumes len: "length cl = length kl" "length kr = length cr"
    and ok: "\<forall>d \<in> set (cl @ c # cr). kid_ok t h d"
    and n: "length (kl @ kr) \<le> nkeys x" "nkeys x \<le> length (kl @ kr) + 1"
    and x: "scion_ok x" "inorder x = us @ e # vs"
    and io: "il_pre (map inorder cl) kl @ inorder c @ il_post kr (map inorder cr) = us @ vs"
    and ptr: "ptr \<noteq> None \<Longrightarrow> ptr' = ptr" "s \<noteq> DK_NONE \<Longrightarrow> ptr' = ptr \<and> d = e"
      "ptr = None \<Longrightarrow> (case ptr' of None \<Rightarrow> d | Some p \<Rightarrow> p) = e"
  shows "del_post t (Suc h) s x us e vs ptr (BTN (scion x - 1) False (kl @ kr) (cl @ c # cr), d, ptr')"
proof -
  let ?x = "BTN (scion x - 1) False (kl @ kr) (cl @ c # cr)"
  have iox: "inorder ?x = us @ vs" unfolding inorder_view [OF len] by (rule io)
  have "scion ?x = of_nat (length (inorder ?x))"
    unfolding iox using scion_ok_scion [OF x(1)] x(2) by simp
  then have "scion_ok ?x" by (rule scion_okI) (use ok in \<open>auto simp: kid_ok_def\<close>)
  moreover have "shape t (Suc h) ?x" using ok len by (auto simp: kid_ok_def)
  ultimately show ?thesis using n iox ptr by (simp add: del_post_def del: inorder.simps)
qed

lemma nkeys_inorder: "0 < nkeys x \<Longrightarrow> inorder x \<noteq> []"
  using length_inorder [of x] by force

context bt_order
begin

lemma delete_leaf:
  assumes w: "nbits = 2 ^ Suc m'" and b: "GETN t \<le> 2 ^ nbits"
    and x: "shape t 0 x" "scion_ok x" "nkeys x \<le> GETN t" "sorted_by ord (inorder x)"
    and e: "inorder x = us @ e # vs" "del_target ord s k us e vs"
  shows "\<exists>r. deletekey cmp nbits t x k s ptr = Inr r \<and> del_post t 0 s x us e vs ptr r"
proof -
  obtain sc ks where xe: "x = BTN sc True ks []" using x(1) by (cases x) auto
  then have ks: "ks = us @ e # vs" using e(1) by simp
  have "fst (findkindex cmp nbits ks k) = int (key_pos ord ks k) - 1"
    using x b xe by (intro findkindex_pos(1) [OF _ w]) auto
  moreover have "key_pos ord ks k = length us + 1" if "s = DK_NONE"
    using key_pos_found [of ord us e vs k] x(4) e that by (simp add: ks del_target_def)
  ultimately have i: "(let i = fst (del_pos cmp nbits x k s) in if s = DK_2B then i + 1 else i) = int (length us)"
    using e(2) by (cases s) (auto simp: del_pos_def xe ks del_target_def Let_def split: prod.splits)
  have "deletekey cmp nbits t x k s ptr = Inr (BTN (sc - 1) True (us @ vs) [], e, ptr)"
    using i by (subst deletekey.simps)
      (simp add: leaf_remove_def xe ks split_def Let_def)
  moreover have "sc - 1 = of_nat (length (us @ vs))" using x(2) by (simp add: xe ks)
  ultimately show ?thesis by (simp add: del_post_def xe ks)
qed

lemma delete_descend:
  assumes t: "2 \<le> t" and len: "length cl = length kl" "length kr = length cr"
    and x: "x = BTN sx False (kl @ kr) (cl @ c # cr)"
    and ok: "\<forall>d \<in> set (cl @ c # cr). kid_ok t h d" and ne: "0 < nkeys x"
    and sx: "scion_ok x" "sorted_by ord (inorder x)" "inorder x = us @ e # vs"
    and pos: "del_pos cmp nbits x k s = (int (length kl) - 1, r)" "r \<noteq> 0"
    and tg: "inorder c = us' @ e # vs'" "del_target ord s k us' e vs'"
    and ends: "s = DK_2A \<Longrightarrow> kr = []" "s = DK_2B \<Longrightarrow> kl = []"
    and IH: "\<And>x s us e vs ptr. shape t h x \<Longrightarrow> scion_ok x \<Longrightarrow> t \<le> nkeys x \<Longrightarrow> nkeys x \<le> GETN t \<Longrightarrow>
      sorted_by ord (inorder x) \<Longrightarrow> inorder x = us @ e # vs \<Longrightarrow> del_target ord s k us e vs \<Longrightarrow>
      \<exists>r. deletekey cmp nbits t x k s ptr = Inr r \<and> del_post t h s x us e vs ptr r"
  shows "\<exists>r. deletekey cmp nbits t x k s ptr = Inr r \<and> del_post t (Suc h) s x us e vs ptr r"
proof -
  have "kl @ kr \<noteq> []" using ne x by auto
  then obtain kl' kr' cl' c' cr' where
    fc: "fix_child t x (length kl) c = Inr (BTN sx False (kl' @ kr') (cl' @ c' # cr'), length kl', c')"
    and rf: "refilled t h kl kr cl c cr kl' kr' cl' c' cr'"
    unfolding x using fix_child_ok [OF len ok t] by blast
  from rf obtain A B where AB: "inorder c' = A @ inorder c @ B" "kr = [] \<longrightarrow> kr' = [] \<and> B = []"
    "kl = [] \<longrightarrow> kl' = [] \<and> A = []" "il_pre (map inorder cl') kl' @ A = il_pre (map inorder cl) kl"
    "B @ il_post kr' (map inorder cr') = il_post kr (map inorder cr)" by (auto simp: refilled_def)
  have rl: "length cl' = length kl'" "length kr' = length cr'" "\<forall>d \<in> set (cl' @ c' # cr'). kid_ok t h d"
    "t \<le> nkeys c'" "length (kl' @ kr') \<le> length (kl @ kr)" "length (kl @ kr) \<le> length (kl' @ kr') + 1"
    using rf by (simp_all add: refilled_def)
  have iox: "inorder x = il_pre (map inorder cl) kl @ inorder c @ il_post kr (map inorder cr)"
    unfolding x by (rule inorder_view [OF len])
  have split: "us = il_pre (map inorder cl) kl @ us'" "vs = vs' @ il_post kr (map inorder cr)"
  proof -
    have "us @ e # vs = (il_pre (map inorder cl) kl @ us') @ e # (vs' @ il_post kr (map inorder cr))"
      unfolding sx(3) [symmetric] iox tg(1) by simp
    from sorted_split_unique [OF sx(2) [unfolded sx(3)] this] show
      "us = il_pre (map inorder cl) kl @ us'" "vs = vs' @ il_post kr (map inorder cr)" by simp_all
  qed
  have ioc: "inorder c' = (A @ us') @ e # (vs' @ B)" using AB(1) tg(1) by simp
  have "sorted_by ord (inorder c')"
    using sx(2) unfolding iox AB(4,5) [symmetric] AB(1) by auto
  moreover have "del_target ord s k (A @ us') e (vs' @ B)"
    using tg(2) ends AB(2,3) by (cases s) (auto simp: del_target_def)
  ultimately obtain c2 d ptr' where del: "deletekey cmp nbits t c' k s ptr = Inr (c2, d, ptr')"
    "del_post t h s c' (A @ us') e (vs' @ B) ptr (c2, d, ptr')"
    using IH [OF _ _ rl(4) _ _ ioc, of s ptr] rl(3) by (auto simp: kid_ok_def)
  have eq: "deletekey cmp nbits t x k s ptr =
      Inr (BTN (scion x - 1) False (kl' @ kr') (cl' @ c2 # cr'), d, ptr')"
    using fc pos len rl(1) del(1)
    by (subst deletekey.simps) (simp add: x)
  have c2: "kid_ok t h c2" "inorder c2 = A @ us' @ vs' @ B"
    using del(2) rl(3,4) by (auto simp: del_post_def kid_ok_def)
  have "del_post t (Suc h) s x us e vs ptr (BTN (scion x - 1) False (kl' @ kr') (cl' @ c2 # cr'), d, ptr')"
  proof (rule del_post_inner [OF rl(1,2)])
    show "\<forall>d \<in> set (cl' @ c2 # cr'). kid_ok t h d" using rl(3) c2(1) by auto
    show "il_pre (map inorder cl') kl' @ inorder c2 @ il_post kr' (map inorder cr') = us @ vs"
      unfolding c2(2) split AB(4,5) [symmetric] by simp
  qed (use sx rl(5,6) del(2) in \<open>auto simp: x del_post_def simp del: inorder.simps\<close>)
  with eq show ?thesis by blast
qed

end

context bt_order
begin

lemma delete_found:
  assumes t: "2 \<le> t" and len: "length cl = length kl" "length kr = length cr"
    and x: "x = BTN sx False (kl @ m # kr) (cl @ y # z # cr)"
    and ok: "\<forall>d \<in> set (cl @ y # z # cr). kid_ok t h d"
    and sx: "scion_ok x" "sorted_by ord (inorder x)" "inorder x = us @ e # vs"
    and pos: "del_pos cmp nbits x k DK_NONE = (int (length kl), 0)"
    and m: "ord m = ord k" "ord e = ord k"
    and IH: "\<And>x s us e vs ptr. shape t h x \<Longrightarrow> scion_ok x \<Longrightarrow> t \<le> nkeys x \<Longrightarrow> nkeys x \<le> GETN t \<Longrightarrow>
      sorted_by ord (inorder x) \<Longrightarrow> inorder x = us @ e # vs \<Longrightarrow> del_target ord s k us e vs \<Longrightarrow>
      \<exists>r. deletekey cmp nbits t x k s ptr = Inr r \<and> del_post t h s x us e vs ptr r"
  shows "\<exists>r. deletekey cmp nbits t x k DK_NONE ptr = Inr r \<and> del_post t (Suc h) DK_NONE x us e vs ptr r"
proof -
  let ?P = "il_pre (map inorder cl) kl" and ?Q = "il_post kr (map inorder cr)"
  have iox: "inorder x = (?P @ inorder y) @ m # (inorder z @ ?Q)"
    unfolding x using inorder_view [of cl kl "m # kr" "z # cr"] len by simp
  from sorted_split_unique [OF sx(2) [unfolded sx(3)], of "?P @ inorder y" m "inorder z @ ?Q"] sx(3) iox m
  have sp: "us = ?P @ inorder y" "e = m" "vs = inorder z @ ?Q" by simp_all
  have y: "shape t h y" "scion_ok y" "nkeys y \<le> GETN t" "t - 1 \<le> nkeys y"
    and z: "shape t h z" "scion_ok z" "nkeys z \<le> GETN t" "t - 1 \<le> nkeys z"
    using ok by (simp_all add: kid_ok_def)
  have srt: "sorted_by ord (inorder y)" "sorted_by ord (inorder z)"
    "\<forall>a \<in> set (inorder y). ord a < ord k" "\<forall>a \<in> set (inorder z). ord k < ord a"
    "\<forall>a \<in> set (inorder y). \<forall>b \<in> set (inorder z). ord a < ord b"
    using sx(2) m(1) unfolding iox by auto
  consider (a) "t \<le> nkeys y" | (b) "\<not> t \<le> nkeys y" "t \<le> nkeys z" | (c) "nkeys y = t - 1" "nkeys z = t - 1"
    using y(4) z(4) by linarith
  then show ?thesis
  proof cases
    case a
    then have "inorder y \<noteq> []" using t by (intro nkeys_inorder) simp
    then obtain u w where u: "inorder y = u @ w # []" by (metis rev_exhaust)
    obtain y' d ptr' where r: "deletekey cmp nbits t y k DK_2A ptr = Inr (y', d, ptr')"
      "del_post t h DK_2A y u w [] ptr (y', d, ptr')"
      using IH [OF y(1,2) a y(3) srt(1) u, of DK_2A ptr] by (auto simp: del_target_def)
    then have d: "d = w" "ptr' = ptr" "inorder y' = u" "kid_ok t h y'"
      using a y(3) by (auto simp: del_post_def kid_ok_def)
    have eq: "deletekey cmp nbits t x k DK_NONE ptr =
        Inr (BTN (scion x - 1) False (kl @ w # kr) (cl @ y' # z # cr), m, ptr)"
      using pos len a r(1) d by (subst deletekey.simps) (simp add: x c_read_def)
    have "del_post t (Suc h) DK_NONE x us e vs ptr
        (BTN (scion x - 1) False (kl @ w # kr) (cl @ y' # z # cr), m, ptr)"
      by (rule del_post_inner) (use len ok d sx sp u in \<open>auto simp: x simp del: inorder.simps scion_ok.simps\<close>)
    with eq show ?thesis by blast
  next
    case b
    then have "inorder z \<noteq> []" using t by (intro nkeys_inorder) simp
    then obtain u w where u: "inorder z = [] @ w # u" by (metis append_Nil neq_Nil_conv)
    obtain z' d ptr' where r: "deletekey cmp nbits t z k DK_2B ptr = Inr (z', d, ptr')"
      "del_post t h DK_2B z [] w u ptr (z', d, ptr')"
      using IH [OF z(1,2) b(2) z(3) srt(2) u, of DK_2B ptr] by (auto simp: del_target_def)
    then have d: "d = w" "ptr' = ptr" "inorder z' = u" "kid_ok t h z'"
      using b z(3) by (auto simp: del_post_def kid_ok_def)
    have eq: "deletekey cmp nbits t x k DK_NONE ptr =
        Inr (BTN (scion x - 1) False ((kl @ [w]) @ kr) ((cl @ [y]) @ z' # cr), m, ptr)"
      using pos len b r(1) d by (subst deletekey.simps)
        (simp add: x c_read_def kid_def nth_append list_update_append)
    have "del_post t (Suc h) DK_NONE x us e vs ptr
        (BTN (scion x - 1) False ((kl @ [w]) @ kr) ((cl @ [y]) @ z' # cr), m, ptr)"
      by (rule del_post_inner) (use len ok d sx sp u in \<open>auto simp: x simp del: inorder.simps scion_ok.simps\<close>)
    with eq show ?thesis by blast
  next
    case c
    let ?yz = "bt_merge (leaf y) y k z"
    let ?ptr = "if ptr = None then Some m else ptr"
    note mg = merge_ok [OF y(1,2) z(1,2), of "leaf y" k]
    have nt: "\<not> t \<le> nkeys y" "\<not> t \<le> nkeys z" using c t by simp_all
    have n: "t \<le> nkeys ?yz" "nkeys ?yz \<le> GETN t" using mg c t by (auto simp: GETN_def)
    have "sorted_by ord (inorder ?yz)" using srt by (simp add: mg)
    then obtain y' d ptr' where r: "deletekey cmp nbits t ?yz k DK_NONE ?ptr = Inr (y', d, ptr')"
      "del_post t h DK_NONE ?yz (inorder y) k (inorder z) ?ptr (y', d, ptr')"
      using IH [OF _ _ n _ mg(1), of DK_NONE ?ptr] mg by (auto simp: del_target_def)
    then have d: "ptr' = ?ptr" "inorder y' = inorder y @ inorder z" "kid_ok t h y'"
      using n by (auto simp: del_post_def kid_ok_def split: if_splits)
    have eq: "deletekey cmp nbits t x k DK_NONE ptr =
        Inr (BTN (scion x - 1) False (kl @ kr) (cl @ y' # cr), d, ptr')"
      using pos len c nt r(1) by (subst deletekey.simps)
        (simp add: x c_read_def kid_def nth_append Let_def del: not_le)
    have "del_post t (Suc h) DK_NONE x us e vs ptr
        (BTN (scion x - 1) False (kl @ kr) (cl @ y' # cr), d, ptr')"
      by (rule del_post_inner) (use len ok d sx sp in \<open>auto simp: x simp del: inorder.simps scion_ok.simps\<close>)
    with eq show ?thesis by blast
  qed
qed

text \<open>The descent of a maximum or minimum deletion goes to the last or first child.\<close>

lemma delete_ends:
  assumes t: "2 \<le> t" and x: "shape t (Suc h) x" "scion_ok x" "0 < nkeys x" "sorted_by ord (inorder x)"
    and e: "inorder x = us @ e # vs" "del_target ord s k us e vs" "s \<noteq> DK_NONE"
  obtains sx kl kr cl c cr us' vs' r where "x = BTN sx False (kl @ kr) (cl @ c # cr)"
    "length cl = length kl" "length kr = length cr"
    "del_pos cmp nbits x k s = (int (length kl) - 1, r)" "r \<noteq> 0"
    "inorder c = us' @ e # vs'" "del_target ord s k us' e vs'"
    "s = DK_2A \<Longrightarrow> kr = []" "s = DK_2B \<Longrightarrow> kl = []"
proof (cases s)
  case DK_NONE
  with e(3) show ?thesis by simp
next
  case DK_2A
  have "length (bkids x) = nkeys x + 1" using x(1) by simp
  then obtain sx l kl cl c where v: "x = BTN sx l kl (cl @ [c])" "length cl = length kl"
    "inorder x = il_pre (map inorder cl) kl @ inorder c" by (rule last_view)
  have "0 < nkeys c" using x(1) t unfolding v(1) by force
  then obtain u w where u: "inorder c = u @ [w]" by (metis nkeys_inorder rev_exhaust)
  with v(3) e(1,2) DK_2A have "w = e" by (simp add: del_target_def)
  with u v x(1) DK_2A show ?thesis
    by (intro that [of sx kl "[]" cl c "[]" 1 u "[]"]) (simp_all add: del_pos_def del_target_def)
next
  case DK_2B
  have "length (bkids x) = nkeys x + 1" using x(1) by simp
  then obtain sx l kr c cr where v: "x = BTN sx l kr (c # cr)" "length kr = length cr"
    "inorder x = inorder c @ il_post kr (map inorder cr)" by (rule first_view)
  have "0 < nkeys c" using x(1) t unfolding v(1) by force
  then obtain u w where u: "inorder c = w # u" by (metis nkeys_inorder neq_Nil_conv)
  with v(3) e(1,2) DK_2B have "w = e" by (simp add: del_target_def)
  with u v x(1) DK_2B show ?thesis
    by (intro that [of sx "[]" kr "[]" c cr "- 1" "[]" u]) (simp_all add: del_pos_def del_target_def)
qed

lemma deletekey_ok:
  assumes w: "nbits = 2 ^ Suc m'" and t: "2 \<le> t" and b: "GETN t \<le> 2 ^ nbits"
    and "shape t h x" "scion_ok x" "0 < h \<longrightarrow> 0 < nkeys x" "nkeys x \<le> GETN t"
    and "sorted_by ord (inorder x)" "inorder x = us @ e # vs" "del_target ord s k us e vs"
  shows "\<exists>r. deletekey cmp nbits t x k s ptr = Inr r \<and> del_post t h s x us e vs ptr r"
  using assms(4-10)
proof (induction h arbitrary: x s us e vs ptr)
  case 0
  then show ?case using delete_leaf [OF w b] by blast
next
  case (Suc h)
  have IH: "\<exists>r. deletekey cmp nbits t x k s ptr = Inr r \<and> del_post t h s x us e vs ptr r"
    if "shape t h x" "scion_ok x" "t \<le> nkeys x" "nkeys x \<le> GETN t" "sorted_by ord (inorder x)"
      "inorder x = us @ e # vs" "del_target ord s k us e vs" for x s us e vs ptr
    using Suc.IH [of x us e vs s ptr] that t by auto
  have ne: "0 < nkeys x" using Suc.prems(3) by simp
  show ?case
  proof (cases "s = DK_NONE")
    case False
    from delete_ends [OF t Suc.prems(1,2) ne Suc.prems(5-7) False] obtain sx kl kr cl c cr us' vs' r where
      v: "x = BTN sx False (kl @ kr) (cl @ c # cr)" "length cl = length kl" "length kr = length cr"
      "del_pos cmp nbits x k s = (int (length kl) - 1, r)" "r \<noteq> 0"
      "inorder c = us' @ e # vs'" "del_target ord s k us' e vs'"
      "s = DK_2A \<Longrightarrow> kr = []" "s = DK_2B \<Longrightarrow> kl = []" by metis
    have ok: "\<forall>d \<in> set (cl @ c # cr). kid_ok t h d"
      using Suc.prems(1,2) by (auto simp: v(1) kid_ok_def)
    show ?thesis by (rule delete_descend [OF t v(2,3,1) ok ne Suc.prems(2,5,6) v(4-9) IH])
  next
    case None: True
    then have ek: "ord e = ord k" using Suc.prems(7) by (simp add: del_target_def)
    have nk: "nkeys x \<le> 2 ^ nbits" using Suc.prems(4) b by simp
    obtain sx kl kr cl c cr r where v: "x = BTN sx False (kl @ kr) (cl @ c # cr)"
      "length cl = length kl" "length kr = length cr"
      "findkindex cmp nbits (kl @ kr) k = (int (length kl) - 1, r)"
      "r = Some 0 \<longleftrightarrow> kl \<noteq> [] \<and> ord (last kl) = ord k"
      "\<And>e. r \<noteq> Some 0 \<Longrightarrow> e \<in> set (il_pre (map inorder cl) kl) \<Longrightarrow> ord e < ord k"
      "\<And>e. e \<in> set (il_post kr (map inorder cr)) \<Longrightarrow> ord k < ord e"
      using descend_view [OF w Suc.prems(1) nk Suc.prems(5), of k] by blast
    have ok: "\<forall>d \<in> set (cl @ c # cr). kid_ok t h d"
      using Suc.prems(1,2) by (auto simp: v(1) kid_ok_def)
    show ?thesis
    proof (cases "r = Some 0")
      case True
      then have kl: "kl \<noteq> []" "ord (last kl) = ord k" using v(5) by auto
      obtain kl0 cl0 y where f: "kl = kl0 @ [last kl]" "cl = cl0 @ [y]" "length cl0 = length kl0"
        using found_view [OF v(2) kl(1)] by metis
      have x: "x = BTN sx False (kl0 @ last kl # kr) (cl0 @ y # c # cr)"
        using v(1) f(1,2) by (metis append.assoc append_Cons append_Nil)
      have lk: "length kl = length kl0 + 1" using f(1) by (metis Suc_eq_plus1 length_append_singleton)
      have "del_pos cmp nbits x k DK_NONE = (int (length kl0), 0)"
        using v(4) True lk by (simp add: del_pos_def v(1))
      moreover have "\<forall>d \<in> set (cl0 @ y # c # cr). kid_ok t h d" using ok f(2) by auto
      ultimately show ?thesis unfolding None
        using delete_found [OF t f(3) v(3) x _ Suc.prems(2,5,6) _ kl(2) ek IH] by blast
    next
      case False
      have "il_pre (map inorder cl) kl @ inorder c @ il_post kr (map inorder cr) = us @ e # vs"
        using Suc.prems(6) inorder_view [OF v(2,3), of sx False c] by (simp add: v(1))
      then have "e \<in> set (il_pre (map inorder cl) kl @ inorder c @ il_post kr (map inorder cr))" by simp
      with v(6,7) False ek have "e \<in> set (inorder c)" by force
      then obtain us' vs' where "inorder c = us' @ e # vs'" by (metis split_list)
      moreover have "del_pos cmp nbits x k s = (int (length kl) - 1, case r of None \<Rightarrow> - 1 | Some r \<Rightarrow> r)"
        using v(4) None by (simp add: del_pos_def v(1))
      ultimately show ?thesis
        using delete_descend [OF t v(2,3,1) ok ne Suc.prems(2,5,6) _ _ _ _ _ _ IH] None ek False
        by (force simp: del_target_def split: option.splits)
    qed
  qed
qed

lemma bt_delete_ok:
  assumes wf: "bt_wf ord b" and e: "inorder (bt_root b) = us @ e # vs" "ord e = ord k"
  shows "\<exists>b'. bt_delete cmp b k = Inr (b', e) \<and> bt_wf ord b' \<and> inorder (bt_root b') = us @ vs \<and>
     bt_t b' = bt_t b \<and> bt_nbits b' = bt_nbits b"
proof -
  obtain h m where d: "bt_nbits b = 2 ^ Suc m" "2 \<le> bt_t b" "GETN (bt_t b) \<le> 2 ^ bt_nbits b"
    "shape (bt_t b) h (bt_root b)" "scion_ok (bt_root b)" "nkeys (bt_root b) \<le> GETN (bt_t b)"
    "sorted_by ord (inorder (bt_root b))" "leaf (bt_root b) \<or> 0 < nkeys (bt_root b)"
    using bt_wf_dest [OF wf] by metis
  have "0 < h \<longrightarrow> 0 < nkeys (bt_root b)" using d(4,8) by (cases h) auto
  then obtain r dk ptr where r: "deletekey cmp (bt_nbits b) (bt_t b) (bt_root b) k DK_NONE None = Inr (r, dk, ptr)"
    "del_post (bt_t b) h DK_NONE (bt_root b) us e vs None (r, dk, ptr)"
    using deletekey_ok [OF d(1-5) _ d(6,7) e(1), of DK_NONE k None] e(2) by (auto simp: del_target_def)
  then have p: "shape (bt_t b) h r" "scion_ok r" "nkeys r \<le> nkeys (bt_root b)" "inorder r = us @ vs"
    "(case ptr of None \<Rightarrow> dk | Some p \<Rightarrow> p) = e" by (auto simp: del_post_def)
  have srt: "sorted_by ord (us @ vs)" using d(7) unfolding e(1) by simp
  have nk: "bt_numkeys b - 1 = of_nat (length (us @ vs))" "length (us @ vs) < 2 ^ 32"
    using wf e(1) by (simp_all add: bt_wf_def)
  show ?thesis
  proof (cases "nkeys r = 0 \<and> \<not> leaf r")
    case True
    then obtain h' where h': "h = Suc h'" using p(1) by (cases h) auto
    then obtain s c where rc: "r = BTN s False [] [c]"
      using p(1) True by (cases r) (auto simp: length_Suc_conv)
    have c: "shape (bt_t b) h' c" "scion_ok c" "nkeys c \<le> GETN (bt_t b)" "0 < nkeys c" "inorder c = us @ vs"
      using p(1,2,4) d(2) unfolding rc h' by auto
    let ?b = "b\<lparr>bt_root := c, bt_numkeys := bt_numkeys b - 1, bt_numnodes := bt_numnodes b - 1\<rparr>"
    have "bt_wf ord ?b"
      by (rule bt_wfI [where h = h']) (use c srt nk wf in \<open>auto simp: bt_wf_def bt_geometry_def\<close>)
    moreover have "bt_delete cmp b k = Inr (?b, e)"
      using r(1) p(5) by (simp add: bt_delete_def remove_key_def rc kid_def Let_def)
    ultimately show ?thesis using c(5) by auto
  next
    case False
    let ?b = "b\<lparr>bt_root := r, bt_numkeys := bt_numkeys b - 1\<rparr>"
    have "bt_wf ord ?b"
      by (rule bt_wfI [where h = h]) (use False p srt nk wf d(6) in \<open>auto simp: bt_wf_def bt_geometry_def\<close>)
    moreover have "bt_delete cmp b k = Inr (?b, e)"
      using r(1) p(5) False by (auto simp: bt_delete_def remove_key_def Let_def)
    ultimately show ?thesis using p(4) by auto
  qed
qed

end

end
