(* ===== verification/Alc_Index.thy ===== *)
theory Alc_Index
  imports Alc_BTDelete
begin

text \<open>
  What the rest of the program relies on when it uses a tree: an ordered index of keys, stated as an
  interface and discharged by the B-tree of \<^verbatim>\<open>src/DB/bt_code.c\<close> for every comparator of
  \<^verbatim>\<open>src/DB/stream.c\<close>; and the life of a tree as a sequence of operations.
\<close>

subsection \<open>The interface\<close>

locale ordered_index =
  fixes wf :: "'s \<Rightarrow> bool" and contents :: "'s \<Rightarrow> 'k list" and key :: "'k \<Rightarrow> 'o::linorder"
    and ins :: "'s \<Rightarrow> 'k \<Rightarrow> 's c_res" and del :: "'s \<Rightarrow> 'k \<Rightarrow> ('s \<times> 'k) c_res"
    and fnd :: "'s \<Rightarrow> 'k \<Rightarrow> 'k option c_res"
  assumes sorted_contents: "wf s \<Longrightarrow> sorted_by key (contents s)"
    and ins_law: "wf s \<Longrightarrow> \<forall>e \<in> set (contents s). key e \<noteq> key k \<Longrightarrow> Suc (length (contents s)) < 2 ^ 32 \<Longrightarrow>
      \<exists>s'. ins s k = Inr s' \<and> wf s' \<and> contents s' = ins_by key k (contents s)"
    and del_law: "wf s \<Longrightarrow> contents s = us @ e # vs \<Longrightarrow> key e = key k \<Longrightarrow>
      \<exists>s'. del s k = Inr (s', e) \<and> wf s' \<and> contents s' = us @ vs"
    and fnd_law: "wf s \<Longrightarrow> fnd s k = Inr (List.find (\<lambda>e. key e = key k) (contents s))"
begin

lemma find_unique:
  assumes "wf s"
  shows "List.find (\<lambda>e. key e = key k) (contents s) = Some e \<longleftrightarrow> e \<in> set (contents s) \<and> key e = key k"
proof
  assume "List.find (\<lambda>e. key e = key k) (contents s) = Some e"
  then show "e \<in> set (contents s) \<and> key e = key k" by (auto simp: find_Some_iff)
qed (use find_sorted [OF sorted_contents [OF assms]] in blast)

text \<open>A key is found after its insertion and other lookups are unchanged.\<close>

lemma fnd_ins:
  assumes "wf s" "fnd s k = Inr None" "Suc (length (contents s)) < 2 ^ 32"
  shows "\<exists>s'. ins s k = Inr s' \<and> wf s' \<and>
     (\<forall>j. fnd s' j = (if key j = key k then Inr (Some k) else fnd s j))"
proof -
  have ab: "\<forall>e \<in> set (contents s). key e \<noteq> key k"
    using assms(2) by (simp add: fnd_law [OF assms(1)] find_None_iff)
  obtain s' where s': "ins s k = Inr s'" "wf s'" "contents s' = ins_by key k (contents s)"
    using ins_law [OF assms(1) ab assms(3)] by blast
  have "fnd s' j = (if key j = key k then Inr (Some k) else fnd s j)" for j
  proof (cases "List.find (\<lambda>e. key e = key j) (contents s')")
    case None
    then have "\<forall>e \<in> set (contents s'). key e \<noteq> key j" by (simp add: find_None_iff)
    then have "key j \<noteq> key k" "List.find (\<lambda>e. key e = key j) (contents s) = None"
      by (auto simp: s'(3) find_None_iff)
    with None show ?thesis by (simp add: fnd_law assms(1) s'(2))
  next
    case (Some e)
    then have e: "e \<in> insert k (set (contents s))" "key e = key j"
      using find_unique [OF s'(2), of j e] by (simp_all add: s'(3))
    show ?thesis
    proof (cases "key j = key k")
      case True
      with e ab have "e = k" by auto
      with Some True show ?thesis by (simp add: fnd_law s'(2))
    next
      case False
      with e have "List.find (\<lambda>e. key e = key j) (contents s) = Some e"
        using find_unique [OF assms(1), of j e] by auto
      with Some False show ?thesis by (simp add: fnd_law assms(1) s'(2))
    qed
  qed
  with s' show ?thesis by blast
qed

text \<open>A deleted key is gone, the deletion returns what was stored, other lookups are unchanged.\<close>

lemma fnd_del:
  assumes "wf s" "fnd s k = Inr (Some e)"
  shows "\<exists>s'. del s k = Inr (s', e) \<and> wf s' \<and>
     (\<forall>j. fnd s' j = (if key j = key k then Inr None else fnd s j))"
proof -
  have e: "e \<in> set (contents s)" "key e = key k"
    using assms(2) find_unique [OF assms(1), of k e] by (simp_all add: fnd_law [OF assms(1)])
  obtain us vs where c: "contents s = us @ e # vs" using split_list [OF e(1)] by blast
  obtain s' where s': "del s k = Inr (s', e)" "wf s'" "contents s' = us @ vs"
    using del_law [OF assms(1) c e(2)] by blast
  have ne: "key a \<noteq> key k" if "a \<in> set us \<union> set vs" for a
    using sorted_contents [OF assms(1)] that e(2) by (auto simp: c)
  have "fnd s' j = (if key j = key k then Inr None else fnd s j)" for j
  proof (cases "key j = key k")
    case True
    with ne show ?thesis by (auto simp: fnd_law [OF s'(2)] s'(3) find_None_iff)
  next
    case False
    with e(2) have "key e \<noteq> key j" by simp
    with False show ?thesis
      by (simp add: fnd_law [OF s'(2)] fnd_law [OF assms(1)] s'(3) c find_append split: option.split)
  qed
  with s' show ?thesis by blast
qed

end

sublocale bt_order \<subseteq> tree: ordered_index "bt_wf ord" "\<lambda>b. inorder (bt_root b)" ord
  "bt_insert cmp" "bt_delete cmp" "bt_find cmp"
proof
  show "bt_wf ord s \<Longrightarrow> sorted_by ord (inorder (bt_root s))" for s by (simp add: bt_wf_def)
  show "bt_wf ord s \<Longrightarrow> \<forall>e \<in> set (inorder (bt_root s)). ord e \<noteq> ord k \<Longrightarrow>
      Suc (length (inorder (bt_root s))) < 2 ^ 32 \<Longrightarrow>
      \<exists>s'. bt_insert cmp s k = Inr s' \<and> bt_wf ord s' \<and>
        inorder (bt_root s') = ins_by ord k (inorder (bt_root s))" for s k
    using bt_insert_wf by blast
  show "bt_wf ord s \<Longrightarrow> inorder (bt_root s) = us @ e # vs \<Longrightarrow> ord e = ord k \<Longrightarrow>
      \<exists>s'. bt_delete cmp s k = Inr (s', e) \<and> bt_wf ord s' \<and> inorder (bt_root s') = us @ vs" for s us e vs k
    using bt_delete_ok by blast
qed (rule bt_find_ok)

subsection \<open>The life of a tree\<close>

text \<open>
  A tree changes by the three operations, called as the code requires: an insertion for a key that is
  absent while the 32-bit key counter has room, a deletion or replacement for a key that is present.
\<close>

inductive bt_step :: "('k \<Rightarrow> 'k \<Rightarrow> int) \<Rightarrow> 'k bt \<Rightarrow> 'k bt \<Rightarrow> bool" for cmp where
  step_insert: "bt_exist cmp b k = Inr False \<Longrightarrow> bt_numkeys b \<noteq> - 1 \<Longrightarrow> bt_insert cmp b k = Inr b' \<Longrightarrow>
    bt_step cmp b b'"
| step_delete: "bt_exist cmp b k = Inr True \<Longrightarrow> bt_delete cmp b k = Inr (b', e) \<Longrightarrow> bt_step cmp b b'"
| step_replace: "bt_exist cmp b k = Inr True \<Longrightarrow> cmp v k = 0 \<Longrightarrow> bt_replace cmp b k v = Inr (b', e) \<Longrightarrow>
    bt_step cmp b b'"

inductive bt_reachable :: "('k \<Rightarrow> 'k \<Rightarrow> int) \<Rightarrow> 'k bt \<Rightarrow> bool" for cmp where
  reach_create: "bt_reachable cmp (bt_create tr)"
| reach_step: "bt_reachable cmp b \<Longrightarrow> bt_step cmp b b' \<Longrightarrow> bt_reachable cmp b'"

inductive_cases bt_stepE: "bt_step cmp b b'"

lemma numkeys_room:
  assumes "bt_wf ord b" "bt_numkeys b \<noteq> - 1"
  shows "Suc (length (inorder (bt_root b))) < 2 ^ 32"
proof -
  let ?n = "length (inorder (bt_root b))"
  have n: "?n < 2 ^ 32" "bt_numkeys b = of_nat ?n" using assms(1) by (simp_all add: bt_wf_def)
  have "?n \<noteq> 2 ^ 32 - 1"
  proof
    assume "?n = 2 ^ 32 - 1"
    then have "bt_numkeys b = - 1" unfolding n(2) by simp
    with assms(2) show False by simp
  qed
  with n(1) show ?thesis by simp
qed

context bt_order
begin

lemma bt_step_wf:
  assumes "bt_step cmp b b'" "bt_wf ord b"
  shows "bt_wf ord b'"
  using assms(1)
proof (rule bt_stepE)
  fix k
  assume s: "bt_exist cmp b k = Inr False" "bt_numkeys b \<noteq> - 1" "bt_insert cmp b k = Inr b'"
  then have "\<forall>e \<in> set (inorder (bt_root b)). ord e \<noteq> ord k"
    using bt_exist_ok [OF assms(2), of k] by auto
  with bt_insert_wf [OF assms(2) this numkeys_room [OF assms(2) s(2)]] s(3) show ?thesis by auto
next
  fix k e
  assume s: "bt_exist cmp b k = Inr True" "bt_delete cmp b k = Inr (b', e)"
  then obtain e' where "e' \<in> set (inorder (bt_root b))" "ord e' = ord k"
    using bt_exist_ok [OF assms(2), of k] by auto
  then obtain us vs where "inorder (bt_root b) = us @ e' # vs" by (meson split_list)
  with bt_delete_ok [OF assms(2) this \<open>ord e' = ord k\<close>] s(2) show ?thesis by auto
next
  fix k v e
  assume s: "cmp v k = 0" "bt_replace cmp b k v = Inr (b', e)"
  with bt_replace_ok [OF assms(2), of v k] show ?thesis by (auto simp: cmp_zero)
qed

lemma bt_reachable_wf: "bt_reachable cmp b \<Longrightarrow> bt_wf ord b"
proof (induction rule: bt_reachable.induct)
  case (reach_create tr)
  then show ?case using bt_create_wf by blast
qed (rule bt_step_wf)

end

subsection \<open>Properties of the component\<close>

text \<open>
  C1. Insertion into a B-tree. For any comparator that orders by a key, in a well-formed tree that does not
  hold the key and has room, \<^verbatim>\<open>bt_insert\<close> runs without an access outside a node, the tree is well formed
  again (depth, node bounds, exact \<^verbatim>\<open>scion\<close> and \<^verbatim>\<open>numkeys\<close> counters, order), and it holds the old keys with
  the new one at its place in the order.
\<close>

theorem bt_insert_correct:
  assumes "bt_order cmp ord" and "bt_wf ord b"
    and "\<forall>e \<in> set (inorder (bt_root b)). ord e \<noteq> ord k" and "bt_numkeys b \<noteq> - 1"
  shows "\<exists>b'. bt_insert cmp b k = Inr b' \<and> bt_wf ord b' \<and>
     inorder (bt_root b') = takeWhile (\<lambda>e. ord e < ord k) (inorder (bt_root b)) @
       k # dropWhile (\<lambda>e. ord e < ord k) (inorder (bt_root b))"
  using bt_order.bt_insert_wf [OF assms(1-3) numkeys_room [OF assms(2,4)]]
  unfolding ins_by_def by blast

definition demo_tree :: "ulong bt" where
  "demo_tree = \<lparr>bt_root = BTN 2 True [3, 7] [], bt_numkeys = 2, bt_numnodes = 1, bt_t = 4, bt_nbits = 4\<rparr>"

lemma demo_tree_wf: "bt_wf (\<lambda>l. l) demo_tree" "inorder (bt_root demo_tree) = [3, 7]"
  by (simp_all add: bt_wf_def demo_tree_def bt_geometry_def GETN_def)

theorem bt_insert_correct_witness:
  "\<exists>b'. bt_insert ulongCmp demo_tree 5 = Inr b' \<and> bt_wf (\<lambda>l. l) b' \<and>
     inorder (bt_root b') = takeWhile (\<lambda>e. e < 5) (inorder (bt_root demo_tree)) @
       5 # dropWhile (\<lambda>e. e < 5) (inorder (bt_root demo_tree))"
  by (rule bt_insert_correct [OF ulong_order.bt_order_axioms demo_tree_wf(1)])
    (simp_all add: demo_tree_wf(2), simp add: demo_tree_def)

text \<open>
  C2. Deletion from a B-tree. From a well-formed tree that holds an entry \<open>e\<close> with the key, \<^verbatim>\<open>bt_delete\<close>
  removes exactly \<open>e\<close>, returns \<open>e\<close> (also when case 2c pushed the search key down in its place), leaves the
  order of all others, and the tree is well formed again; no branch reads outside a node or fails the assertion
  of case 2.
\<close>

theorem bt_delete_correct:
  assumes "bt_order cmp ord" and "bt_wf ord b"
    and "inorder (bt_root b) = us @ e # vs" and "ord e = ord k"
  shows "\<exists>b'. bt_delete cmp b k = Inr (b', e) \<and> bt_wf ord b' \<and> inorder (bt_root b') = us @ vs"
  using bt_order.bt_delete_ok [OF assms] by blast

theorem bt_delete_correct_witness:
  "\<exists>b'. bt_delete ulongCmp demo_tree 7 = Inr (b', 7) \<and> bt_wf (\<lambda>l. l) b' \<and>
     inorder (bt_root b') = [3] @ []"
  by (rule bt_delete_correct [OF ulong_order.bt_order_axioms demo_tree_wf(1)])
    (simp_all add: demo_tree_wf(2))

text \<open>
  C3. Lookup in a B-tree. In a well-formed tree \<^verbatim>\<open>bt_find\<close> returns the entry with the key or \<^verbatim>\<open>NULL\<close>,
  \<^verbatim>\<open>bt_exist\<close> tells whether there is one, and \<^verbatim>\<open>bt_find_loc\<close> returns a slot of the tree that holds it.
\<close>

theorem bt_lookup_correct:
  assumes "bt_order cmp ord" and "bt_wf ord b"
  shows "bt_find cmp b k = Inr (List.find (\<lambda>e. ord e = ord k) (inorder (bt_root b))) \<and>
     bt_exist cmp b k = Inr (\<exists>e \<in> set (inorder (bt_root b)). ord e = ord k) \<and>
     (\<exists>loc. bt_find_loc cmp b k = Inr loc \<and>
       (loc = None \<longleftrightarrow> (\<forall>e \<in> set (inorder (bt_root b)). ord e \<noteq> ord k)) \<and>
       (\<forall>p j. loc = Some (p, j) \<longrightarrow> (\<exists>e. slot_read p j (bt_root b) = Inr e \<and> ord e = ord k)))"
  by (intro conjI bt_order.bt_find_ok [OF assms] bt_order.bt_exist_ok [OF assms]
      bt_order.bt_find_loc_ok [OF assms])

theorem bt_lookup_correct_witness:
  "bt_find ulongCmp demo_tree 7 = Inr (List.find (\<lambda>e. e = 7) (inorder (bt_root demo_tree)))"
  using bt_lookup_correct [OF ulong_order.bt_order_axioms demo_tree_wf(1)] by blast


definition demo_rows :: "byte list bt" where
  "demo_rows = \<lparr>bt_root = BTN 2 True [[7, 1], [15, 2]] [], bt_numkeys = 2, bt_numnodes = 1,
     bt_t = 4, bt_nbits = 4\<rparr>"

lemma demo_row_keys [simp]:
  "key_or_0 (streamIntToUInt [7, 1]) = 3" "key_or_0 (streamIntToUInt [15, 2]) = 7"
  "key_or_0 (streamIntToUInt [7]) = 3" "key_or_0 (streamIntToUInt [7, 9]) = 3"
  by code_simp+

lemma demo_rows_wf: "bt_wf (\<lambda>s. key_or_0 (streamIntToUInt s)) demo_rows"
  "inorder (bt_root demo_rows) = [[7, 1], [15, 2]]"
  by (simp_all add: bt_wf_def demo_rows_def bt_geometry_def GETN_def demo_row_keys)


text \<open>
  The ends of the order: \<^verbatim>\<open>bt_min\<close> and \<^verbatim>\<open>bt_max\<close> return the first and the last entry of a well-formed tree,
  \<^verbatim>\<open>NULL\<close> exactly on the empty one.
\<close>

theorem bt_min_max_correct:
  assumes "bt_order cmp ord" and "bt_wf ord b"
  shows "bt_min b = Inr (if inorder (bt_root b) = [] then None else Some (hd (inorder (bt_root b)))) \<and>
     bt_max b = Inr (if inorder (bt_root b) = [] then None else Some (last (inorder (bt_root b))))"
  using bt_order.bt_ends_ok [OF assms] by blast

theorem bt_min_max_correct_witness:
  "bt_min demo_tree = Inr (if inorder (bt_root demo_tree) = [] then None else Some (hd (inorder (bt_root demo_tree)))) \<and>
   bt_max demo_tree = Inr (if inorder (bt_root demo_tree) = [] then None else Some (last (inorder (bt_root demo_tree))))"
  by (rule bt_min_max_correct [OF ulong_order.bt_order_axioms demo_tree_wf(1)])

text \<open>
  C7. Copying a tree key by key into a new one of either geometry, as \<^verbatim>\<open>abt_resize\<close> does, gives a
  well-formed tree with the same entries in the same order.
\<close>

theorem bt_copy_correct:
  assumes "bt_order cmp ord" and "bt_wf ord b"
  shows "\<exists>b'. bt_to_bt_insert cmp (bt_root b) (bt_create tr) = Inr b' \<and> bt_wf ord b' \<and>
     inorder (bt_root b') = inorder (bt_root b)"
  by (rule bt_order.bt_copy_ok [OF assms])

theorem bt_copy_correct_witness:
  "\<exists>b'. bt_to_bt_insert ulongCmp (bt_root demo_tree) (bt_create TRANS_TWO) = Inr b' \<and>
     bt_wf (\<lambda>l. l) b' \<and> inorder (bt_root b') = inorder (bt_root demo_tree)"
  by (rule bt_copy_correct [OF ulong_order.bt_order_axioms demo_tree_wf(1)])

text \<open>
  C5. Every tree that \<^verbatim>\<open>bt_create\<close> and any sequence of insertions, deletions and replacements can reach is
  well formed, for every comparator that orders by a key.
\<close>

theorem bt_reachable_invariant:
  assumes "bt_order cmp ord" and "bt_reachable cmp b"
  shows "bt_wf ord b"
  by (rule bt_order.bt_reachable_wf [OF assms])

theorem bt_reachable_invariant_witness:
  "bt_wf (\<lambda>l. l) (bt_create TRANS_ONE :: ulong bt)"
  by (rule bt_reachable_invariant [OF ulong_order.bt_order_axioms]) (rule reach_create)

text \<open>
  C4. A tree of integer-keyed rows is a map from keys to rows: after the insertion of an absent key a lookup
  of that key returns the new row and every other lookup is unchanged; after the deletion of a present key its
  lookup returns \<^verbatim>\<open>NULL\<close> and every other lookup is unchanged.
\<close>

theorem int_rows_map:
  fixes b :: "byte list bt"
  defines "key \<equiv> \<lambda>s. key_or_0 (streamIntToUInt s)"
  assumes "bt_wf key b"
  shows "(bt_find btIntCmp b r = Inr None \<and> bt_numkeys b \<noteq> - 1 \<longrightarrow>
      (\<exists>b'. bt_insert btIntCmp b r = Inr b' \<and> bt_wf key b' \<and>
        (\<forall>j. bt_find btIntCmp b' j = (if key j = key r then Inr (Some r) else bt_find btIntCmp b j)))) \<and>
    (bt_find btIntCmp b r = Inr (Some e) \<longrightarrow>
      (\<exists>b'. bt_delete btIntCmp b r = Inr (b', e) \<and> bt_wf key b' \<and>
        (\<forall>j. bt_find btIntCmp b' j = (if key j = key r then Inr None else bt_find btIntCmp b j))))"
  using int_stream_order.tree.fnd_ins [OF assms(2) [unfolded key_def]]
    int_stream_order.tree.fnd_del [OF assms(2) [unfolded key_def]]
    numkeys_room [OF assms(2)] unfolding key_def by blast

theorem int_rows_map_witness:
  "(bt_find btIntCmp demo_rows [11, 4] = Inr None \<and> bt_numkeys demo_rows \<noteq> - 1) \<and>
   (\<exists>b'. bt_insert btIntCmp demo_rows [11, 4] = Inr b' \<and> bt_wf (\<lambda>s. key_or_0 (streamIntToUInt s)) b' \<and>
     (\<forall>j. bt_find btIntCmp b' j = (if key_or_0 (streamIntToUInt j) = key_or_0 (streamIntToUInt [11, 4])
       then Inr (Some [11, 4]) else bt_find btIntCmp demo_rows j)))"
proof -
  have "key_or_0 (streamIntToUInt [11, 4]) = 5" by code_simp
  then have "bt_find btIntCmp demo_rows [11, 4] = Inr None"
    using int_stream_order.bt_find_ok [OF demo_rows_wf(1), of "[11, 4]"] by (simp add: demo_rows_wf(2))
  moreover have "bt_numkeys demo_rows \<noteq> - 1" by (simp add: demo_rows_def)
  ultimately show ?thesis using int_rows_map [OF demo_rows_wf(1), of "[11, 4]"] by blast
qed

end
