(* ===== verification/Alc_Lzf.thy ===== *)
theory Alc_Lzf
  imports Alc_Prelude
begin

text \<open>
  The LZF codec the rows are compressed with, \<^verbatim>\<open>lzf_c.c\<close> and \<^verbatim>\<open>lzf_d.c\<close> under
  \<^verbatim>\<open>src/redis_unstable/src\<close>, in the configuration the repository builds (\<^verbatim>\<open>VERY_FAST\<close>, \<^verbatim>\<open>HLOG\<close> 16,
  \<^verbatim>\<open>INIT_HTAB\<close>, \<^verbatim>\<open>CHECK_INPUT\<close>, unaligned access). Pointers into the input are offsets and a slot of the
  hash table is an offset or \<^verbatim>\<open>NULL\<close>. The open literal run, whose control byte the code patches in afterwards,
  is kept beside the finished output: \<^verbatim>\<open>op\<close> is the length of the output, one for the control byte, and the
  length of the run. A result 0 (does not fit, or malformed input) is \<open>None\<close>.
\<close>

subsection \<open>\<^verbatim>\<open>lzf_decompress\<close>\<close>

text \<open>The copy of a back reference, byte by byte, so that it may overlap its own output.\<close>

primrec lzf_copy :: "nat \<Rightarrow> nat \<Rightarrow> byte list \<Rightarrow> byte list" where
  "lzf_copy 0 dist op = op"
| "lzf_copy (Suc n) dist op = lzf_copy n dist (op @ [op ! (length op - dist)])"

function lzf_decompress_loop :: "nat \<Rightarrow> byte list \<Rightarrow> byte list \<Rightarrow> byte list option c_res" where
  "lzf_decompress_loop out_len inp op = (case inp of [] \<Rightarrow> Inl OOB_read | ctrl # ip \<Rightarrow>
     if unat ctrl < 32 then
       let n = unat ctrl + 1 in
       if out_len < length op + n then Inr None
       else if length ip < n then Inr None
       else if drop n ip = [] then Inr (Some (op @ take n ip))
       else lzf_decompress_loop out_len (drop n ip) (op @ take n ip)
     else case ip of [] \<Rightarrow> Inr None | b # ip1 \<Rightarrow>
       let long = unat ctrl div 32 = 7;
           len = (if long then 7 + unat b else unat ctrl div 32);
           ip2 = (if long then ip1 else ip)
       in case ip2 of [] \<Rightarrow> Inr None | lo # ip3 \<Rightarrow>
         let dist = unat ctrl mod 32 * 256 + 1 + unat lo in
         if out_len < length op + len + 2 then Inr None
         else if length op < dist then Inr None
         else if ip3 = [] then Inr (Some (lzf_copy (len + 2) dist op))
         else lzf_decompress_loop out_len ip3 (lzf_copy (len + 2) dist op))"
  by pat_completeness auto
termination
  by (relation "measure (\<lambda>(n, inp, op). length inp)") (auto split: if_splits)

declare lzf_decompress_loop.simps [simp del]

definition lzf_decompress :: "byte list \<Rightarrow> nat \<Rightarrow> byte list option c_res" where
  "lzf_decompress inp out_len = lzf_decompress_loop out_len inp []"

subsection \<open>\<^verbatim>\<open>lzf_compress\<close>\<close>

definition MAX_LIT :: nat where "MAX_LIT = 32"
definition MAX_OFF :: nat where "MAX_OFF = 8192"
definition MAX_REF :: nat where "MAX_REF = 264"

text \<open>
  A byte of the input. Only \<^verbatim>\<open>FRST\<close> on an input of one byte reads past the end (the caller's text is followed by
  its quote there), and that value is not used.
\<close>

definition byte_at :: "byte list \<Rightarrow> nat \<Rightarrow> byte" where
  "byte_at inp p = (if p < length inp then inp ! p else 0)"

definition lzf_FRST :: "byte list \<Rightarrow> nat \<Rightarrow> uint32" where
  "lzf_FRST inp p = push_bit 8 (ucast (byte_at inp p)) OR ucast (byte_at inp (p + 1))"

definition lzf_NEXT :: "uint32 \<Rightarrow> byte list \<Rightarrow> nat \<Rightarrow> uint32" where
  "lzf_NEXT v inp p = push_bit 8 v OR ucast (byte_at inp (p + 2))"

definition lzf_IDX :: "uint32 \<Rightarrow> nat" where
  "lzf_IDX h = unat ((drop_bit 8 h - h * 5) AND 65535)"

record lzf_st =
  lz_ip :: nat
  lz_out :: "byte list"
  lz_run :: "byte list"
  lz_hval :: uint32
  lz_htab :: "nat \<Rightarrow> nat option"

text \<open>The reference the hash slot offers, when it is a match of at least three bytes within reach.\<close>

definition lzf_ref :: "byte list \<Rightarrow> nat \<Rightarrow> nat option \<Rightarrow> nat option" where
  "lzf_ref inp ip ref = (case ref of None \<Rightarrow> None | Some r \<Rightarrow>
     if r < ip \<and> ip - r - 1 < MAX_OFF \<and> ip + 4 < length inp \<and> 0 < r \<and>
        byte_at inp r = byte_at inp ip \<and> byte_at inp (r + 1) = byte_at inp (ip + 1) \<and>
        byte_at inp (r + 2) = byte_at inp (ip + 2)
     then Some r else None)"

text \<open>\<^verbatim>\<open>op [- lit - 1] = lit - 1; op -= !lit\<close>: the control byte of the open run is written, also when it is then undone.\<close>

definition lzf_stop_run :: "nat \<Rightarrow> byte list \<Rightarrow> byte list \<Rightarrow> byte list c_res" where
  "lzf_stop_run out_len out run =
     (if length out < out_len
      then Inr (if run = [] then out else out @ of_nat (length run - 1) # run)
      else Inl OOB_write)"

text \<open>The length of the match: sixteen unrolled comparisons when there is room, then a loop.\<close>

primrec lzf_unrolled :: "byte list \<Rightarrow> nat \<Rightarrow> nat \<Rightarrow> nat \<Rightarrow> nat \<Rightarrow> (bool \<times> nat) c_res" where
  "lzf_unrolled inp ref ip 0 len = Inr (False, len)"
| "lzf_unrolled inp ref ip (Suc k) len =
     c_bind (c_read inp (ref + (len + 1))) (\<lambda>a. c_bind (c_read inp (ip + (len + 1))) (\<lambda>b.
       if a \<noteq> b then Inr (True, len + 1) else lzf_unrolled inp ref ip k (len + 1)))"

function lzf_extend :: "byte list \<Rightarrow> nat \<Rightarrow> nat \<Rightarrow> nat \<Rightarrow> nat \<Rightarrow> nat c_res" where
  "lzf_extend inp ref ip maxlen len =
     (if len + 1 < maxlen then
        c_bind (c_read inp (ref + (len + 1))) (\<lambda>a. c_bind (c_read inp (ip + (len + 1))) (\<lambda>b.
          if a = b then lzf_extend inp ref ip maxlen (len + 1) else Inr (len + 1)))
      else Inr (len + 1))"
  by pat_completeness auto
termination
  by (relation "measure (\<lambda>(inp, ref, ip, maxlen, len). maxlen - len)") auto

declare lzf_extend.simps [simp del]

definition lzf_match_len :: "byte list \<Rightarrow> nat \<Rightarrow> nat \<Rightarrow> nat c_res" where
  "lzf_match_len inp ref ip =
     (let maxlen = min MAX_REF (length inp - ip - 2) in
      c_bind (if 16 < maxlen then lzf_unrolled inp ref ip 16 2 else Inr (False, 2))
        (\<lambda>(stop, len). if stop then Inr len else lzf_extend inp ref ip maxlen len))"

definition lzf_ref_bytes :: "nat \<Rightarrow> nat \<Rightarrow> byte list" where
  "lzf_ref_bytes off len =
     (if len < 7 then [of_nat (off div 256 + len * 32)]
      else [of_nat (off div 256 + 7 * 32), of_nat (len - 7)]) @ [of_nat off]"

text \<open>The two positions before the new \<^verbatim>\<open>ip\<close> enter the hash table.\<close>

definition lzf_rehash :: "byte list \<Rightarrow> lzf_st \<Rightarrow> lzf_st" where
  "lzf_rehash inp s =
     (let p = lz_ip s - 2; h1 = lzf_NEXT (lzf_FRST inp p) inp p; h2 = lzf_NEXT h1 inp (p + 1) in
      s\<lparr>lz_hval := h2, lz_htab := (lz_htab s)(lzf_IDX h1 \<mapsto> p, lzf_IDX h2 \<mapsto> p + 1)\<rparr>)"

text \<open>One literal byte; a run of \<^verbatim>\<open>MAX_LIT\<close> is closed.\<close>

definition lzf_literal :: "byte list \<Rightarrow> lzf_st \<Rightarrow> lzf_st" where
  "lzf_literal inp s =
     (let run = lz_run s @ [byte_at inp (lz_ip s)] in
      if length run = MAX_LIT
      then s\<lparr>lz_ip := lz_ip s + 1, lz_out := lz_out s @ of_nat (MAX_LIT - 1) # run, lz_run := []\<rparr>
      else s\<lparr>lz_ip := lz_ip s + 1, lz_run := run\<rparr>)"

lemma lz_ip_updates [simp]:
  "lz_ip (lzf_literal inp s) = Suc (lz_ip s)" "lz_ip (lzf_rehash inp s) = lz_ip s"
  by (simp_all add: lzf_literal_def lzf_rehash_def Let_def)

lemma lzf_unrolled_grows: "lzf_unrolled inp ref ip k len = Inr (b, n) \<Longrightarrow> len \<le> n"
  by (induction k arbitrary: len) (fastforce split: c_bind_splits if_splits)+

lemma lzf_extend_grows: "lzf_extend inp ref ip maxlen len = Inr n \<Longrightarrow> len < n"
proof (induction inp ref ip maxlen len rule: lzf_extend.induct)
  case (1 inp ref ip maxlen len)
  then show ?case
    unfolding lzf_extend.simps [of inp ref ip maxlen len]
    by (fastforce split: c_bind_splits if_splits)
qed

lemma lzf_match_len_grows: "lzf_match_len inp ref ip = Inr n \<Longrightarrow> 2 \<le> n"
  by (auto simp: lzf_match_len_def Let_def split: c_bind_splits if_splits
      dest!: lzf_unrolled_grows lzf_extend_grows)

function lzf_loop :: "byte list \<Rightarrow> nat \<Rightarrow> lzf_st \<Rightarrow> lzf_st option c_res" where
  "lzf_loop inp out_len s =
     (if lz_ip s + 2 < length inp then
        let hval = lzf_NEXT (lz_hval s) inp (lz_ip s); idx = lzf_IDX hval;
            s1 = s\<lparr>lz_hval := hval, lz_htab := (lz_htab s)(idx \<mapsto> lz_ip s)\<rparr>
        in case lzf_ref inp (lz_ip s) (lz_htab s idx) of
          Some ref \<Rightarrow>
            c_bind (lzf_stop_run out_len (lz_out s) (lz_run s)) (\<lambda>out.
              if out_len \<le> length out + 4 then Inr None
              else c_bind (lzf_match_len inp ref (lz_ip s)) (\<lambda>len.
                let s2 = s1\<lparr>lz_out := out @ lzf_ref_bytes (lz_ip s - ref - 1) (len - 2),
                            lz_run := [], lz_ip := lz_ip s + len\<rparr>
                in if length inp \<le> lz_ip s2 + 2 then Inr (Some s2)
                   else lzf_loop inp out_len (lzf_rehash inp s2)))
        | None \<Rightarrow>
            if out_len \<le> length (lz_out s) + 1 + length (lz_run s) then Inr None
            else lzf_loop inp out_len (lzf_literal inp s1)
      else Inr (Some s))"
  by pat_completeness auto
termination
  by (relation "measure (\<lambda>(inp, n, s). length inp - lz_ip s)")
    (auto dest!: lzf_match_len_grows)

declare lzf_loop.simps [simp del]

definition lzf_compress :: "byte list \<Rightarrow> nat \<Rightarrow> byte list option c_res" where
  "lzf_compress inp out_len =
     (if inp = [] \<or> out_len = 0 then Inr None
      else c_bind (lzf_loop inp out_len \<lparr>lz_ip = 0, lz_out = [], lz_run = [],
               lz_hval = lzf_FRST inp 0, lz_htab = Map.empty\<rparr>) (\<lambda>r. case r of
        None \<Rightarrow> Inr None
      | Some s \<Rightarrow>
          if out_len < length (lz_out s) + 1 + length (lz_run s) + 3 then Inr None
          else let s' = ((lzf_literal inp) ^^ (length inp - lz_ip s)) s in
            c_bind (lzf_stop_run out_len (lz_out s') (lz_run s')) (\<lambda>out. Inr (Some out))))"

subsection \<open>The match finder\<close>

definition same_at :: "byte list \<Rightarrow> nat \<Rightarrow> nat \<Rightarrow> nat \<Rightarrow> bool" where
  "same_at inp ref ip n \<longleftrightarrow> (\<forall>j < n. inp ! (ref + j) = inp ! (ip + j))"

lemma same_at_Suc: "same_at inp ref ip (Suc n) \<longleftrightarrow> same_at inp ref ip n \<and> inp ! (ref + n) = inp ! (ip + n)"
  by (auto simp: same_at_def less_Suc_eq)

lemma lzf_unrolled_ok:
  assumes "ref < ip" and "ip + len + k < length inp" and "same_at inp ref ip (Suc len)"
  shows "\<exists>b n. lzf_unrolled inp ref ip k len = Inr (b, n) \<and> len \<le> n \<and> n \<le> len + k \<and> same_at inp ref ip n \<and>
    (b \<longrightarrow> len < n) \<and> (\<not> b \<longrightarrow> n = len + k \<and> same_at inp ref ip (Suc n))"
  using assms(2,3)
proof (induction k arbitrary: len)
  case 0
  then show ?case by (auto simp: same_at_Suc)
next
  case (Suc k)
  show ?case
  proof (cases "inp ! (ref + (len + 1)) = inp ! (ip + (len + 1))")
    case True
    then have "same_at inp ref ip (Suc (Suc len))" using Suc.prems by (simp add: same_at_Suc)
    with True Suc.IH [of "Suc len"] Suc.prems assms(1) show ?thesis by fastforce
  next
    case False
    with Suc.prems assms(1) show ?thesis by auto
  qed
qed

lemma lzf_extend_ok:
  assumes "ref < ip" and "ip + maxlen + 2 \<le> length inp" and "same_at inp ref ip (Suc len)"
  shows "\<exists>n. lzf_extend inp ref ip maxlen len = Inr n \<and> len < n \<and> n \<le> max maxlen (len + 1) \<and> same_at inp ref ip n"
  using assms
proof (induction inp ref ip maxlen len rule: lzf_extend.induct)
  case (1 inp ref ip maxlen len)
  show ?case
  proof (cases "len + 1 < maxlen \<and> inp ! (ref + (len + 1)) = inp ! (ip + (len + 1))")
    case True
    then have "same_at inp ref ip (Suc (len + 1))" using "1.prems" by (simp add: same_at_Suc)
    with "1.IH" True "1.prems" obtain n where n: "lzf_extend inp ref ip maxlen (len + 1) = Inr n" "len + 1 < n"
      "n \<le> max maxlen (len + 1 + 1)" "same_at inp ref ip n" by force
    have "lzf_extend inp ref ip maxlen len = Inr n"
      unfolding lzf_extend.simps [of inp ref ip maxlen len] using True n(1) "1.prems" by simp
    with n True show ?thesis by auto
  next
    case False
    then have "lzf_extend inp ref ip maxlen len = Inr (len + 1)"
      unfolding lzf_extend.simps [of inp ref ip maxlen len] using "1.prems" by auto
    with "1.prems" show ?thesis by simp
  qed
qed

lemma lzf_match_len_ok:
  assumes "ref < ip" and "ip + 4 < length inp" and "same_at inp ref ip 3"
  shows "\<exists>n. lzf_match_len inp ref ip = Inr n \<and> 3 \<le> n \<and> n \<le> 264 \<and> ip + n \<le> length inp \<and> same_at inp ref ip n"
proof -
  let ?m = "min MAX_REF (length inp - ip - 2)"
  have s2: "same_at inp ref ip (Suc 2)" using assms(3) by (simp add: eval_nat_numeral)
  have ext: "\<exists>n. lzf_extend inp ref ip ?m len = Inr n \<and> len < n \<and> n \<le> max ?m (len + 1) \<and> same_at inp ref ip n"
    if "same_at inp ref ip (Suc len)" for len
    using lzf_extend_ok [OF assms(1) _ that, of ?m] assms(2) by simp
  show ?thesis
  proof (cases "16 < ?m")
    case False
    then obtain n where "lzf_extend inp ref ip ?m 2 = Inr n" "2 < n" "n \<le> max ?m 3" "same_at inp ref ip n"
      using ext [OF s2] by auto
    with False assms(2) show ?thesis by (auto simp: lzf_match_len_def Let_def MAX_REF_def)
  next
    case True
    then have "ip + 2 + 16 < length inp" by linarith
    from lzf_unrolled_ok [OF assms(1) this s2] obtain b n where
      u: "lzf_unrolled inp ref ip 16 2 = Inr (b, n)" "2 \<le> n" "n \<le> 18" "same_at inp ref ip n" "b \<longrightarrow> 2 < n"
        "\<not> b \<longrightarrow> n = 18 \<and> same_at inp ref ip (Suc n)" by auto
    show ?thesis
    proof (cases b)
      case b: True
      with u True show ?thesis by (auto simp: lzf_match_len_def Let_def)
    next
      case False
      with u ext [of 18] obtain n' where "lzf_extend inp ref ip ?m 18 = Inr n'" "18 < n'" "n' \<le> max ?m 19"
        "same_at inp ref ip n'" by auto
      with u False True show ?thesis by (auto simp: lzf_match_len_def Let_def MAX_REF_def)
    qed
  qed
qed

lemma lzf_ref_SomeD:
  assumes "lzf_ref inp ip r0 = Some r"
  shows "r < ip" "ip - r - 1 < MAX_OFF" "ip + 4 < length inp" "0 < r" "same_at inp r ip 3"
  using assms
  by (auto simp: lzf_ref_def byte_at_def same_at_def less_Suc_eq numeral_3_eq_3 split: option.splits if_splits)

subsection \<open>Reading the tokens back\<close>

definition lzf_dec :: "nat \<Rightarrow> byte list \<Rightarrow> byte list \<Rightarrow> byte list option c_res" where
  "lzf_dec n inp op = (if inp = [] then Inr (Some op) else lzf_decompress_loop n inp op)"

lemma unat_byte_of_nat: "n < 256 \<Longrightarrow> unat (of_nat n :: byte) = n"
  by (simp add: unat_of_nat)

lemma lzf_dec_run:
  assumes "run \<noteq> []" and "length run \<le> 32" and "length op + length run \<le> n"
  shows "lzf_dec n ((of_nat (length run - 1) # run) @ rest) op = lzf_dec n rest (op @ run)"
proof -
  define c :: byte where "c = of_nat (length run - 1)"
  have c: "unat c = length run - 1"
    unfolding c_def using assms(2) by (intro unat_byte_of_nat) simp
  have s: "Suc (length run - Suc 0) = length run" using assms(1) by (cases run) auto
  show ?thesis using assms
    unfolding c_def [symmetric] lzf_dec_def append_Cons lzf_decompress_loop.simps [of n "c # run @ rest"]
    by (auto simp: Let_def c s)
qed

lemma length_lzf_copy [simp]: "length (lzf_copy n d op) = length op + n"
  by (induction n arbitrary: op) simp_all

lemma lzf_dec_ref:
  assumes "off < MAX_OFF" and "1 \<le> len" and "len \<le> 262" and "length op + len + 2 \<le> n" and "off < length op"
  shows "lzf_dec n (lzf_ref_bytes off len @ rest) op = lzf_dec n rest (lzf_copy (len + 2) (off + 1) op)"
proof -
  have off: "off div 256 < 32" using assms(1) by (simp add: MAX_OFF_def div_less_iff_less_mult)
  have d: "off div 256 * 256 + 1 + off mod 256 = off + 1" by simp
  have lo: "unat (of_nat off :: byte) = off mod 256" by (simp add: unat_of_nat)
  have nonlit: "lzf_dec n (c # b # bs) op = lzf_dec n (tl ip2) (lzf_copy (len + 2) (off + 1) op)"
    if t: "\<not> unat c < 32" "ip2 = (if unat c div 32 = 7 then bs else b # bs)" "ip2 \<noteq> []"
      "len = (if unat c div 32 = 7 then 7 + unat b else unat c div 32)"
      "unat c mod 32 * 256 + 1 + unat (hd ip2) = off + 1" for c b bs ip2
  proof -
    obtain lo ip3 where ip2: "ip2 = lo # ip3" using t(3) by (cases ip2) auto
    have l: "\<not> n < length op + len + 2" "\<not> length op < off + 1" using assms(4,5) by simp_all
    show ?thesis
      unfolding lzf_dec_def lzf_decompress_loop.simps [of n "c # b # bs"]
      by (simp only: list.case Let_def t(1) if_False t(2,4) [symmetric] ip2 t(5) [unfolded ip2 list.sel(1)] l
          list.distinct simp_thms list.sel(3))
  qed
  show ?thesis
  proof (cases "len < 7")
    case True
    define c :: byte where "c = of_nat (off div 256 + len * 32)"
    have c: "unat c = off div 256 + len * 32"
      unfolding c_def using True off by (intro unat_byte_of_nat) linarith
    have "unat c mod 32 = off div 256" "unat c div 32 = len" using off by (simp_all add: c)
    moreover have "\<not> unat c < 32" using assms(2) by (simp add: c)
    moreover have "unat c div 32 \<noteq> 7" using True \<open>unat c div 32 = len\<close> by simp
    ultimately have "lzf_dec n (c # of_nat off # rest) op =
        lzf_dec n (tl (of_nat off # rest)) (lzf_copy (len + 2) (off + 1) op)"
      by (intro nonlit) (simp_all only: if_False list.sel lo d list.distinct simp_thms)
    moreover have "lzf_ref_bytes off len = [c, of_nat off]"
      by (simp only: lzf_ref_bytes_def True if_True c_def append.simps)
    ultimately show ?thesis by simp
  next
    case False
    define c :: byte where "c = of_nat (off div 256 + 7 * 32)"
    have c: "unat c = off div 256 + 7 * 32"
      unfolding c_def using off by (intro unat_byte_of_nat) linarith
    have l: "unat (of_nat (len - 7) :: byte) = len - 7" using assms(3) by (intro unat_byte_of_nat) linarith
    have "unat c mod 32 = off div 256" "unat c div 32 = 7" "\<not> unat c < 32"
      using off by (simp_all only: c mod_mult_self1 div_mult_self1) (simp_all add: div_less_iff_less_mult)
    moreover have "len = 7 + (len - 7)" using False by linarith
    ultimately have "lzf_dec n (c # of_nat (len - 7) # of_nat off # rest) op =
        lzf_dec n (tl (of_nat off # rest)) (lzf_copy (len + 2) (off + 1) op)"
      by (intro nonlit) (simp_all only: if_True list.sel lo d l list.distinct simp_thms refl)
    moreover have "lzf_ref_bytes off len = [c, of_nat (len - 7), of_nat off]"
      by (simp only: lzf_ref_bytes_def False if_False c_def append.simps)
    ultimately show ?thesis by simp
  qed
qed

lemma lzf_copy_match:
  assumes "ref < ip" and "ip + n \<le> length inp" and "same_at inp ref ip n"
  shows "lzf_copy n (ip - ref) (take ip inp) = take (ip + n) inp"
proof -
  have "j + k = n \<Longrightarrow> lzf_copy k (ip - ref) (take (ip + j) inp) = take (ip + n) inp" for j k
  proof (induction k arbitrary: j)
    case 0
    then show ?case by simp
  next
    case (Suc k)
    have "take (ip + j) inp ! (length (take (ip + j) inp) - (ip - ref)) = inp ! (ip + j)"
      using Suc.prems assms by (simp add: same_at_def add.commute)
    moreover have "take (ip + j) inp @ [inp ! (ip + j)] = take (ip + Suc j) inp"
      using Suc.prems assms(2) by (simp add: take_Suc_conv_app_nth)
    ultimately show ?case using Suc.IH [of "Suc j"] Suc.prems by simp
  qed
  from this [of 0 n] show ?thesis by simp
qed

subsection \<open>The invariant of the compressor\<close>

text \<open>
  The finished output decodes to the input before the open run, the run is the input from there, it is shorter
  than \<^verbatim>\<open>MAX_LIT\<close>, and the output outgrows the input by at most one byte in 32.
\<close>

definition lzf_inv :: "byte list \<Rightarrow> lzf_st \<Rightarrow> bool" where
  "lzf_inv inp s \<longleftrightarrow> (let p = lz_ip s - length (lz_run s) in
     lz_ip s \<le> length inp \<and> length (lz_run s) \<le> lz_ip s \<and> length (lz_run s) < MAX_LIT \<and>
     lz_run s = take (length (lz_run s)) (drop p inp) \<and> 32 * length (lz_out s) \<le> 33 * p \<and>
     (\<forall>rest. lzf_dec (length inp) (lz_out s @ rest) [] = lzf_dec (length inp) rest (take p inp)))"

lemma lzf_inv_frame [simp]:
  "lzf_inv inp (s\<lparr>lz_hval := h, lz_htab := t\<rparr>) = lzf_inv inp s" "lzf_inv inp (lzf_rehash inp s) = lzf_inv inp s"
  by (simp_all add: lzf_inv_def lzf_rehash_def Let_def)

lemma take_add_drop: "take a xs @ take b (drop a xs) = take (a + b) xs"
  by (simp add: take_add)

text \<open>Closing the open run.\<close>

lemma lzf_stop_run_ok:
  assumes "lzf_inv inp s" and "lzf_stop_run n (lz_out s) (lz_run s) = Inr out"
  shows "lzf_dec (length inp) (out @ rest) [] = lzf_dec (length inp) rest (take (lz_ip s) inp)"
    and "length out = length (lz_out s) + (if lz_run s = [] then 0 else Suc (length (lz_run s)))"
    and "length (lz_out s) < n"
proof -
  let ?p = "lz_ip s - length (lz_run s)"
  have i: "lz_ip s \<le> length inp" "length (lz_run s) \<le> lz_ip s" "length (lz_run s) < MAX_LIT"
    "lz_run s = take (length (lz_run s)) (drop ?p inp)"
    and d: "\<And>rest. lzf_dec (length inp) (lz_out s @ rest) [] = lzf_dec (length inp) rest (take ?p inp)"
    using assms(1) by (simp_all add: lzf_inv_def Let_def)
  have out: "out = (if lz_run s = [] then lz_out s else lz_out s @ of_nat (length (lz_run s) - 1) # lz_run s)"
    and lt: "length (lz_out s) < n"
    using assms(2) by (auto simp: lzf_stop_run_def split: if_splits)
  show "length (lz_out s) < n" by (rule lt)
  show "length out = length (lz_out s) + (if lz_run s = [] then 0 else Suc (length (lz_run s)))" by (simp add: out)
  show "lzf_dec (length inp) (out @ rest) [] = lzf_dec (length inp) rest (take (lz_ip s) inp)"
  proof (cases "lz_run s = []")
    case True
    with d out show ?thesis by simp
  next
    case False
    have t: "take ?p inp @ lz_run s = take (lz_ip s) inp"
      using take_add_drop [of ?p inp "length (lz_run s)"] i(2,4) by simp
    have "lzf_dec (length inp) ((of_nat (length (lz_run s) - 1) # lz_run s) @ rest) (take ?p inp) =
        lzf_dec (length inp) rest (take ?p inp @ lz_run s)"
      using False i by (intro lzf_dec_run) (simp_all add: MAX_LIT_def)
    with False d [of "(of_nat (length (lz_run s) - 1) # lz_run s) @ rest"] t show ?thesis by (simp add: out del: of_nat_diff)
  qed
qed

lemma lzf_literal_inv:
  assumes "lzf_inv inp s" and "lz_ip s < length inp"
  shows "lzf_inv inp (lzf_literal inp s)"
proof -
  let ?p = "lz_ip s - length (lz_run s)" and ?run = "lz_run s @ [inp ! lz_ip s]"
  have i: "length (lz_run s) \<le> lz_ip s" "length (lz_run s) < MAX_LIT"
    "lz_run s = take (length (lz_run s)) (drop ?p inp)" "32 * length (lz_out s) \<le> 33 * ?p"
    and d: "\<And>rest. lzf_dec (length inp) (lz_out s @ rest) [] = lzf_dec (length inp) rest (take ?p inp)"
    using assms(1) by (simp_all add: lzf_inv_def Let_def)
  have "drop ?p inp ! length (lz_run s) = inp ! lz_ip s" using i(1) assms(2) by simp
  moreover have "length (lz_run s) < length (drop ?p inp)" using i(1) assms(2) by simp
  ultimately have run: "take (length ?run) (drop ?p inp) = ?run"
    using i(3) by (simp add: take_Suc_conv_app_nth)
  have b: "byte_at inp (lz_ip s) = inp ! lz_ip s" using assms(2) by (simp add: byte_at_def)
  show ?thesis
  proof (cases "length ?run = MAX_LIT")
    case False
    with i(1,2,4) run d assms(2) show ?thesis by (simp add: lzf_inv_def lzf_literal_def Let_def b)
  next
    case True
    have t: "take ?p inp @ ?run = take (Suc (lz_ip s)) inp"
      using take_add_drop [of ?p inp "length ?run"] i(1) unfolding run by simp
    have c: "length ?run - 1 = MAX_LIT - 1" by (simp only: True)
    have "lzf_dec (length inp) ((of_nat (length ?run - 1) # ?run) @ rest) (take ?p inp) =
        lzf_dec (length inp) rest (take ?p inp @ ?run)" for rest
      using i(1) assms(2) True by (intro lzf_dec_run) (simp_all add: MAX_LIT_def)
    then have "lzf_dec (length inp) ((lz_out s @ of_nat (MAX_LIT - 1) # ?run) @ rest) [] =
        lzf_dec (length inp) rest (take (Suc (lz_ip s)) inp)" for rest
      using d [of "(of_nat (MAX_LIT - 1) # ?run) @ rest"] by (simp only: t c append_assoc)
    moreover have "length (lz_run s) = 31" using True by (simp add: MAX_LIT_def)
    ultimately show ?thesis using i(1,2,4) assms(2) by (simp add: lzf_inv_def lzf_literal_def Let_def b MAX_LIT_def)
  qed
qed

text \<open>A match: the run is closed and a back reference follows.\<close>

lemma lzf_match_inv:
  assumes inv: "lzf_inv inp s" and ref: "lzf_ref inp (lz_ip s) r0 = Some ref"
    and out: "lzf_stop_run n (lz_out s) (lz_run s) = Inr out" and len: "lzf_match_len inp ref (lz_ip s) = Inr len"
  shows "lzf_inv inp (s\<lparr>lz_hval := h, lz_htab := t, lz_out := out @ lzf_ref_bytes (lz_ip s - ref - 1) (len - 2),
      lz_run := [], lz_ip := lz_ip s + len\<rparr>)"
proof -
  note r = lzf_ref_SomeD [OF ref] and o = lzf_stop_run_ok [OF inv out]
  have len': "3 \<le> len" "len \<le> 264" "lz_ip s + len \<le> length inp" "same_at inp ref (lz_ip s) len"
    using lzf_match_len_ok [OF r(1,3,5)] len by auto
  let ?off = "lz_ip s - ref - 1"
  have "lzf_dec (length inp) (lzf_ref_bytes ?off (len - 2) @ rest) (take (lz_ip s) inp) =
      lzf_dec (length inp) rest (lzf_copy (len - 2 + 2) (?off + 1) (take (lz_ip s) inp))" for rest
    using r len' by (intro lzf_dec_ref) simp_all
  moreover have "lzf_copy (len - 2 + 2) (?off + 1) (take (lz_ip s) inp) = take (lz_ip s + len) inp"
  proof -
    have "len - 2 + 2 = len" "?off + 1 = lz_ip s - ref" using r(1) len'(1) by simp_all
    with lzf_copy_match [OF r(1) len'(3,4)] show ?thesis by (simp only:)
  qed
  ultimately have d: "lzf_dec (length inp) (out @ lzf_ref_bytes ?off (len - 2) @ rest) [] =
      lzf_dec (length inp) rest (take (lz_ip s + len) inp)" for rest
    using o(1) by simp
  have "length (lzf_ref_bytes ?off (len - 2)) = (if len < 9 then 2 else 3)" by (auto simp: lzf_ref_bytes_def)
  moreover have "32 * length (lz_out s) \<le> 33 * (lz_ip s - length (lz_run s))" "length (lz_run s) \<le> lz_ip s"
    using inv by (simp_all add: lzf_inv_def Let_def)
  ultimately have "32 * length (out @ lzf_ref_bytes ?off (len - 2)) \<le> 33 * (lz_ip s + len)"
    using o(2) len'(1) by (auto split: if_splits)
  with d len'(3) show ?thesis by (simp add: lzf_inv_def MAX_LIT_def)
qed

text \<open>What the main loop leaves behind; an overflow needs an output that has outgrown the input.\<close>

definition lzf_loop_post :: "byte list \<Rightarrow> nat \<Rightarrow> lzf_st option c_res \<Rightarrow> bool" where
  "lzf_loop_post inp out_len r \<longleftrightarrow> (case r of
     Inl e \<Rightarrow> e = OOB_write \<and> 32 * out_len + 165 \<le> 33 * length inp
   | Inr None \<Rightarrow> True
   | Inr (Some s) \<Rightarrow> lzf_inv inp s \<and> length inp \<le> lz_ip s + 2)"

lemma lzf_loop_ok: "lzf_inv inp s \<Longrightarrow> lzf_loop_post inp out_len (lzf_loop inp out_len s)"
proof (induction inp out_len s rule: lzf_loop.induct)
  case (1 inp out_len s)
  note inv = "1.prems"
  show ?case
  proof (cases "lz_ip s + 2 < length inp")
    case False
    with inv show ?thesis unfolding lzf_loop.simps [of inp out_len s] by (simp add: lzf_loop_post_def)
  next
    case True
    define hval where "hval = lzf_NEXT (lz_hval s) inp (lz_ip s)"
    define ht where "ht = (lz_htab s)(lzf_IDX hval \<mapsto> lz_ip s)"
    note IH = "1.IH" [OF True refl refl refl, folded hval_def, folded ht_def]
    show ?thesis
    proof (cases "lzf_ref inp (lz_ip s) (lz_htab s (lzf_IDX hval))")
      case None
      have "lzf_inv inp (lzf_literal inp (s\<lparr>lz_hval := hval, lz_htab := ht\<rparr>))"
        using inv True by (intro lzf_literal_inv) simp_all
      with IH(1) [OF None] None True show ?thesis
        unfolding lzf_loop.simps [of inp out_len s] by (simp add: Let_def hval_def [symmetric] ht_def [symmetric] lzf_loop_post_def)
    next
      case (Some ref)
      note r = lzf_ref_SomeD [OF Some]
      obtain len where len: "lzf_match_len inp ref (lz_ip s) = Inr len" using lzf_match_len_ok [OF r(1,3,5)] by blast
      show ?thesis
      proof (cases "lzf_stop_run out_len (lz_out s) (lz_run s)")
        case (Inl e)
        then have e: "e = OOB_write" "out_len \<le> length (lz_out s)" by (auto simp: lzf_stop_run_def split: if_splits)
        have "32 * length (lz_out s) \<le> 33 * (lz_ip s - length (lz_run s))" using inv by (simp add: lzf_inv_def Let_def)
        with e r(3) have "32 * out_len + 165 \<le> 33 * length inp" by linarith
        with True Some Inl e show ?thesis
          unfolding lzf_loop.simps [of inp out_len s] by (simp add: Let_def hval_def [symmetric] lzf_loop_post_def)
      next
        case (Inr out)
        let ?s2 = "s\<lparr>lz_hval := hval, lz_htab := ht, lz_out := out @ lzf_ref_bytes (lz_ip s - ref - 1) (len - 2),
          lz_run := [], lz_ip := lz_ip s + len\<rparr>"
        have inv2: "lzf_inv inp ?s2" by (rule lzf_match_inv [OF inv Some Inr len])
        with IH(2) [OF Some Inr _ len refl] True Some Inr len show ?thesis
          unfolding lzf_loop.simps [of inp out_len s]
          by (simp add: Let_def hval_def [symmetric] ht_def [symmetric] lzf_loop_post_def split del: if_split split: if_split)
      qed
    qed
  qed
qed

text \<open>The bytes left over, at most two.\<close>

definition lz_op :: "lzf_st \<Rightarrow> nat" where
  "lz_op s = length (lz_out s) + 1 + length (lz_run s)"

lemma lzf_tail_ok:
  assumes "lzf_inv inp s" and "length inp \<le> lz_ip s + 2"
  defines "s' \<equiv> ((lzf_literal inp) ^^ (length inp - lz_ip s)) s"
  shows "lzf_inv inp s'" "lz_ip s' = length inp" "lz_op s' \<le> lz_op s + 3"
proof -
  have l: "lz_op (lzf_literal inp t) = lz_op t + (if length (lz_run t) = 31 then 2 else 1)"
    "length (lz_run t) = 31 \<Longrightarrow> lz_run (lzf_literal inp t) = []" for t
    by (auto simp: lz_op_def lzf_literal_def Let_def MAX_LIT_def)
  have ip: "lz_ip s \<le> length inp" using assms(1) by (simp add: lzf_inv_def Let_def)
  consider "length inp = lz_ip s" | "length inp = lz_ip s + 1" | "length inp = lz_ip s + 2" using ip assms(2) by linarith
  then have "lzf_inv inp s' \<and> lz_ip s' = length inp \<and> lz_op s' \<le> lz_op s + 3"
  proof cases
    case 1
    with assms(1) show ?thesis by (simp add: s'_def)
  next
    case 2
    with assms(1) lzf_literal_inv [of inp s] l [of s] show ?thesis by (simp add: s'_def)
  next
    case 3
    have i1: "lzf_inv inp (lzf_literal inp s)" using assms(1) 3 by (intro lzf_literal_inv) simp_all
    have i2: "lzf_inv inp (lzf_literal inp (lzf_literal inp s))" using i1 3 by (intro lzf_literal_inv [OF i1]) simp
    have "s' = lzf_literal inp (lzf_literal inp s)" using 3 by (simp add: s'_def eval_nat_numeral)
    with i2 3 l show ?thesis by (cases "length (lz_run s) = 31") auto
  qed
  then show "lzf_inv inp s'" "lz_ip s' = length inp" "lz_op s' \<le> lz_op s + 3" by simp_all
qed

text \<open>All outcomes of the compressor.\<close>

lemma lzf_compress_ok:
  "case lzf_compress inp out_len of
     Inl e \<Rightarrow> e = OOB_write \<and> 32 * out_len + 165 \<le> 33 * length inp
   | Inr None \<Rightarrow> True
   | Inr (Some c) \<Rightarrow> c \<noteq> [] \<and> length c \<le> out_len \<and> lzf_decompress c (length inp) = Inr (Some inp)"
proof (cases "inp = [] \<or> out_len = 0")
  case True
  then show ?thesis by (simp add: lzf_compress_def)
next
  case False
  let ?s0 = "\<lparr>lz_ip = 0, lz_out = [], lz_run = [], lz_hval = lzf_FRST inp 0, lz_htab = Map.empty\<rparr>"
  have "lzf_inv inp ?s0" by (simp add: lzf_inv_def MAX_LIT_def)
  then have post: "lzf_loop_post inp out_len (lzf_loop inp out_len ?s0)" by (rule lzf_loop_ok)
  show ?thesis
  proof (cases "lzf_loop inp out_len ?s0")
    case (Inl e)
    with post False show ?thesis by (simp add: lzf_compress_def lzf_loop_post_def)
  next
    case (Inr r)
    show ?thesis
    proof (cases r)
      case None
      with Inr False show ?thesis by (simp add: lzf_compress_def)
    next
      case (Some s)
      have s: "lzf_inv inp s" "length inp \<le> lz_ip s + 2" using post Inr Some by (simp_all add: lzf_loop_post_def)
      let ?s' = "((lzf_literal inp) ^^ (length inp - lz_ip s)) s"
      note t = lzf_tail_ok [OF s]
      show ?thesis
      proof (cases "out_len < lz_op s + 3")
        case True
        with Inr Some False show ?thesis by (simp add: lzf_compress_def lz_op_def)
      next
        case room: False
        then have op: "lz_op ?s' \<le> out_len" using t(3) by simp
        then obtain out where out: "lzf_stop_run out_len (lz_out ?s') (lz_run ?s') = Inr out"
          by (simp add: lzf_stop_run_def lz_op_def)
        note o = lzf_stop_run_ok [OF t(1) out]
        have d: "lzf_dec (length inp) out [] = Inr (Some inp)" using o(1) [of "[]"] t(2) by (simp add: lzf_dec_def)
        have ne: "out \<noteq> []" using d False by (auto simp: lzf_dec_def)
        have "lzf_compress inp out_len = Inr (Some out)"
          using room Inr Some False out by (simp add: lzf_compress_def lz_op_def)
        moreover have "length out \<le> out_len" using o(2) op by (simp add: lz_op_def split: if_splits)
        ultimately show ?thesis using d ne by (simp add: lzf_dec_def lzf_decompress_def)
      qed
    qed
  qed
qed

subsection \<open>Properties of the component\<close>

text \<open>
  C23. The LZF codec. Whatever \<^verbatim>\<open>lzf_compress\<close> returns fits the output buffer and \<^verbatim>\<open>lzf_decompress\<close> restores the
  input from it; and with the buffer the rows give it, four bytes more than the text, an input of fewer than 293
  bytes is never written outside the buffer.
\<close>

theorem lzf_roundtrip:
  "(\<forall>c. lzf_compress inp out_len = Inr (Some c) \<longrightarrow>
      c \<noteq> [] \<and> length c \<le> out_len \<and> lzf_decompress c (length inp) = Inr (Some inp)) \<and>
   (length inp < 293 \<longrightarrow> (\<exists>r. lzf_compress inp (length inp + 4) = Inr r))"
proof (intro conjI allI impI)
  fix c
  assume "lzf_compress inp out_len = Inr (Some c)"
  with lzf_compress_ok [where inp = inp and out_len = out_len]
  show "c \<noteq> []" "length c \<le> out_len" "lzf_decompress c (length inp) = Inr (Some inp)" by simp_all
next
  assume "length inp < 293"
  with lzf_compress_ok [where inp = inp and out_len = "length inp + 4"] show "\<exists>r. lzf_compress inp (length inp + 4) = Inr r"
    by (cases "lzf_compress inp (length inp + 4)") auto
qed

definition demo_text :: "byte list" where
  "demo_text = bytes_of ''aaaaaaaa''"

lemma c_bind_weak_cong: "r = r' \<Longrightarrow> c_bind r f = c_bind r' f"
  by simp

lemmas lzf_eval = lzf_compress_def lzf_loop.simps lzf_NEXT_def lzf_FRST_def lzf_IDX_def byte_at_def Let_def
  lzf_ref_def lzf_literal_def lzf_stop_run_def lzf_match_len_def lzf_extend.simps lzf_ref_bytes_def
  MAX_LIT_def MAX_OFF_def MAX_REF_def

lemma demo_text_compress: "lzf_compress demo_text 12 = Inr (Some [1, 97, 97, 64, 0, 1, 97, 97])"
  by (simp add: demo_text_def bytes_of_def lzf_eval cong: c_bind_weak_cong)

theorem lzf_roundtrip_witness:
  "lzf_decompress [1, 97, 97, 64, 0, 1, 97, 97] (length demo_text) = Inr (Some demo_text) \<and>
   (\<exists>r. lzf_compress demo_text (length demo_text + 4) = Inr r)"
proof -
  have "length demo_text < 293" by (simp add: demo_text_def bytes_of_def)
  then show ?thesis using lzf_roundtrip [of demo_text 12] demo_text_compress by blast
qed

end
