(* ===== verification/Alc_Hash.thy ===== *)
theory Alc_Hash
  imports Alc_Prelude
begin

text \<open>
  The hash tables of \<^verbatim>\<open>src/DB/hash.c\<close> that a sparse row carries. \<^verbatim>\<open>hash16\<close> is a copy of \<^verbatim>\<open>hash32\<close> with other
  widths, so both are instances of one model: \<open>'c\<close> is the width of the collision counter of an entry (32 and 8
  bits), \<open>'k\<close> that of the key (32 and 16 bits) and \<open>'v\<close> that of the value (64 and 32 bits). An entry with the
  key 0 is free. A table made by \<^verbatim>\<open>malloc\<close> and one inside a row differ only in where the entries are kept.
\<close>

record ('c, 'k, 'v) ahash_entry =
  n_colijns :: 'c
  ekey :: 'k
  eval :: 'v

record ('c, 'k, 'v) ahash =
  nvalid :: nat
  nentries :: nat
  max_colijns :: nat
  entries :: "('c, 'k, 'v) ahash_entry list"

type_synonym ('c, 'k, 'v) entry_w = "('c word, 'k word, 'v word) ahash_entry"
type_synonym ('c, 'k, 'v) ahash_w = "('c word, 'k word, 'v word) ahash"

definition MAX_COLLISIONS :: nat where "MAX_COLLISIONS = 25"

definition free_entry :: "('c::len, 'k::len, 'v::len) entry_w" where
  "free_entry = \<lparr>n_colijns = 0, ekey = 0, eval = 0\<rparr>"

definition hash_init :: "('c, 'k, 'v) ahash_w \<Rightarrow> ('c, 'k, 'v) ahash_w" where
  "hash_init ht = ht\<lparr>nvalid := 0, max_colijns := if max_colijns ht = 0 then MAX_COLLISIONS else max_colijns ht\<rparr>"

definition hash_make :: "nat \<Rightarrow> ('c::len, 'k::len, 'v::len) ahash_w" where
  "hash_make n = (let n = (if n = 0 then 2 else n) in
     hash_init \<lparr>nvalid = 0, nentries = n, max_colijns = 0, entries = replicate n free_entry\<rparr>)"

text \<open>The size of a table in bytes: \<open>esize\<close> per entry and \<open>hsize\<close> for the header.\<close>

definition hash_size :: "nat \<Rightarrow> nat \<Rightarrow> ('c, 'k, 'v) ahash_w \<Rightarrow> nat" where
  "hash_size esize hsize ht = nentries ht * esize + hsize"

subsection \<open>Search\<close>

text \<open>
  The slots searched after \<open>index\<close>: up to \<open>index + c\<close>, then from the start of the table; the search for an
  insertion clips the second part to the table.
\<close>

definition probe_slots :: "bool \<Rightarrow> nat \<Rightarrow> nat \<Rightarrow> nat \<Rightarrow> nat list" where
  "probe_slots clip n index c =
     (let last_index = index + c in
      if last_index \<ge> n
      then [index + 1..<n] @ [0..<if clip then min n (last_index - n + 1) else last_index - n + 1]
      else [index + 1..<last_index + 1])"

fun probe :: "(('c, 'k, 'v) entry_w \<Rightarrow> bool) \<Rightarrow> ('c, 'k, 'v) entry_w list \<Rightarrow> nat list \<Rightarrow> nat \<Rightarrow>
    (nat \<times> nat) option c_res" where
  "probe P es [] c = Inr None"
| "probe P es (i # is) c =
     c_bind (c_read es i) (\<lambda>e. if P e then Inr (Some (i, c)) else probe P es is (c + 1))"

definition lookup_entry :: "'k::len word \<Rightarrow> ('c::len, 'k, 'v) ahash_w \<Rightarrow> nat option c_res" where
  "lookup_entry key ht =
     (let index = unat key mod nentries ht in
      c_bind (c_read (entries ht) index) (\<lambda>entry.
        if ekey entry = key then Inr (Some index)
        else if n_colijns entry > 0
        then c_bind (probe (\<lambda>e. ekey e = key) (entries ht) (probe_slots False (nentries ht) index (unat (n_colijns entry))) 1)
               (\<lambda>r. Inr (map_option fst r))
        else Inr None))"

definition hash_slot :: "'k::len word \<Rightarrow> ('c, 'k, 'v) entry_w \<Rightarrow> bool" where
  "hash_slot key e \<longleftrightarrow> ekey e = key \<or> ekey e = 0"

text \<open>
  The slot for an insertion. On the label \<^verbatim>\<open>done\<close> the collision counter of the first slot is raised, cut to its
  width.
\<close>

definition lookup_insert_entry :: "'k::len word \<Rightarrow> ('c::len, 'k, 'v) ahash_w \<Rightarrow>
    (nat option \<times> ('c, 'k, 'v) ahash_w) c_res" where
  "lookup_insert_entry key ht =
     (let index = unat key mod nentries ht in
      c_bind (c_read (entries ht) index) (\<lambda>entry.
        if hash_slot key entry then Inr (Some index, ht)
        else
          c_bind (probe (hash_slot key) (entries ht) (probe_slots True (nentries ht) index (max_colijns ht)) 1) (\<lambda>r.
            case r of
              None \<Rightarrow> Inr (None, ht)
            | Some (i, n) \<Rightarrow>
                Inr (Some i, if n > unat (n_colijns entry)
                  then ht\<lparr>entries := (entries ht)[index := entry\<lparr>n_colijns := of_nat n\<rparr>]\<rparr> else ht))))"

subsection \<open>Insertion\<close>

text \<open>The loop that raises \<^verbatim>\<open>max_colijns\<close>, with a bound on its turns.\<close>

fun expand_loop :: "nat \<Rightarrow> 'k::len word \<Rightarrow> ('c::len, 'k, 'v) ahash_w \<Rightarrow> ('c, 'k, 'v) ahash_w option c_res" where
  "expand_loop 0 key ht = Inr None"
| "expand_loop (Suc fuel) key ht =
     (if max_colijns ht = nentries ht then Inr (Some ht)
      else
        let m = max_colijns ht + max_colijns ht div 2;
            ht = ht\<lparr>max_colijns := if m > nentries ht then nentries ht else m\<rparr>
        in c_bind (lookup_insert_entry key ht) (\<lambda>(v, ht).
             case v of Some _ \<Rightarrow> Inr (Some ht) | None \<Rightarrow> expand_loop fuel key ht))"

text \<open>The part of \<^verbatim>\<open>rehash\<close> before its loop: a quarter more entries, all free.\<close>

definition rehash_grow :: "('c::len, 'k::len, 'v::len) ahash_w \<Rightarrow> ('c, 'k, 'v) ahash_w" where
  "rehash_grow ht =
     (let n = nentries ht + max 2 (nentries ht div 4) in
      hash_init (ht\<lparr>nentries := n, entries := replicate n free_entry\<rparr>))"

definition hash_put :: "nat \<Rightarrow> 'k::len word \<Rightarrow> 'v word \<Rightarrow> ('c::len, 'k, 'v) ahash_w \<Rightarrow> ('c, 'k, 'v) ahash_w c_res" where
  "hash_put v key val ht =
     c_bind (c_read (entries ht) v) (\<lambda>e.
       if ekey e = key then Inr (ht\<lparr>entries := (entries ht)[v := e\<lparr>eval := val\<rparr>]\<rparr>)
       else Inr (ht\<lparr>entries := (entries ht)[v := e\<lparr>ekey := key, eval := val\<rparr>], nvalid := nvalid ht + 1\<rparr>))"

text \<open>
  \<^verbatim>\<open>hash32_insert\<close> and the loop of \<^verbatim>\<open>rehash32\<close> call each other; the first argument bounds the nesting and the
  jumps to \<^verbatim>\<open>add\<close>, \<open>None\<close> is running out of it. The status is 0 or -1.
\<close>

function (sequential) hash_insert :: "nat \<Rightarrow> 'k::len word \<Rightarrow> 'v::len word \<Rightarrow> nat \<Rightarrow> ('c::len, 'k, 'v) ahash_w \<Rightarrow>
      (int \<times> ('c, 'k, 'v) ahash_w) option c_res"
  and rehash_loop :: "nat \<Rightarrow> nat \<Rightarrow> ('c, 'k, 'v) entry_w list \<Rightarrow> ('c, 'k, 'v) ahash_w \<Rightarrow>
      (int \<times> ('c, 'k, 'v) ahash_w) option c_res" where
  "hash_insert 0 key val lvl ht = Inr None"
| "hash_insert (Suc fuel) key val lvl ht =
     (if key = 0 then Inr (Some (- 1, ht))
      else
        c_bind (lookup_insert_entry key ht) (\<lambda>(v, ht). case v of
          Some v \<Rightarrow> c_bind (hash_put v key val ht) (\<lambda>ht. Inr (Some (0, ht)))
        | None \<Rightarrow>
            c_bind (if lvl > 1 then expand_loop (nentries ht + 2) key ht else Inr (Some ht)) (\<lambda>x. case x of
              None \<Rightarrow> Inr None
            | Some ht \<Rightarrow>
                c_bind (rehash_loop fuel (lvl + 1) (entries ht) (rehash_grow ht)) (\<lambda>r. case r of
                  None \<Rightarrow> Inr None
                | Some (status, ht) \<Rightarrow>
                    if status \<noteq> 0 then Inr (Some (- 1, ht)) else hash_insert fuel key val lvl ht))))"
| "rehash_loop fuel lvl [] ht = Inr (Some (0, ht))"
| "rehash_loop fuel lvl (e # es) ht =
     (if ekey e \<noteq> 0 then
        c_bind (hash_insert fuel (ekey e) (eval e) lvl ht) (\<lambda>r. case r of
          None \<Rightarrow> Inr None
        | Some (status, ht) \<Rightarrow> if status \<noteq> 0 then Inr (Some (status, ht)) else rehash_loop fuel lvl es ht)
      else rehash_loop fuel lvl es ht)"
  by pat_completeness auto
termination
  by (relation "inv_image (less_than <*lex*> less_than) (\<lambda>x. case x of
      Inl (fuel, key, val, lvl, ht) \<Rightarrow> (fuel, 0) | Inr (fuel, lvl, es, ht) \<Rightarrow> (fuel, Suc (length es)))") auto

definition alc_hash_insert :: "nat \<Rightarrow> 'k::len word \<Rightarrow> 'v::len word \<Rightarrow> ('c::len, 'k, 'v) ahash_w \<Rightarrow>
    (int \<times> ('c, 'k, 'v) ahash_w) option c_res" where
  "alc_hash_insert fuel key val ht = hash_insert fuel key val 0 ht"

subsection \<open>Deletion and fetch\<close>

definition alc_hash_delete :: "'k::len word \<Rightarrow> ('c::len, 'k, 'v) ahash_w \<Rightarrow> ('c, 'k, 'v) ahash_w c_res" where
  "alc_hash_delete key ht =
     (if key = 0 then Inr ht
      else c_bind (lookup_entry key ht) (\<lambda>v. case v of
        None \<Rightarrow> Inr ht
      | Some i \<Rightarrow> c_bind (c_read (entries ht) i) (\<lambda>e.
          Inr (ht\<lparr>entries := (entries ht)[i := e\<lparr>ekey := 0\<rparr>], nvalid := nvalid ht - 1\<rparr>))))"

definition alc_hash_fetch :: "'k::len word \<Rightarrow> ('c::len, 'k, 'v::len) ahash_w \<Rightarrow> 'v word c_res" where
  "alc_hash_fetch key ht =
     (if key = 0 then Inr 0
      else c_bind (lookup_entry key ht) (\<lambda>v. case v of
        None \<Rightarrow> Inr 0
      | Some i \<Rightarrow> c_bind (c_read (entries ht) i) (\<lambda>e. Inr (eval e))))"

subsection \<open>The two instances\<close>

type_synonym ahash32 = "(32, 32, 64) ahash_w"
type_synonym ahash16 = "(8, 16, 32) ahash_w"

definition alc_hash32_make :: "nat \<Rightarrow> ahash32" where "alc_hash32_make n = hash_make n"
definition alc_hash16_make :: "nat \<Rightarrow> ahash16" where "alc_hash16_make n = hash_make n"
definition alc_hash32_size :: "ahash32 \<Rightarrow> nat" where "alc_hash32_size ht = hash_size 16 24 ht"
definition alc_hash16_size :: "ahash16 \<Rightarrow> nat" where "alc_hash16_size ht = hash_size 7 24 ht"
definition lookup_16entry :: "ushort16 \<Rightarrow> ahash16 \<Rightarrow> nat option c_res" where
  "lookup_16entry key ht = lookup_entry key ht"
definition lookup_16insert_entry :: "ushort16 \<Rightarrow> ahash16 \<Rightarrow> (nat option \<times> ahash16) c_res" where
  "lookup_16insert_entry key ht = lookup_insert_entry key ht"
definition hash16_insert :: "nat \<Rightarrow> ushort16 \<Rightarrow> uint32 \<Rightarrow> nat \<Rightarrow> ahash16 \<Rightarrow> (int \<times> ahash16) option c_res" where
  "hash16_insert fuel key val lvl ht = hash_insert fuel key val lvl ht"
definition rehash32 :: "nat \<Rightarrow> nat \<Rightarrow> ahash32 \<Rightarrow> (int \<times> ahash32) option c_res" where
  "rehash32 fuel lvl ht = rehash_loop fuel lvl (entries ht) (rehash_grow ht)"
definition rehash16 :: "nat \<Rightarrow> nat \<Rightarrow> ahash16 \<Rightarrow> (int \<times> ahash16) option c_res" where
  "rehash16 fuel lvl ht = rehash_loop fuel lvl (entries ht) (rehash_grow ht)"
definition alc_hash32_insert :: "nat \<Rightarrow> uint32 \<Rightarrow> ulong \<Rightarrow> ahash32 \<Rightarrow> (int \<times> ahash32) option c_res" where
  "alc_hash32_insert fuel key val ht = alc_hash_insert fuel key val ht"
definition alc_hash16_insert :: "nat \<Rightarrow> ushort16 \<Rightarrow> uint32 \<Rightarrow> ahash16 \<Rightarrow> (int \<times> ahash16) option c_res" where
  "alc_hash16_insert fuel key val ht = alc_hash_insert fuel key val ht"
definition alc_hash16_delete :: "ushort16 \<Rightarrow> ahash16 \<Rightarrow> ahash16 c_res" where
  "alc_hash16_delete key ht = alc_hash_delete key ht"
definition alc_hash32_fetch :: "uint32 \<Rightarrow> ahash32 \<Rightarrow> ulong c_res" where "alc_hash32_fetch key ht = alc_hash_fetch key ht"
definition alc_hash16_fetch :: "ushort16 \<Rightarrow> ahash16 \<Rightarrow> uint32 c_res" where "alc_hash16_fetch key ht = alc_hash_fetch key ht"

subsection \<open>The probe order\<close>

text \<open>The slot at distance \<open>d\<close> from the home slot of a key, in a table of \<open>n\<close> entries.\<close>

definition hslot :: "nat \<Rightarrow> 'k::len word \<Rightarrow> nat \<Rightarrow> nat" where
  "hslot n key d = (unat key + d) mod n"

lemma hslot_less [simp]: "0 < n \<Longrightarrow> hslot n key d < n"
  by (simp add: hslot_def)

lemma hslot_0: "unat key mod n = hslot n key 0"
  by (simp add: hslot_def)

lemma hslot_wrap: "n \<le> d \<Longrightarrow> hslot n key (d - n) = hslot n key d"
  using mod_add_self2 [of "unat key + (d - n)" n] unfolding hslot_def by simp

lemma hslot_inj: "hslot n key d = hslot n key d' \<Longrightarrow> d < n \<Longrightarrow> d' < n \<Longrightarrow> d = d'"
proof (induction d d' rule: linorder_wlog)
  case (le a b)
  then have "n dvd (unat key + b) - (unat key + a)" unfolding hslot_def by (intro mod_eq_dvd_iff_nat [THEN iffD1]) auto
  then have "n dvd b - a" by simp
  with le show ?case by (metis diff_is_0_eq dvd_imp_le less_imp_diff_less nat_dvd_not_less not_less zero_less_diff order_antisym)
qed auto

definition probe_len :: "bool \<Rightarrow> nat \<Rightarrow> nat \<Rightarrow> nat \<Rightarrow> nat" where
  "probe_len clip n index c = (if clip then min c (2 * n - 1 - index) else c)"

lemma probe_slots_eq:
  assumes "index < n" "clip \<or> c < n" "index = hslot n key 0"
  shows "probe_slots clip n index c = map (hslot n key) [1..<Suc (probe_len clip n index c)]"
proof -
  have h: "hslot n key d = (if index + d < n then index + d else index + d - n)" if "index + d < 2 * n" for d
  proof -
    have "hslot n key d = (index + d) mod n" by (simp add: assms(3) hslot_def mod_simps)
    also have "\<dots> = (if index + d < n then index + d else index + d - n)" using that by (simp add: mod_if)
    finally show ?thesis .
  qed
  show ?thesis
  proof (cases "n \<le> index + c")
    case True
    define w where "w = (if clip then min n (index + c - n + 1) else index + c - n + 1)"
    have w: "w \<le> n" using assms(1,2) True by (auto simp: w_def)
    have len: "Suc (probe_len clip n index c) = n - index + w"
      using assms(1,2) True by (auto simp: probe_len_def min_def w_def)
    have "[1..<n - index + w] = [1..<n - index] @ [n - index..<n - index + w]"
      using assms(1) by (intro upt_add_eq_append) simp
    moreover have "map (hslot n key) [1..<n - index] = [index + 1..<n]"
      using assms(1) by (intro nth_equalityI) (auto simp: h)
    moreover have "map (hslot n key) [n - index..<n - index + w] = [0..<w]"
      using assms(1) w by (intro nth_equalityI) (auto simp: h)
    ultimately show ?thesis
      using True unfolding len by (simp add: probe_slots_def Let_def w_def)
  next
    case False
    then have "map (hslot n key) [1..<Suc c] = [index + 1..<index + c + 1]"
      by (intro nth_equalityI) (auto simp: h simp del: upt_Suc)
    moreover have "probe_len clip n index c = c" using False assms(1) by (auto simp: probe_len_def)
    ultimately show ?thesis using False by (simp add: probe_slots_def Let_def del: upt_Suc)
  qed
qed

text \<open>A search returns the least distance at which the predicate holds.\<close>

lemma probe_map:
  assumes "\<And>d. a \<le> d \<Longrightarrow> d < a + m \<Longrightarrow> f d < length es"
  shows "(\<exists>d. probe P es (map f [a..<a + m]) a = Inr (Some (f d, d)) \<and> a \<le> d \<and> d < a + m \<and> P (es ! f d) \<and>
       (\<forall>d'. a \<le> d' \<and> d' < d \<longrightarrow> \<not> P (es ! f d'))) \<or>
     probe P es (map f [a..<a + m]) a = Inr None \<and> (\<forall>d. a \<le> d \<and> d < a + m \<longrightarrow> \<not> P (es ! f d))"
  using assms
proof (induction m arbitrary: a)
  case 0
  then show ?case by auto
next
  case (Suc m)
  have up: "[a..<a + Suc m] = a # [Suc a..<Suc a + m]" by (simp add: upt_conv_Cons)
  have a: "f a < length es" using Suc.prems [of a] by simp
  show ?case
  proof (cases "P (es ! f a)")
    case True
    then show ?thesis unfolding up using a by (intro disjI1 exI [of _ a]) auto
  next
    case False
    have step: "probe P es (map f [a..<a + Suc m]) a = probe P es (map f [Suc a..<Suc a + m]) (Suc a)"
      unfolding up using a False by simp
    have "\<And>d. Suc a \<le> d \<Longrightarrow> d < Suc a + m \<Longrightarrow> f d < length es" using Suc.prems by simp
    from Suc.IH [OF this] consider
      (found) d where "probe P es (map f [Suc a..<Suc a + m]) (Suc a) = Inr (Some (f d, d))" "Suc a \<le> d" "d < Suc a + m"
        "P (es ! f d)" "\<And>d'. Suc a \<le> d' \<Longrightarrow> d' < d \<Longrightarrow> \<not> P (es ! f d')"
    | (none) "probe P es (map f [Suc a..<Suc a + m]) (Suc a) = Inr None" "\<And>d. Suc a \<le> d \<Longrightarrow> d < Suc a + m \<Longrightarrow> \<not> P (es ! f d)"
      by blast
    then show ?thesis
    proof cases
      case found
      have "\<not> P (es ! f d')" if "a \<le> d'" "d' < d" for d'
        using found(5) [of d'] that False by (cases "d' = a") auto
      with found show ?thesis unfolding step by (intro disjI1 exI [of _ d]) auto
    next
      case none
      have "\<not> P (es ! f d)" if "a \<le> d" "d < a + Suc m" for d
        using none(2) [of d] that False by (cases "d = a") auto
      with none show ?thesis unfolding step by (intro disjI2) auto
    qed
  qed
qed

subsection \<open>The invariant of a table without deletions\<close>

text \<open>
  The key at distance \<open>d\<close> from its home slot is reachable: the counter of the home slot covers \<open>d\<close>, and the slots
  before it are taken.
\<close>

definition chain :: "('c::len, 'k::len, 'v) entry_w list \<Rightarrow> 'k word \<Rightarrow> nat \<Rightarrow> bool" where
  "chain es key d \<longleftrightarrow> d < length es \<and> d \<le> unat (n_colijns (es ! hslot (length es) key 0)) \<and>
     (\<forall>d' < d. ekey (es ! hslot (length es) key d') \<noteq> 0)"

definition hash_ok :: "nat \<Rightarrow> ('c::len, 'k::len, 'v) ahash_w \<Rightarrow> bool" where
  "hash_ok K ht \<longleftrightarrow>
     length (entries ht) = nentries ht \<and> 2 \<le> nentries ht \<and> nentries ht \<le> 2 ^ LENGTH('c) \<and> 2 \<le> max_colijns ht \<and>
     (\<forall>e \<in> set (entries ht). unat (n_colijns e) \<le> max_colijns ht \<and> unat (n_colijns e) < nentries ht) \<and>
     (\<forall>i < nentries ht. ekey (entries ht ! i) \<noteq> 0 \<longrightarrow> unat (ekey (entries ht ! i)) \<le> K \<and>
        (\<exists>d. hslot (nentries ht) (ekey (entries ht ! i)) d = i \<and> chain (entries ht) (ekey (entries ht ! i)) d)) \<and>
     (\<forall>i < nentries ht. \<forall>j < nentries ht. ekey (entries ht ! i) \<noteq> 0 \<and> ekey (entries ht ! i) = ekey (entries ht ! j) \<longrightarrow> i = j) \<and>
     (K < nentries ht \<longrightarrow> (\<forall>i < nentries ht. ekey (entries ht ! i) \<noteq> 0 \<longrightarrow> unat (ekey (entries ht ! i)) = i))"

text \<open>The contents as a map.\<close>

definition hmap :: "('c, 'k::len, 'v) entry_w list \<Rightarrow> 'k word \<Rightarrow> 'v word option" where
  "hmap es k = (if k = 0 then None else map_of (map (\<lambda>e. (ekey e, eval e)) es) k)"

lemma hash_okD:
  assumes "hash_ok K ht"
  shows "length (entries ht) = nentries ht" "2 \<le> nentries ht" "2 \<le> max_colijns ht"
    "\<And>e. e \<in> set (entries ht) \<Longrightarrow> unat (n_colijns e) \<le> max_colijns ht \<and> unat (n_colijns e) < nentries ht"
    "\<And>i. i < nentries ht \<Longrightarrow> ekey (entries ht ! i) \<noteq> 0 \<Longrightarrow> unat (ekey (entries ht ! i)) \<le> K \<and>
        (\<exists>d. hslot (nentries ht) (ekey (entries ht ! i)) d = i \<and> chain (entries ht) (ekey (entries ht ! i)) d)"
    "\<And>i j. i < nentries ht \<Longrightarrow> j < nentries ht \<Longrightarrow> ekey (entries ht ! i) \<noteq> 0 \<Longrightarrow>
        ekey (entries ht ! i) = ekey (entries ht ! j) \<Longrightarrow> i = j"
    "\<And>i. K < nentries ht \<Longrightarrow> i < nentries ht \<Longrightarrow> ekey (entries ht ! i) \<noteq> 0 \<Longrightarrow> unat (ekey (entries ht ! i)) = i"
  using assms unfolding hash_ok_def by blast+

lemma hash_ok_width: "hash_ok K (ht :: ('c::len, 'k::len, 'v) ahash_w) \<Longrightarrow> nentries ht \<le> 2 ^ LENGTH('c)"
  by (simp add: hash_ok_def)

lemma hmap_Some_slot:
  assumes "hmap es k = Some v"
  shows "k \<noteq> 0 \<and> (\<exists>i < length es. ekey (es ! i) = k \<and> eval (es ! i) = v)"
proof -
  have "k \<noteq> 0" and "(k, v) \<in> set (map (\<lambda>e. (ekey e, eval e)) es)"
    using assms by (auto simp: hmap_def dest: map_of_SomeD split: if_splits)
  then show ?thesis by (auto simp: in_set_conv_nth)
qed

lemma hmap_none: "hmap es k = None \<longleftrightarrow> k = 0 \<or> (\<forall>e \<in> set es. ekey e \<noteq> k)"
  by (auto simp: hmap_def map_of_eq_None_iff image_iff)

lemma hmap_at:
  assumes "hash_ok K ht" "i < nentries ht" "ekey (entries ht ! i) = k" "k \<noteq> 0"
  shows "hmap (entries ht) k = Some (eval (entries ht ! i))"
proof -
  note D = hash_okD [OF assms(1)]
  have "entries ht ! i \<in> set (entries ht)" using D(1) assms(2) by simp
  then have "hmap (entries ht) k \<noteq> None" using assms(3,4) by (auto simp: hmap_none)
  then obtain v where v: "hmap (entries ht) k = Some v" by blast
  then obtain j where "j < nentries ht" "ekey (entries ht ! j) = k" "eval (entries ht ! j) = v"
    using hmap_Some_slot D(1) by fastforce
  moreover from this have "j = i" using D(6) [of j i] assms(2-4) by simp
  ultimately show ?thesis using v by simp
qed

lemma hmap_cong: "map (\<lambda>e. (ekey e, eval e)) es = map (\<lambda>e. (ekey e, eval e)) es' \<Longrightarrow> hmap es = hmap es'"
  by (rule ext) (simp add: hmap_def)

text \<open>Raising the counter of an entry within the bounds keeps the invariant and the contents.\<close>

lemma hash_ok_raise:
  fixes ht :: "('c::len, 'k::len, 'v) ahash_w"
  assumes ok: "hash_ok K ht" and h: "h < nentries ht" "unat (n_colijns (entries ht ! h)) \<le> n" "n \<le> max_colijns ht" "n < nentries ht"
  defines "es \<equiv> (entries ht)[h := (entries ht ! h)\<lparr>n_colijns := of_nat n\<rparr>]"
  shows "hash_ok K (ht\<lparr>entries := es\<rparr>)" "hmap es = hmap (entries ht)"
    "\<And>i. i < nentries ht \<Longrightarrow> ekey (es ! i) = ekey (entries ht ! i)"
proof -
  note D = hash_okD [OF ok]
  have u: "unat (of_nat n :: 'c word) = n"
    using h(4) hash_ok_width [OF ok] by (simp add: unat_of_nat)
  have len: "length es = length (entries ht)" by (simp add: es_def)
  have k: "ekey (es ! i) = ekey (entries ht ! i)" "eval (es ! i) = eval (entries ht ! i)"
    if "i < nentries ht" for i
    using that D(1) h(1) by (auto simp: es_def nth_list_update)
  show "\<And>i. i < nentries ht \<Longrightarrow> ekey (es ! i) = ekey (entries ht ! i)" by (rule k)
  have nc: "unat (n_colijns (entries ht ! i)) \<le> unat (n_colijns (es ! i))" if "i < nentries ht" for i
    using that D(1) h(1,2) u by (auto simp: es_def nth_list_update)
  have ch: "chain es q d" if "chain (entries ht) q d" for q d
    using that nc [of "hslot (length es) q 0"] k(1) D(1,2) unfolding chain_def len by (force simp: order_trans)
  have cnt: "unat (n_colijns e) \<le> max_colijns ht \<and> unat (n_colijns e) < nentries ht" if "e \<in> set es" for e
    using that set_update_subset_insert [of "entries ht" h] D(4) h(3,4) u unfolding es_def by fastforce
  show "hash_ok K (ht\<lparr>entries := es\<rparr>)"
    unfolding hash_ok_def using D(1-3) hash_ok_width [OF ok] cnt k(1) D(5-7) ch len
    by (auto simp: split: if_splits) metis+
  show "hmap es = hmap (entries ht)"
    by (rule hmap_cong) (use k D(1) len in \<open>auto intro!: nth_equalityI\<close>)
qed

subsection \<open>Search in a table that satisfies the invariant\<close>

lemma key_chain:
  assumes ok: "hash_ok K ht" and "i < nentries ht" "ekey (entries ht ! i) = key" "key \<noteq> 0"
  obtains d where "hslot (nentries ht) key d = i" "chain (entries ht) key d"
  using hash_okD(5) [OF ok assms(2)] assms(3,4) by blast

lemma own_slot:
  assumes ok: "hash_ok K ht" and "K < nentries ht" "unat key \<le> K"
  shows "hash_slot key (entries ht ! hslot (nentries ht) key 0)" "hslot (nentries ht) key 0 = unat key"
proof -
  show h: "hslot (nentries ht) key 0 = unat key" using assms(2,3) by (simp add: hslot_def)
  show "hash_slot key (entries ht ! hslot (nentries ht) key 0)"
    using hash_okD(7) [OF ok assms(2), of "unat key"] assms(2,3) unfolding h hash_slot_def
    by (auto simp: word_unat_eq_iff)
qed

lemma probe_home:
  fixes key :: "'k::len word" and P :: "('c::len, 'k, 'v) entry_w \<Rightarrow> bool"
  assumes ok: "hash_ok K ht" and c: "clip \<or> c < nentries ht"
  defines "n \<equiv> nentries ht" and "f \<equiv> hslot (nentries ht) key"
  defines "ps \<equiv> probe P (entries ht) (probe_slots clip n (f 0) c) 1"
  shows "(\<exists>d. ps = Inr (Some (f d, d)) \<and> 1 \<le> d \<and> d \<le> probe_len clip n (f 0) c \<and> P (entries ht ! f d) \<and>
       (\<forall>d'. 1 \<le> d' \<and> d' < d \<longrightarrow> \<not> P (entries ht ! f d'))) \<or>
     ps = Inr None \<and> (\<forall>d. 1 \<le> d \<and> d \<le> probe_len clip n (f 0) c \<longrightarrow> \<not> P (entries ht ! f d))"
proof -
  note D = hash_okD [OF ok]
  have f: "f d < length (entries ht)" for d using D(1,2) by (simp add: f_def)
  have "probe_slots clip n (f 0) c = map f [1..<1 + probe_len clip n (f 0) c]"
    using probe_slots_eq [of "f 0" n clip c key] c D(2) unfolding n_def f_def by simp
  then show ?thesis
    using probe_map [of 1 "probe_len clip n (f 0) c" f "entries ht" P] f unfolding ps_def by (auto simp: less_Suc_eq_le)
qed

text \<open>The slot an insertion finds is the first one in probe order that is free or has the key.\<close>

definition put_slot :: "nat \<Rightarrow> 'k::len word \<Rightarrow> ('c::len, 'k, 'v) ahash_w \<Rightarrow> nat \<Rightarrow> ('c, 'k, 'v) ahash_w \<Rightarrow> bool" where
  "put_slot K key ht d ht' \<longleftrightarrow> d < nentries ht \<and> hash_slot key (entries ht' ! hslot (nentries ht) key d) \<and>
     (\<forall>d' < d. \<not> hash_slot key (entries ht' ! hslot (nentries ht) key d')) \<and>
     d \<le> unat (n_colijns (entries ht' ! hslot (nentries ht) key 0)) \<and>
     hash_ok K ht' \<and> hmap (entries ht') = hmap (entries ht) \<and> nentries ht' = nentries ht \<and> max_colijns ht' = max_colijns ht"

lemma lookup_insert_spec:
  fixes ht :: "('c::len, 'k::len, 'v) ahash_w"
  assumes ok: "hash_ok K ht" and key: "unat key \<le> K"
  shows "(\<exists>d ht'. lookup_insert_entry key ht = Inr (Some (hslot (nentries ht) key d), ht') \<and> put_slot K key ht d ht') \<or>
     lookup_insert_entry key ht = Inr (None, ht) \<and> nentries ht \<le> K"
proof -
  note D = hash_okD [OF ok]
  let ?n = "nentries ht" and ?es = "entries ht" and ?f = "hslot (nentries ht) key"
  have f: "?f d < length ?es" "?f d < ?n" for d using D(1,2) by simp_all
  have rd: "c_read ?es (unat key mod ?n) = Inr (?es ! ?f 0)" using f(1) by (simp add: hslot_0)
  show ?thesis
  proof (cases "hash_slot key (?es ! ?f 0)")
    case True
    then have "lookup_insert_entry key ht = Inr (Some (?f 0), ht)"
      using rd by (simp add: lookup_insert_entry_def Let_def hslot_0)
    moreover have "put_slot K key ht 0 ht" using True ok D(2) by (simp add: put_slot_def)
    ultimately show ?thesis by blast
  next
    case False
    then have nK: "?n \<le> K" using own_slot(1) [OF ok _ key] by (meson not_le)
    let ?p = "probe (hash_slot key) ?es (probe_slots True ?n (?f 0) (max_colijns ht)) 1"
    consider (found) d where "?p = Inr (Some (?f d, d))" "1 \<le> d" "d \<le> probe_len True ?n (?f 0) (max_colijns ht)"
        "hash_slot key (?es ! ?f d)" "\<And>d'. 1 \<le> d' \<Longrightarrow> d' < d \<Longrightarrow> \<not> hash_slot key (?es ! ?f d')"
      | (none) "?p = Inr None"
      using probe_home [OF ok, of True "max_colijns ht" "hash_slot key" key] by blast
    then show ?thesis
    proof cases
      case none
      then have "lookup_insert_entry key ht = Inr (None, ht)"
        using rd False by (simp add: lookup_insert_entry_def Let_def hslot_0)
      with nK show ?thesis by blast
    next
      case found
      have mn: "\<not> hash_slot key (?es ! ?f d')" if "d' < d" for d'
        using found(5) [of d'] False that by (cases d') auto
      have dn: "d < ?n"
      proof (rule ccontr)
        assume "\<not> d < ?n"
        then show False using mn [of "d - ?n"] found(4) D(2) hslot_wrap [of ?n d key] by simp
      qed
      have dm: "d \<le> max_colijns ht" using found(3) by (simp add: probe_len_def)
      define ht' where "ht' = (if d > unat (n_colijns (?es ! ?f 0))
        then ht\<lparr>entries := ?es[?f 0 := (?es ! ?f 0)\<lparr>n_colijns := of_nat d\<rparr>]\<rparr> else ht)"
      have run: "lookup_insert_entry key ht = Inr (Some (?f d), ht')"
        using rd False found(1) by (simp add: lookup_insert_entry_def Let_def hslot_0 ht'_def)
      have "put_slot K key ht d ht'"
      proof (cases "d > unat (n_colijns (?es ! ?f 0))")
        case True
        note R = hash_ok_raise [OF ok f(2) [of 0] less_imp_le [OF True] dm dn]
        have "hash_slot key (entries ht' ! i) = hash_slot key (?es ! i)" if "i < ?n" for i
          using R(3) [OF that] True by (simp add: ht'_def hash_slot_def)
        moreover have "unat (of_nat d :: 'c word) = d"
          using dn hash_ok_width [OF ok] by (simp add: unat_of_nat)
        ultimately show ?thesis
          using True R(1,2) dn found(4) mn f by (simp add: put_slot_def ht'_def)
      next
        case False
        then show ?thesis using dn found(4) mn ok by (simp add: put_slot_def ht'_def)
      qed
      with run show ?thesis by blast
    qed
  qed
qed

text \<open>A key that is in the table is found where it is.\<close>

lemma put_slot_key:
  assumes "put_slot K key ht d ht'" "key \<noteq> 0" "i < nentries ht" "ekey (entries ht' ! i) = key"
  shows "hslot (nentries ht) key d = i"
proof -
  have P: "hash_ok K ht'" "nentries ht' = nentries ht" "d < nentries ht"
    "hash_slot key (entries ht' ! hslot (nentries ht) key d)" "\<And>d'. d' < d \<Longrightarrow> \<not> hash_slot key (entries ht' ! hslot (nentries ht) key d')"
    using assms(1) by (auto simp: put_slot_def)
  obtain d0 where d0: "hslot (nentries ht) key d0 = i" "chain (entries ht') key d0"
    using key_chain [OF P(1) _ assms(4,2)] assms(3) P(2) by auto
  have len: "length (entries ht') = nentries ht" using hash_okD(1) [OF P(1)] P(2) by simp
  have "\<not> d0 < d" using P(5) [of d0] d0(1) assms(4) by (auto simp: hash_slot_def)
  moreover have "\<not> d < d0"
  proof
    assume lt: "d < d0"
    then have "ekey (entries ht' ! hslot (nentries ht) key d) \<noteq> 0" using d0(2) len by (simp add: chain_def)
    then have "ekey (entries ht' ! hslot (nentries ht) key d) = key" using P(4) by (simp add: hash_slot_def)
    then have "hslot (nentries ht) key d = i"
      using hash_okD(6) [OF P(1), of "hslot (nentries ht) key d" i] P(2,3) assms(2-4) by (simp add: assms)
    then show False using hslot_inj [of "nentries ht" key d d0] lt d0 len P(3) by (simp add: chain_def)
  qed
  ultimately show ?thesis using d0(1) by (metis linorder_neqE_nat)
qed

subsection \<open>Insertion keeps the invariant\<close>

text \<open>The invariant under a change of one entry that keeps every counter and frees no slot.\<close>

lemma hash_ok_set:
  fixes ht :: "('c::len, 'k::len, 'v) ahash_w"
  assumes ok: "hash_ok K ht" and p: "p < nentries ht" and nc: "n_colijns e = n_colijns (entries ht ! p)"
    and key: "ekey e \<noteq> 0" "unat (ekey e) \<le> K" "hslot (nentries ht) (ekey e) d = p" "d < nentries ht"
    and ch: "d \<le> unat (n_colijns (entries ht ! hslot (nentries ht) (ekey e) 0))"
      "\<And>d'. d' < d \<Longrightarrow> ekey (entries ht ! hslot (nentries ht) (ekey e) d') \<noteq> 0"
    and uniq: "\<And>i. i < nentries ht \<Longrightarrow> ekey (entries ht ! i) = ekey e \<Longrightarrow> i = p"
    and own: "K < nentries ht \<Longrightarrow> unat (ekey e) = p"
  shows "hash_ok K (ht\<lparr>entries := (entries ht)[p := e], nvalid := nv\<rparr>)"
proof -
  note D = hash_okD [OF ok]
  let ?es = "entries ht" and ?n = "nentries ht"
  define es where "es = ?es[p := e]"
  have len: "length es = ?n" using D(1) by (simp add: es_def)
  have nth: "es ! i = (if i = p then e else ?es ! i)" if "i < ?n" for i
    using that D(1) p by (simp add: es_def nth_list_update)
  have cnt: "n_colijns (es ! i) = n_colijns (?es ! i)" if "i < ?n" for i using nth [OF that] nc by simp
  have ne: "ekey (es ! i) \<noteq> 0" if "i < ?n" "ekey (?es ! i) \<noteq> 0" for i using nth [OF that(1)] key(1) that(2) by simp
  have hs: "hslot ?n q d' < ?n" for q :: "'k word" and d' using D(2) by simp
  have up: "chain es q d'" if "chain ?es q d'" for q d'
    using that cnt [OF hs] ne [OF hs] D(1) len by (simp add: chain_def)
  have new: "chain es (ekey e) d"
    using ch cnt [OF hs] ne [OF hs] len key(4) by (simp add: chain_def)
  have inset: "unat (n_colijns x) \<le> max_colijns ht \<and> unat (n_colijns x) < ?n" if x: "x \<in> set es" for x
  proof -
    obtain i where i: "i < ?n" "x = es ! i" using x len by (metis in_set_conv_nth)
    then have "n_colijns x = n_colijns (?es ! i)" using cnt by simp
    moreover have "?es ! i \<in> set ?es" using i(1) D(1) by simp
    ultimately show ?thesis using D(4) by simp
  qed
  have occ: "unat (ekey (es ! i)) \<le> K \<and> (\<exists>d. hslot ?n (ekey (es ! i)) d = i \<and> chain es (ekey (es ! i)) d)"
    if i: "i < ?n" "ekey (es ! i) \<noteq> 0" for i
  proof (cases "i = p")
    case True
    then have "es ! i = e" using nth [OF i(1)] by simp
    with True key(2,3) new show ?thesis by metis
  next
    case False
    then have "es ! i = ?es ! i" using nth [OF i(1)] by simp
    with i D(5) [OF i(1)] up show ?thesis by metis
  qed
  have dist: "i = j" if "i < ?n" "j < ?n" "ekey (es ! i) \<noteq> 0" "ekey (es ! i) = ekey (es ! j)" for i j
  proof -
    have k: "ekey (es ! l) = (if l = p then ekey e else ekey (?es ! l))" if "l < ?n" for l using nth [OF that] by simp
    show ?thesis
    proof (rule ccontr)
      assume "i \<noteq> j"
      then consider "i = p" "j \<noteq> p" | "j = p" "i \<noteq> p" | "i \<noteq> p" "j \<noteq> p" by blast
      then show False
      proof cases
        case 1
        then have "ekey (?es ! j) = ekey e" using that(4) k [OF that(1)] k [OF that(2)] by simp
        with 1 uniq [OF that(2)] show False by blast
      next
        case 2
        then have "ekey (?es ! i) = ekey e" using that(4) k [OF that(1)] k [OF that(2)] by simp
        with 2 uniq [OF that(1)] show False by blast
      next
        case 3
        then have "ekey (?es ! i) = ekey (?es ! j)" "ekey (?es ! i) \<noteq> 0"
          using that(3,4) k [OF that(1)] k [OF that(2)] by simp_all
        with D(6) [OF that(1,2)] \<open>i \<noteq> j\<close> show False by blast
      qed
    qed
  qed
  have ow: "unat (ekey (es ! i)) = i" if "K < ?n" "i < ?n" "ekey (es ! i) \<noteq> 0" for i
  proof (cases "i = p")
    case True
    then have "es ! i = e" using nth [OF that(2)] by simp
    with True own [OF that(1)] show ?thesis by simp
  next
    case False
    then have "es ! i = ?es ! i" using nth [OF that(2)] by simp
    with that D(7) [OF that(1,2)] show ?thesis by simp
  qed
  have "hash_ok K (ht\<lparr>entries := es, nvalid := nv\<rparr>)"
    unfolding hash_ok_def using D(2,3) hash_ok_width [OF ok] len inset occ ow
    by (intro conjI; (simp; fail | use dist in \<open>simp; blast\<close>))
  then show ?thesis by (simp add: es_def)
qed

lemma hmap_set:
  assumes ok: "hash_ok K (ht\<lparr>entries := (entries ht)[p := e], nvalid := nv\<rparr>)" and p: "p < length (entries ht)"
    and old: "ekey (entries ht ! p) = 0 \<or> ekey (entries ht ! p) = ekey e" and key: "ekey e \<noteq> 0"
    and ok0: "hash_ok K ht"
  shows "hmap ((entries ht)[p := e]) = (hmap (entries ht))(ekey e \<mapsto> eval e)"
proof
  fix q
  let ?h = "ht\<lparr>entries := (entries ht)[p := e], nvalid := nv\<rparr>"
  have n: "nentries ?h = nentries ht" "length (entries ht) = nentries ht" using hash_okD(1) [OF ok0] by simp_all
  show "hmap ((entries ht)[p := e]) q = ((hmap (entries ht))(ekey e \<mapsto> eval e)) q"
  proof (cases "q = ekey e")
    case True
    then show ?thesis using hmap_at [OF ok, of p q] p key n by simp
  next
    case False
    show ?thesis
    proof (cases "hmap (entries ht) q")
      case None
      then have "hmap ((entries ht)[p := e]) q = None"
        using False set_update_subset_insert [of "entries ht" p e] by (auto simp: hmap_none)
      with None False show ?thesis by simp
    next
      case (Some v)
      obtain i where i: "i < length (entries ht)" "ekey (entries ht ! i) = q" "eval (entries ht ! i) = v" "q \<noteq> 0"
        using hmap_Some_slot [OF Some] by blast
      have "i \<noteq> p" using i old False by auto
      then have "hmap ((entries ht)[p := e]) q = Some v" using hmap_at [OF ok, of i q] i n by simp
      with Some False show ?thesis by simp
    qed
  qed
qed

lemma hash_put_ok:
  fixes ht :: "('c::len, 'k::len, 'v) ahash_w"
  assumes ps: "put_slot K key ht0 d ht" and key: "key \<noteq> 0" "unat key \<le> K"
  shows "\<exists>ht'. hash_put (hslot (nentries ht0) key d) key val ht = Inr ht' \<and> hash_ok K ht' \<and> nentries ht' = nentries ht0 \<and>
     hmap (entries ht') = (hmap (entries ht0))(key \<mapsto> val)"
proof -
  have P: "hash_ok K ht" "nentries ht = nentries ht0" "d < nentries ht" "hmap (entries ht) = hmap (entries ht0)"
    "hash_slot key (entries ht ! hslot (nentries ht) key d)"
    "\<And>d'. d' < d \<Longrightarrow> \<not> hash_slot key (entries ht ! hslot (nentries ht) key d')"
    "d \<le> unat (n_colijns (entries ht ! hslot (nentries ht) key 0))"
    using ps by (auto simp: put_slot_def)
  note D = hash_okD [OF P(1)]
  define p where "p = hslot (nentries ht) key d"
  have p: "p < nentries ht" "p < length (entries ht)" using D(1,2) by (simp_all add: p_def)
  have before: "ekey (entries ht ! hslot (nentries ht) key d') \<noteq> 0" if "d' < d" for d'
    using P(6) [OF that] by (simp add: hash_slot_def)
  have uniq: "i = p" if "i < nentries ht" "ekey (entries ht ! i) = key" for i
    using put_slot_key [OF ps key(1), of i] that P(2) by (simp add: p_def)
  have own: "unat key = p" if "K < nentries ht"
    using own_slot [OF P(1) that key(2)] P(6) [of 0] by (cases d) (simp_all add: p_def)
  define ent where "ent = (entries ht ! p)\<lparr>ekey := key, eval := val\<rparr>"
  have ent: "ekey ent = key" "eval ent = val" "n_colijns ent = n_colijns (entries ht ! p)" by (simp_all add: ent_def)
  have ok: "hash_ok K (ht\<lparr>entries := (entries ht)[p := ent], nvalid := nv\<rparr>)" for nv
    by (rule hash_ok_set [OF P(1) p(1) ent(3), where d = d]) (use ent key P(3,7) before uniq own in \<open>auto simp: p_def\<close>)
  have old: "ekey (entries ht ! p) = 0 \<or> ekey (entries ht ! p) = ekey ent"
    using P(5) by (auto simp: hash_slot_def p_def ent)
  have hm: "hmap ((entries ht)[p := ent]) = (hmap (entries ht0))(key \<mapsto> val)"
    using hmap_set [OF ok p(2) old _ P(1)] key(1) ent P(4) by simp
  have "hash_put p key val ht = Inr (ht\<lparr>entries := (entries ht)[p := ent], nvalid := nvalid ht + (if ekey (entries ht ! p) = key then 0 else 1)\<rparr>)"
    using p(2) by (auto simp: hash_put_def ent_def)
  then show ?thesis using ok hm P(2) by (simp add: p_def)
qed

lemma alc_hash_fetch_ok:
  assumes ok: "hash_ok K ht"
  shows "alc_hash_fetch key ht = Inr (case hmap (entries ht) key of Some v \<Rightarrow> v | None \<Rightarrow> 0)"
proof (cases "key = 0")
  case True
  then show ?thesis by (simp add: alc_hash_fetch_def hmap_def)
next
  case False
  note D = hash_okD [OF ok]
  let ?n = "nentries ht" and ?es = "entries ht" and ?f = "hslot (nentries ht) key"
  have f: "?f d < length ?es" "?f d < ?n" for d using D(1,2) by simp_all
  have rd: "c_read ?es (unat key mod ?n) = Inr (?es ! ?f 0)" using f(1) by (simp add: hslot_0)
  have hit: "alc_hash_fetch key ht = Inr (case hmap ?es key of Some v \<Rightarrow> v | None \<Rightarrow> 0)"
    if "lookup_entry key ht = Inr (Some (?f d))" "ekey (?es ! ?f d) = key" for d
    using that False f hmap_at [OF ok f(2) that(2) False] by (simp add: alc_hash_fetch_def)
  have miss: "alc_hash_fetch key ht = Inr (case hmap ?es key of Some v \<Rightarrow> v | None \<Rightarrow> 0)"
    if l: "lookup_entry key ht = Inr None" and nf: "\<And>d. d \<le> unat (n_colijns (?es ! ?f 0)) \<Longrightarrow> ekey (?es ! ?f d) \<noteq> key"
  proof -
    have "hmap ?es key = None"
    proof (rule ccontr)
      assume "hmap ?es key \<noteq> None"
      then obtain i where i: "i < ?n" "ekey (?es ! i) = key" using hmap_Some_slot D(1) by fastforce
      obtain d where "?f d = i" "chain ?es key d" using key_chain [OF ok i False] .
      with nf [of d] i(2) D(1) show False by (simp add: chain_def)
    qed
    with l False show ?thesis by (simp add: alc_hash_fetch_def)
  qed
  let ?c = "unat (n_colijns (?es ! ?f 0))"
  show ?thesis
  proof (cases "ekey (?es ! ?f 0) = key")
    case True
    then have "lookup_entry key ht = Inr (Some (?f 0))" using rd by (simp add: lookup_entry_def Let_def hslot_0)
    with True show ?thesis by (intro hit)
  next
    case home: False
    show ?thesis
    proof (cases "?c = 0")
      case True
      then have "lookup_entry key ht = Inr None"
        using rd home by (simp add: lookup_entry_def Let_def unsigned_eq_0_iff)
      then show ?thesis using True home by (intro miss) auto
    next
      case False
      have "?es ! ?f 0 \<in> set ?es" using f(1) by simp
      then have c: "?c < ?n" using D(4) by blast
      have run: "lookup_entry key ht = c_bind (probe (\<lambda>e. ekey e = key) ?es (probe_slots False ?n (?f 0) ?c) 1)
          (\<lambda>r. Inr (map_option fst r))"
        using rd home False by (simp add: lookup_entry_def Let_def hslot_0 word_gt_0 unsigned_eq_0_iff)
      show ?thesis
        using probe_home [OF ok disjI2 [OF c], where P = "\<lambda>e. ekey e = key" and clip = False and key = key]
      proof (elim disjE exE conjE)
        fix d
        assume "probe (\<lambda>e. ekey e = key) ?es (probe_slots False ?n (?f 0) ?c) 1 = Inr (Some (?f d, d))" "ekey (?es ! ?f d) = key"
        then show ?thesis using run by (intro hit) simp_all
      next
        assume n: "probe (\<lambda>e. ekey e = key) ?es (probe_slots False ?n (?f 0) ?c) 1 = Inr None"
          "\<forall>d. 1 \<le> d \<and> d \<le> probe_len False ?n (?f 0) ?c \<longrightarrow> ekey (?es ! ?f d) \<noteq> key"
        have "ekey (?es ! ?f d) \<noteq> key" if "d \<le> ?c" for d
          using n(2) that home by (cases d) (auto simp: probe_len_def)
        then show ?thesis using run n(1) by (intro miss) simp_all
      qed
    qed
  qed
qed

lemma hash_make_ok:
  assumes "2 \<le> n" "n \<le> 2 ^ LENGTH('c)"
  shows "hash_ok K (hash_make n :: ('c::len, 'k::len, 'v::len) ahash_w)"
    "hmap (entries (hash_make n :: ('c, 'k, 'v) ahash_w)) = Map.empty"
  using assms by (auto simp: hash_ok_def hash_make_def hash_init_def free_entry_def Let_def MAX_COLLISIONS_def hmap_none)

lemma rehash_grow_ok:
  assumes "hash_ok K ht" "nentries ht \<le> K" "K + max 2 (K div 4) \<le> 2 ^ LENGTH('c)"
  shows "hash_ok K (rehash_grow ht :: ('c::len, 'k::len, 'v::len) ahash_w)"
    "hmap (entries (rehash_grow ht)) = Map.empty" "nentries ht + 2 \<le> nentries (rehash_grow ht)"
proof -
  have "nentries ht div 4 \<le> K div 4" by (rule div_le_mono [OF assms(2)])
  then have "nentries ht + max 2 (nentries ht div 4) \<le> 2 ^ LENGTH('c)" using assms(2,3) by linarith
  then show "hash_ok K (rehash_grow ht)" "hmap (entries (rehash_grow ht)) = Map.empty"
    "nentries ht + 2 \<le> nentries (rehash_grow ht)"
    using hash_okD(2,3) [OF assms(1)]
    by (auto simp: hash_ok_def rehash_grow_def hash_init_def free_entry_def Let_def hmap_none)
qed

text \<open>The expansion of \<^verbatim>\<open>max_colijns\<close> ends and keeps the contents.\<close>

lemma hash_ok_max:
  assumes "hash_ok K ht" "max_colijns ht \<le> m \<or> m = nentries ht"
  shows "hash_ok K (ht\<lparr>max_colijns := m\<rparr>)"
  using assms unfolding hash_ok_def by auto

lemma expand_loop_ok:
  assumes "hash_ok K ht" "unat key \<le> K" "(if max_colijns ht = nentries ht then 1 else nentries ht - max_colijns ht + 2) \<le> fuel"
  shows "\<exists>ht'. expand_loop fuel key ht = Inr (Some ht') \<and> hash_ok K ht' \<and> nentries ht' = nentries ht \<and>
     hmap (entries ht') = hmap (entries ht)"
  using assms
proof (induction fuel arbitrary: ht)
  case 0
  then show ?case by (simp split: if_splits)
next
  case (Suc fuel)
  show ?case
  proof (cases "max_colijns ht = nentries ht")
    case True
    with Suc.prems show ?thesis by simp
  next
    case False
    let ?m = "max_colijns ht + max_colijns ht div 2"
    define m where "m = (if ?m > nentries ht then nentries ht else ?m)"
    let ?h = "ht\<lparr>max_colijns := m\<rparr>"
    have ok: "hash_ok K ?h" by (rule hash_ok_max [OF Suc.prems(1)]) (auto simp: m_def)
    have "2 \<le> max_colijns ht" by (rule hash_okD(3) [OF Suc.prems(1)])
    then have fuel: "(if max_colijns ?h = nentries ?h then 1 else nentries ?h - max_colijns ?h + 2) \<le> fuel"
      using Suc.prems(3) False by (auto simp: m_def)
    have run: "expand_loop (Suc fuel) key ht = c_bind (lookup_insert_entry key ?h) (\<lambda>(v, ht).
        case v of Some _ \<Rightarrow> Inr (Some ht) | None \<Rightarrow> expand_loop fuel key ht)"
      using False by (simp add: m_def Let_def)
    show ?thesis
      using lookup_insert_spec [OF ok Suc.prems(2)] Suc.IH [OF ok Suc.prems(2) fuel] unfolding run
      by (fastforce simp: put_slot_def)
  qed
qed

lemma hmap_Nil [simp]: "hmap [] = Map.empty"
  by (rule ext) (simp add: hmap_def)

lemma hmap_Cons:
  "hmap (e # es) = (if ekey e = 0 then hmap es else (hmap es)(ekey e \<mapsto> eval e))"
  by (rule ext) (auto simp: hmap_def)

lemma hmap_dom: "k \<in> dom (hmap es) \<longleftrightarrow> k \<noteq> 0 \<and> k \<in> ekey ` set es"
  using hmap_none [of es k] by (auto simp: dom_def)

text \<open>What an insertion promises, for a bound \<open>K\<close> on the keys.\<close>

definition insert_spec :: "nat \<Rightarrow> nat \<Rightarrow> 'k::len word \<Rightarrow> 'v::len word \<Rightarrow> ('c::len, 'k, 'v) ahash_w \<Rightarrow>
    (int \<times> ('c, 'k, 'v) ahash_w) option c_res \<Rightarrow> bool" where
  "insert_spec K fuel key val ht r \<longleftrightarrow> (\<exists>ht'. r = Inr (Some (0, ht')) \<and> hash_ok K ht' \<and> nentries ht \<le> nentries ht' \<and>
     hmap (entries ht') = (hmap (entries ht))(key \<mapsto> val))"

lemma rehash_loop_ok:
  fixes ht :: "('c::len, 'k::len, 'v::len) ahash_w"
  assumes ins: "\<And>key val ht. hash_ok K ht \<Longrightarrow> key \<noteq> 0 \<Longrightarrow> unat key \<le> K \<Longrightarrow> K + 1 - nentries ht < fuel \<Longrightarrow>
      insert_spec K fuel key val ht (hash_insert fuel key val lvl (ht :: ('c, 'k, 'v) ahash_w))"
    and "hash_ok K ht" "K + 1 - nentries ht < fuel"
    and "\<forall>e \<in> set es. ekey e \<noteq> 0 \<longrightarrow> unat (ekey e) \<le> K" "distinct (map ekey (filter (\<lambda>e. ekey e \<noteq> 0) es))"
  shows "\<exists>ht'. rehash_loop fuel lvl es ht = Inr (Some (0, ht')) \<and> hash_ok K ht' \<and> nentries ht \<le> nentries ht' \<and>
     hmap (entries ht') = hmap (entries ht) ++ hmap es"
  using assms(2-5)
proof (induction es arbitrary: ht)
  case Nil
  then show ?case by simp
next
  case (Cons e es)
  show ?case
  proof (cases "ekey e = 0")
    case True
    with Cons show ?thesis by (simp add: hmap_Cons)
  next
    case False
    obtain h where h: "hash_insert fuel (ekey e) (eval e) lvl ht = Inr (Some (0, h))" "hash_ok K h"
      "nentries ht \<le> nentries h" "hmap (entries h) = (hmap (entries ht))(ekey e \<mapsto> eval e)"
      using ins [OF Cons.prems(1) False _ Cons.prems(2)] Cons.prems(3) False unfolding insert_spec_def by auto
    have "K + 1 - nentries h < fuel" using h(3) Cons.prems(2) by linarith
    then obtain ht' where ht': "rehash_loop fuel lvl es h = Inr (Some (0, ht'))" "hash_ok K ht'" "nentries h \<le> nentries ht'"
      "hmap (entries ht') = hmap (entries h) ++ hmap es"
      using Cons.IH [OF h(2)] Cons.prems(3,4) False by auto
    have nd: "ekey e \<notin> dom (hmap es)" using Cons.prems(4) False by (auto simp: hmap_dom)
    have "hmap (entries ht') = hmap (entries ht) ++ hmap (e # es)"
      unfolding ht'(4) h(4) hmap_Cons using nd False
      by (auto simp: map_add_def fun_eq_iff domIff split: option.splits)
    with h(1,3) ht' False show ?thesis by auto
  qed
qed

lemma ok_distinct:
  assumes ok: "hash_ok K ht"
  shows "distinct (map ekey (filter (\<lambda>e. ekey e \<noteq> 0) (entries ht)))" "\<forall>e \<in> set (entries ht). ekey e \<noteq> 0 \<longrightarrow> unat (ekey e) \<le> K"
proof -
  note D = hash_okD [OF ok]
  have dst: "distinct (map ekey (filter (\<lambda>e. ekey e \<noteq> 0) es))"
    if "\<And>i j. i < length es \<Longrightarrow> j < length es \<Longrightarrow> ekey (es ! i) \<noteq> 0 \<Longrightarrow> ekey (es ! i) = ekey (es ! j) \<Longrightarrow> i = j"
    for es :: "('x, 'y::len word, 'z) ahash_entry list"
    using that
  proof (induction es)
    case Nil
    then show ?case by simp
  next
    case (Cons e es)
    have "ekey e \<noteq> ekey x" if x: "x \<in> set es" "ekey e \<noteq> 0" for x
    proof
      assume eq: "ekey e = ekey x"
      obtain i where i: "i < length es" "x = es ! i" using x(1) by (auto simp: in_set_conv_nth)
      have "0 = Suc i" by (rule Cons.prems) (use i eq x(2) in simp_all)
      then show False by simp
    qed
    moreover have "distinct (map ekey (filter (\<lambda>e. ekey e \<noteq> 0) es))"
    proof (rule Cons.IH)
      fix i j
      assume ij: "i < length es" "j < length es" "ekey (es ! i) \<noteq> 0" "ekey (es ! i) = ekey (es ! j)"
      have "Suc i = Suc j" by (rule Cons.prems) (use ij in simp_all)
      then show "i = j" by simp
    qed
    ultimately show ?case by auto
  qed
  show "distinct (map ekey (filter (\<lambda>e. ekey e \<noteq> 0) (entries ht)))"
    by (rule dst, rule D(6)) (simp_all add: D(1))
  show "\<forall>e \<in> set (entries ht). ekey e \<noteq> 0 \<longrightarrow> unat (ekey e) \<le> K"
    using D(1) D(5) by (auto simp: in_set_conv_nth)
qed

lemma hash_insert_ok:
  fixes ht :: "('c::len, 'k::len, 'v::len) ahash_w"
  assumes w: "K + max 2 (K div 4) \<le> 2 ^ LENGTH('c)" and key: "key \<noteq> 0" "unat key \<le> K"
    and "hash_ok K ht" "K + 1 - nentries ht < fuel"
  shows "insert_spec K fuel key val ht (hash_insert fuel key val lvl ht)"
  using assms(2-5)
proof (induction fuel arbitrary: key val lvl ht)
  case 0
  then show ?case by simp
next
  case (Suc fuel)
  show ?case
    using lookup_insert_spec [OF Suc.prems(3,2)]
  proof (elim disjE exE conjE)
    fix d ht1
    assume l: "lookup_insert_entry key ht = Inr (Some (hslot (nentries ht) key d), ht1)" and ps: "put_slot K key ht d ht1"
    show ?thesis
      using hash_put_ok [OF ps Suc.prems(1,2), of val] l Suc.prems(1) by (auto simp: insert_spec_def)
  next
    assume l: "lookup_insert_entry key ht = Inr (None, ht)" and nK: "nentries ht \<le> K"
    have side: "(if max_colijns ht = nentries ht then 1 else nentries ht - max_colijns ht + 2) \<le> nentries ht + 2" by simp
    obtain h where h: "(if lvl > 1 then expand_loop (nentries ht + 2) key ht else Inr (Some ht)) = Inr (Some h)"
      "hash_ok K h" "nentries h = nentries ht" "hmap (entries h) = hmap (entries ht)"
      using expand_loop_ok [OF Suc.prems(3,2) side] Suc.prems(3) by (cases "lvl > 1") (auto simp del: expand_loop.simps)
    note g = rehash_grow_ok [OF h(2) _ w] 
    have gn: "nentries h \<le> K" using nK h(3) by simp
    note g = g [OF gn]
    have f: "K + 1 - nentries (rehash_grow h) < fuel" using g(3) h(3) nK Suc.prems(4) by linarith
    obtain h2 where h2: "rehash_loop fuel (lvl + 1) (entries h) (rehash_grow h) = Inr (Some (0, h2))" "hash_ok K h2"
      "nentries (rehash_grow h) \<le> nentries h2" "hmap (entries h2) = hmap (entries h)"
      using rehash_loop_ok [OF Suc.IH g(1) f ok_distinct(2,1) [OF h(2)], of "lvl + 1"] g(2) by auto
    have "K + 1 - nentries h2 < fuel" using f h2(3) by linarith
    from Suc.IH [OF Suc.prems(1,2) h2(2) this, of val lvl]
    have "insert_spec K fuel key val h2 (hash_insert fuel key val lvl h2)" .
    moreover have "hash_insert (Suc fuel) key val lvl ht = hash_insert fuel key val lvl h2"
      using l h(1) h2(1) Suc.prems(1) by (simp del: expand_loop.simps)
    moreover have "nentries ht \<le> nentries h2" using g(3) h(3) h2(3) by linarith
    ultimately show ?thesis using h(4) h2(4) by (auto simp: insert_spec_def)
  qed
qed

subsection \<open>The contract of a row table\<close>

text \<open>
  What the writer of a sparse row relies on: insertions of legal keys return, and a fetch returns what was
  inserted last, or the default.
\<close>

primrec table_fill :: "('k \<Rightarrow> 'v \<Rightarrow> 't \<Rightarrow> 't option c_res) \<Rightarrow> ('k \<times> 'v) list \<Rightarrow> 't \<Rightarrow> 't option c_res" where
  "table_fill ins [] t = Inr (Some t)"
| "table_fill ins (kv # kvs) t =
     c_bind (ins (fst kv) (snd kv) t) (\<lambda>r. case r of None \<Rightarrow> Inr None | Some t \<Rightarrow> table_fill ins kvs t)"

locale row_table =
  fixes ok :: "'t \<Rightarrow> bool" and legal :: "'k \<Rightarrow> bool" and ins :: "'k \<Rightarrow> 'v \<Rightarrow> 't \<Rightarrow> 't option c_res"
    and fetch :: "'k \<Rightarrow> 't \<Rightarrow> 'v c_res"
  assumes ins_ok: "ok t \<Longrightarrow> legal k \<Longrightarrow> \<exists>t'. ins k v t = Inr (Some t') \<and> ok t' \<and>
      (\<forall>j. fetch j t' = (if j = k then Inr v else fetch j t))"
begin

lemma fill_fetch:
  "ok t \<Longrightarrow> (\<And>k v. (k, v) \<in> set kvs \<Longrightarrow> legal k) \<Longrightarrow>
     \<exists>t'. table_fill ins kvs t = Inr (Some t') \<and> ok t' \<and>
       (\<forall>j. fetch j t' = (case map_of (rev kvs) j of Some v \<Rightarrow> Inr v | None \<Rightarrow> fetch j t))"
proof (induction kvs arbitrary: t)
  case Nil
  then show ?case by simp
next
  case (Cons kv kvs)
  obtain k v where kv: "kv = (k, v)" by (cases kv)
  have "legal k" using Cons.prems(2) [of k v] by (simp add: kv)
  from ins_ok [OF Cons.prems(1) this, of v] obtain t1 where t1: "ins k v t = Inr (Some t1)" "ok t1"
    "\<And>j. fetch j t1 = (if j = k then Inr v else fetch j t)" by blast
  have lg: "\<And>k v. (k, v) \<in> set kvs \<Longrightarrow> legal k" using Cons.prems(2) by (meson list.set_intros(2))
  obtain t2 where t2: "table_fill ins kvs t1 = Inr (Some t2)" "ok t2"
    "\<And>j. fetch j t2 = (case map_of (rev kvs) j of Some v \<Rightarrow> Inr v | None \<Rightarrow> fetch j t1)" using Cons.IH [OF t1(2)] lg by blast
  have "fetch j t2 = (case map_of (rev (kv # kvs)) j of Some v \<Rightarrow> Inr v | None \<Rightarrow> fetch j t)" for j
    using t1(3) t2(3) by (cases "map_of (rev kvs) j") (auto simp: kv map_add_def)
  with t1(1) t2(1,2) show ?case by (auto simp: kv)
qed

end

text \<open>The insertion as its callers use it: they ignore the status.\<close>

definition row_ins :: "nat \<Rightarrow> 'k::len word \<Rightarrow> 'v::len word \<Rightarrow> ('c::len, 'k, 'v) ahash_w \<Rightarrow> ('c, 'k, 'v) ahash_w option c_res" where
  "row_ins fuel k v ht = c_bind (alc_hash_insert fuel k v ht) (\<lambda>r. Inr (map_option snd r))"

lemma row_table_hash:
  assumes "K + max 2 (K div 4) \<le> 2 ^ LENGTH('c)" "K + 2 \<le> fuel"
  shows "row_table (hash_ok K :: ('c::len, 'k::len, 'v::len) ahash_w \<Rightarrow> bool) (\<lambda>k. k \<noteq> 0 \<and> unat k \<le> K) (row_ins fuel) alc_hash_fetch"
proof
  fix t :: "('c, 'k, 'v) ahash_w" and k :: "'k word" and v
  assume ok: "hash_ok K t" and k: "k \<noteq> 0 \<and> unat k \<le> K"
  have "K + 1 - nentries t < fuel" using assms(2) by simp
  from hash_insert_ok [OF assms(1) _ _ ok this, of k v 0] k
  obtain t' where t': "hash_insert fuel k v 0 t = Inr (Some (0, t'))" "hash_ok K t'"
    "hmap (entries t') = (hmap (entries t))(k \<mapsto> v)"
    by (auto simp: insert_spec_def)
  have "alc_hash_fetch j t' = (if j = k then Inr v else alc_hash_fetch j t)" for j
    using alc_hash_fetch_ok [OF ok] alc_hash_fetch_ok [OF t'(2)] t'(3) by simp
  with t' show "\<exists>t'. row_ins fuel k v t = Inr (Some t') \<and> hash_ok K t' \<and>
      (\<forall>j. alc_hash_fetch j t' = (if j = k then Inr v else alc_hash_fetch j t))"
    by (simp add: row_ins_def alc_hash_insert_def)
qed

text \<open>
  Both tables meet the contract: the 32-bit one for keys up to \<open>2 ^ 31\<close>, the 16-bit one, whose collision counters
  have 8 bits, for keys up to 204.
\<close>

definition FUEL32 :: nat where "FUEL32 = 2 ^ 31 + 2"
definition FUEL16 :: nat where "FUEL16 = 2 ^ 16 + 2"

interpretation table32: row_table "hash_ok (2 ^ 31) :: ahash32 \<Rightarrow> bool" "\<lambda>k. k \<noteq> 0 \<and> unat k \<le> 2 ^ 31" "row_ins FUEL32" alc_hash_fetch
  by (rule row_table_hash) (simp_all add: FUEL32_def)

interpretation table16: row_table "hash_ok 204 :: ahash16 \<Rightarrow> bool" "\<lambda>k. k \<noteq> 0 \<and> unat k \<le> 204" "row_ins FUEL16" alc_hash_fetch
  by (rule row_table_hash) (simp_all add: FUEL16_def)

text \<open>The loops of \<^verbatim>\<open>createHash32Row\<close> and \<^verbatim>\<open>createHash16Row\<close> that fill the table of a row.\<close>

definition fill_row32 :: "(uint32 \<times> ulong) list \<Rightarrow> ahash32 option c_res" where
  "fill_row32 kvs = table_fill (row_ins FUEL32) kvs (alc_hash32_make 2)"

definition fill_row16 :: "(ushort16 \<times> uint32) list \<Rightarrow> ahash16 option c_res" where
  "fill_row16 kvs = table_fill (row_ins FUEL16) kvs (alc_hash16_make 2)"

lemma fetch_make:
  "2 \<le> LENGTH('c) \<Longrightarrow> alc_hash_fetch k (hash_make 2 :: ('c::len, 'k::len, 'v::len) ahash_w) = Inr 0"
  using alc_hash_fetch_ok [OF hash_make_ok(1) [of 2, where ?'c = 'c, where ?'k = 'k, where ?'v = 'v]]
    hash_make_ok(2) [of 2, where ?'c = 'c, where ?'k = 'k, where ?'v = 'v] power_increasing [of 1 "LENGTH('c)" "2 :: nat"]
  by simp




end
