(* ===== verification/Alc_Aobj.thy ===== *)
theory Alc_Aobj
  imports Alc_Cmp
begin

text \<open>
  The tagged values of \<^verbatim>\<open>src/DB/aobj.c\<close>: construction, conversion from and to text, output in the Redis
  protocol, comparison and arithmetic. Text is the memory \<^verbatim>\<open>a->s\<close> points to: a buffer made by \<^verbatim>\<open>_strdup\<close> ends in a
  0 byte behind its \<^verbatim>\<open>len\<close> bytes, one made by \<^verbatim>\<open>malloc(len)\<close> does not. A \<^verbatim>\<open>float\<close> is its 32-bit image; the
  conversions and the subtraction of the C library on floats are the operations of a record that the definitions
  take as an argument.
\<close>

record c_float =
  fl_atof :: "byte list \<Rightarrow> uint32"
  fl_strtod_end :: "byte list \<Rightarrow> nat"
  fl_fmt10g :: "uint32 \<Rightarrow> byte list"
  fl_fmt17g :: "uint32 \<Rightarrow> byte list"
  fl_sub_sign :: "uint32 \<Rightarrow> uint32 \<Rightarrow> int"

record icol_t =
  cmatch :: int
  fimatch :: int
  lo :: "byte list list"

record aobj =
  a_s :: "byte list option"
  a_len :: nat
  a_i :: uint32
  a_l :: ulong
  a_x :: uint128
  a_f :: uint32
  a_b :: bool
  a_ic :: "icol_t option"
  a_type :: coltype
  a_enc :: coltype
  a_freeme :: bool
  a_empty :: bool

text \<open>\<^verbatim>\<open>cloneIC\<close> (\<^verbatim>\<open>src/DB/colparse.c\<close>) clears the copy first and does not set \<^verbatim>\<open>fimatch\<close>.\<close>

definition cloneIC :: "icol_t \<Rightarrow> icol_t" where
  "cloneIC sic = \<lparr>cmatch = cmatch sic, fimatch = 0, lo = lo sic\<rparr>"

subsection \<open>Construction\<close>

definition initAobj :: aobj where
  "initAobj = \<lparr>a_s = None, a_len = 0, a_i = 0, a_l = 0, a_x = 0, a_f = 0, a_b = False, a_ic = None,
     a_type = COL_TYPE_NONE, a_enc = COL_TYPE_NONE, a_freeme = False, a_empty = True\<rparr>"

definition releaseAobj :: "aobj \<Rightarrow> aobj" where
  "releaseAobj a =
     a\<lparr>a_s := if a_freeme a then None else a_s a, a_ic := None, a_type := COL_TYPE_NONE, a_freeme := False,
       a_empty := True\<rparr>"

abbreviation aobj_of :: "coltype \<Rightarrow> aobj" where
  "aobj_of ct \<equiv> initAobj\<lparr>a_type := ct, a_enc := ct, a_empty := False\<rparr>"

definition initAobjZeroNum :: "coltype \<Rightarrow> aobj" where "initAobjZeroNum ctype = aobj_of ctype"

definition initAobjInt :: "ulong \<Rightarrow> aobj" where "initAobjInt l = (initAobjZeroNum COL_TYPE_INT)\<lparr>a_i := ucast l\<rparr>"

definition initAobjLong :: "ulong \<Rightarrow> aobj" where "initAobjLong l = (aobj_of COL_TYPE_LONG)\<lparr>a_l := l\<rparr>"

definition initAobjString :: "byte list \<Rightarrow> nat \<Rightarrow> aobj" where
  "initAobjString s len = (aobj_of COL_TYPE_STRING)\<lparr>a_s := Some s, a_len := len\<rparr>"

text \<open>\<^verbatim>\<open>initAobjU128\<close> does not clear the other members.\<close>

definition initAobjU128 :: "aobj \<Rightarrow> uint128 \<Rightarrow> aobj" where
  "initAobjU128 a x = a\<lparr>a_x := x, a_type := COL_TYPE_U128, a_enc := COL_TYPE_U128, a_empty := False\<rparr>"

definition initAobjFloat :: "uint32 \<Rightarrow> aobj" where "initAobjFloat f = (aobj_of COL_TYPE_FLOAT)\<lparr>a_f := f\<rparr>"

definition initAobjBool :: "bool \<Rightarrow> aobj" where "initAobjBool b = (aobj_of COL_TYPE_BOOL)\<lparr>a_b := b\<rparr>"

text \<open>
  \<^verbatim>\<open>is_int\<close> and \<^verbatim>\<open>is_float\<close> (\<^verbatim>\<open>src/DB/parser.c\<close>): the conversion stops at the terminator. \<open>c_strtol_end\<close> is the offset
  \<^verbatim>\<open>strtol\<close> stores in \<^verbatim>\<open>endptr\<close>, 0 when there is no number.
\<close>

definition c_strtol_end :: "byte list \<Rightarrow> nat" where
  "c_strtol_end s =
     (let sp = length (takeWhile c_isspace s); s1 = drop sp s;
          sg = (if s1 \<noteq> [] \<and> (hd s1 = 45 \<or> hd s1 = 43) then 1 else 0);
          dg = length (takeWhile c_isdigit (drop sg s1))
      in if dg = 0 then 0 else sp + sg + dg)"

definition at_end :: "byte list \<Rightarrow> nat \<Rightarrow> bool" where
  "at_end s p \<longleftrightarrow> (length s \<le> p \<or> s ! p = 0)"

definition is_int :: "byte list \<Rightarrow> bool" where "is_int s = at_end s (c_strtol_end s)"

definition is_float :: "c_float \<Rightarrow> byte list \<Rightarrow> bool" where "is_float fl s = at_end s (fl_strtod_end fl s)"

text \<open>\<^verbatim>\<open>parseU128\<close> (\<^verbatim>\<open>src/DB/colparse.c\<close>): two decimal numbers around a bar, high half first.\<close>

definition parseU128_at :: "byte list \<Rightarrow> byte list \<Rightarrow> uint128 option" where
  "parseU128_at s c =
     (if c = [] \<or> hd c = 0 then None
      else Some (push_bit 64 (ucast (c_strtoul s)) OR ucast (c_strtoul c)))"

definition parseU128 :: "byte list \<Rightarrow> uint128 option" where
  "parseU128 s =
     (let rest = dropWhile (\<lambda>b. b \<noteq> 0 \<and> b \<noteq> 124) s in
      if rest = [] \<or> hd rest = 0 then None else parseU128_at s (tl rest))"

definition initAobjDetermineType :: "c_float \<Rightarrow> aobj \<Rightarrow> byte list \<Rightarrow> nat \<Rightarrow> bool \<Rightarrow> aobj" where
  "initAobjDetermineType fl a s len fs =
     (let a = a\<lparr>a_empty := False\<rparr> in
      if is_int s then
        let a = a\<lparr>a_type := COL_TYPE_LONG, a_enc := COL_TYPE_LONG\<rparr> in
        if fs then a\<lparr>a_s := Some s, a_len := len\<rparr> else a\<lparr>a_l := c_strtoul s\<rparr>
      else if is_float fl s then
        let a = a\<lparr>a_type := COL_TYPE_FLOAT, a_enc := COL_TYPE_FLOAT\<rparr> in
        if fs then a\<lparr>a_s := Some s, a_len := len\<rparr> else a\<lparr>a_f := fl_atof fl s\<rparr>
      else if takeWhile (\<lambda>b. b \<noteq> 0) s = bytes_of ''true'' then
        a\<lparr>a_b := True, a_type := COL_TYPE_BOOL, a_enc := COL_TYPE_BOOL\<rparr>
      else if takeWhile (\<lambda>b. b \<noteq> 0) s = bytes_of ''false'' then
        a\<lparr>a_b := False, a_type := COL_TYPE_BOOL, a_enc := COL_TYPE_BOOL\<rparr>
      else a\<lparr>a_s := Some s, a_len := len, a_type := COL_TYPE_LUAO, a_enc := COL_TYPE_LUAO\<rparr>)"

text \<open>
  \<open>s\<close> is the memory from the pointer on, \<open>take len s\<close> what \<^verbatim>\<open>memcpy\<close> copies. For a LUAO value the copy \<^verbatim>\<open>s2\<close> is
  freed at the end, also when \<^verbatim>\<open>initAobjDetermineType\<close> has kept its address: no byte of it can be read then.
\<close>

definition initAobjFromStr :: "c_float \<Rightarrow> byte list \<Rightarrow> nat \<Rightarrow> coltype \<Rightarrow> aobj c_res" where
  "initAobjFromStr fl s len ctype =
     (let a = aobj_of ctype in
      case ctype of
        COL_TYPE_STRING \<Rightarrow>
          if len \<le> length s then Inr (a\<lparr>a_s := Some (take len s), a_len := len, a_freeme := True\<rparr>) else Inl OOB_read
      | COL_TYPE_FLOAT \<Rightarrow> Inr (a\<lparr>a_f := fl_atof fl s\<rparr>)
      | COL_TYPE_LONG \<Rightarrow> Inr (a\<lparr>a_l := c_strtoul s\<rparr>)
      | COL_TYPE_INT \<Rightarrow> Inr (a\<lparr>a_i := ucast (c_strtoul s)\<rparr>)
      | COL_TYPE_U128 \<Rightarrow> Inr (a\<lparr>a_x := case parseU128 s of Some x \<Rightarrow> x | None \<Rightarrow> 0\<rparr>)
      | COL_TYPE_FUNC \<Rightarrow> Inr (a\<lparr>a_i := ucast (c_strtoul s)\<rparr>)
      | COL_TYPE_LUAO \<Rightarrow>
          if len \<le> length s
          then let a = initAobjDetermineType fl a (take len s @ [0]) len False
               in Inr (a\<lparr>a_s := map_option (\<lambda>_. []) (a_s a)\<rparr>)
          else Inl OOB_read
      | _ \<Rightarrow> Inl Assert_fail)"

definition initAobjFromLong :: "ulong \<Rightarrow> coltype \<Rightarrow> aobj c_res" where
  "initAobjFromLong l ctype =
     (let a = aobj_of ctype in
      case ctype of
        COL_TYPE_INT \<Rightarrow> Inr (a\<lparr>a_i := ucast l\<rparr>)
      | COL_TYPE_LONG \<Rightarrow> Inr (a\<lparr>a_l := l\<rparr>)
      | COL_TYPE_U128 \<Rightarrow> Inr (a\<lparr>a_x := ucast l\<rparr>)
      | _ \<Rightarrow> Inl Assert_fail)"

definition aobjClone :: "aobj \<Rightarrow> aobj" where
  "aobjClone src =
     src\<lparr>a_s := if a_freeme src then map_option (take (a_len src)) (a_s src) else a_s src,
       a_ic := map_option cloneIC (a_ic src)\<rparr>"

subsection \<open>Conversion\<close>

definition convertSdsToAobj :: "c_float \<Rightarrow> byte list \<Rightarrow> coltype \<Rightarrow> aobj c_res" where
  "convertSdsToAobj fl s ctype =
     (let a = aobj_of ctype in
      case ctype of
        COL_TYPE_STRING \<Rightarrow>
          Inr (a\<lparr>a_s := Some (takeWhile (\<lambda>b. b \<noteq> 0) s @ [0]), a_len := length s, a_freeme := True\<rparr>)
      | COL_TYPE_INT \<Rightarrow> Inr (a\<lparr>a_i := ucast (c_strtoul s)\<rparr>)
      | COL_TYPE_LONG \<Rightarrow> Inr (a\<lparr>a_l := c_strtoul s\<rparr>)
      | COL_TYPE_FLOAT \<Rightarrow> Inr (a\<lparr>a_f := fl_atof fl s\<rparr>)
      | COL_TYPE_U128 \<Rightarrow> Inr (a\<lparr>a_x := case parseU128 s of Some x \<Rightarrow> x | None \<Rightarrow> 0\<rparr>)
      | COL_TYPE_FUNC \<Rightarrow> Inr (a\<lparr>a_i := ucast (c_strtoul s)\<rparr>)
      | _ \<Rightarrow> Inl Assert_fail)"

fun convertINLtoAobj :: "c_float \<Rightarrow> byte list list \<Rightarrow> coltype \<Rightarrow> aobj list c_res" where
  "convertINLtoAobj fl [] ctype = Inr []"
| "convertINLtoAobj fl (ink # inl) ctype =
     c_bind (convertSdsToAobj fl ink ctype) (\<lambda>a.
     c_bind (convertINLtoAobj fl inl ctype) (\<lambda>as. Inr (a # as)))"

definition cloneAobjList :: "aobj list \<Rightarrow> aobj list" where
  "cloneAobjList ll = map aobjClone ll"

definition SPRINTF_128 :: "uint128 \<Rightarrow> byte list" where
  "SPRINTF_128 num = c_utoa (unat (ucast (drop_bit 64 num) :: ulong)) @ 124 # c_utoa (unat (ucast num :: ulong))"

text \<open>Reading the text of a value.\<close>

definition a_text :: "aobj \<Rightarrow> byte list c_res" where
  "a_text a = (case a_s a of
       None \<Rightarrow> if a_len a = 0 then Inr [] else Inl Null_deref
     | Some s \<Rightarrow> if a_len a \<le> length s then Inr (take (a_len a) s) else Inl OOB_read)"

definition strFromAobj :: "c_float \<Rightarrow> aobj \<Rightarrow> (byte list \<times> nat) c_res" where
  "strFromAobj fl a =
     (let out = (\<lambda>t. Inr (t @ [0], length t)) in
      case a_type a of
        COL_TYPE_STRING \<Rightarrow> c_bind (a_text a) (\<lambda>t. Inr (t @ [0], a_len a))
      | COL_TYPE_INT \<Rightarrow> out (c_utoa (unat (a_i a)))
      | COL_TYPE_FUNC \<Rightarrow> out (c_utoa (unat (a_i a)))
      | COL_TYPE_LONG \<Rightarrow> out (c_utoa (unat (a_l a)))
      | COL_TYPE_FLOAT \<Rightarrow> out (fl_fmt10g fl (a_f a))
      | COL_TYPE_U128 \<Rightarrow> out (SPRINTF_128 (a_x a))
      | _ \<Rightarrow> Inl Assert_fail)"

definition initStringAobjFromAobj :: "c_float \<Rightarrow> aobj \<Rightarrow> aobj c_res" where
  "initStringAobjFromAobj fl a2 =
     c_bind (strFromAobj fl a2) (\<lambda>(s, len).
       Inr ((aobj_of COL_TYPE_STRING)\<lparr>a_s := Some s, a_len := len, a_freeme := True\<rparr>))"

definition createSDSFromAobj :: "c_float \<Rightarrow> aobj \<Rightarrow> byte list c_res" where
  "createSDSFromAobj fl a =
     (if a_type a = COL_TYPE_STRING \<or> a_enc a = COL_TYPE_STRING then a_text a
      else case a_type a of
        COL_TYPE_FLOAT \<Rightarrow> Inr (fl_fmt10g fl (a_f a))
      | COL_TYPE_LONG \<Rightarrow> Inr (c_utoa (unat (a_l a)))
      | COL_TYPE_INT \<Rightarrow> Inr (c_utoa (unat (a_i a)))
      | COL_TYPE_FUNC \<Rightarrow> Inr (c_utoa (unat (a_i a)))
      | COL_TYPE_U128 \<Rightarrow> Inr (SPRINTF_128 (a_x a))
      | COL_TYPE_BOOL \<Rightarrow> Inr (bytes_of (if a_b a then ''true'' else ''false''))
      | _ \<Rightarrow> Inl Assert_fail)"

subsection \<open>Output in the Redis protocol\<close>

abbreviation CRLF :: "byte list" where "CRLF \<equiv> [13, 10]"

definition outputIntS :: "byte list \<Rightarrow> byte list" where "outputIntS s = 58 # s @ CRLF"

definition outputInt :: "uint32 \<Rightarrow> byte list" where "outputInt i = outputIntS (c_utoa (unat i))"

definition outputLong :: "ulong \<Rightarrow> byte list" where "outputLong l = outputIntS (c_utoa (unat l))"

definition outputS :: "byte list \<Rightarrow> byte list" where
  "outputS s = 36 # c_utoa (length s) @ CRLF @ s @ CRLF"

definition outputX :: "uint128 \<Rightarrow> byte list" where
  "outputX x = (let buf = SPRINTF_128 x in 36 # c_utoa (length buf) @ CRLF @ buf @ CRLF)"

definition outputFloat :: "c_float \<Rightarrow> uint32 \<Rightarrow> byte list" where
  "outputFloat fl f = (let buf = fl_fmt17g fl f in 36 # c_utoa (length buf) @ CRLF @ buf @ CRLF)"

definition outputNil :: "byte list" where "outputNil = [58, 45, 49] @ CRLF"

text \<open>\<open>err\<close> is the text of the error the server keeps in \<^verbatim>\<open>server.alc.CurrError\<close>.\<close>

definition outputAobj :: "c_float \<Rightarrow> byte list \<Rightarrow> aobj \<Rightarrow> byte list c_res" where
  "outputAobj fl err a = (case a_type a of
       COL_TYPE_INT \<Rightarrow> Inr (outputInt (a_i a))
     | COL_TYPE_FUNC \<Rightarrow> Inr (outputInt (a_i a))
     | COL_TYPE_BOOL \<Rightarrow> Inr (outputInt (if a_b a then 1 else 0))
     | COL_TYPE_LONG \<Rightarrow> Inr (outputLong (a_l a))
     | COL_TYPE_FLOAT \<Rightarrow> Inr (outputFloat fl (a_f a))
     | COL_TYPE_STRING \<Rightarrow> c_bind (a_text a) (\<lambda>t. Inr (outputS t))
     | COL_TYPE_U128 \<Rightarrow> Inr (outputX (a_x a))
     | COL_TYPE_LUAO \<Rightarrow> c_bind (a_text a) (\<lambda>t. Inr (outputS t))
     | COL_TYPE_NONE \<Rightarrow> Inr outputNil
     | COL_TYPE_ERR \<Rightarrow> Inr (outputS err)
     | COL_TYPE_CNAME \<Rightarrow> Inl Assert_fail)"

definition outputReformat :: "c_float \<Rightarrow> byte list \<Rightarrow> aobj \<Rightarrow> (byte list \<times> coltype) c_res" where
  "outputReformat fl err a = c_bind (outputAobj fl err a) (\<lambda>s. Inr (s, a_type a))"

definition outputSL :: "c_float \<Rightarrow> byte list \<Rightarrow> coltype \<Rightarrow> byte list \<Rightarrow> nat \<Rightarrow> (byte list \<times> coltype) c_res" where
  "outputSL fl err ct s len =
     c_bind (initAobjFromStr fl s len COL_TYPE_STRING) (\<lambda>a.
     c_bind (outputAobj fl err a) (\<lambda>s. Inr (s, ct)))"

subsection \<open>Comparison and arithmetic\<close>

text \<open>\<^verbatim>\<open>strncmp\<close> on buffers that need not be terminated.\<close>

fun strncmp_mem :: "byte list \<Rightarrow> byte list \<Rightarrow> nat \<Rightarrow> int c_res" where
  "strncmp_mem s t 0 = Inr 0"
| "strncmp_mem s t (Suc n) =
     (case (s, t) of
        (a # s', b # t') \<Rightarrow>
          if a \<noteq> b then Inr (int (unat a) - int (unat b)) else if a = 0 then Inr 0 else strncmp_mem s' t' n
      | _ \<Rightarrow> Inl OOB_read)"

text \<open>The result of \<^verbatim>\<open>aobjCmp\<close> is an \<^verbatim>\<open>int\<close>: the difference of two INT values, taken in 32 bits, is cut to 32 bits.\<close>

definition aobjCmp :: "c_float \<Rightarrow> aobj \<Rightarrow> aobj \<Rightarrow> int c_res" where
  "aobjCmp fl a b = (case a_type a of
       COL_TYPE_STRING \<Rightarrow> (case (a_s a, a_s b) of
            (Some s, Some t) \<Rightarrow> strncmp_mem s t (a_len a)
          | _ \<Rightarrow> if a_len a = 0 then Inr 0 else Inl Null_deref)
     | COL_TYPE_FLOAT \<Rightarrow> Inr (sgn (fl_sub_sign fl (a_f a) (a_f b)))
     | COL_TYPE_LONG \<Rightarrow> Inr (if a_l a = a_l b then 0 else if a_l a > a_l b then 1 else - 1)
     | COL_TYPE_U128 \<Rightarrow> Inr (if a_x a = a_x b then 0 else if a_x a > a_x b then 1 else - 1)
     | COL_TYPE_INT \<Rightarrow> Inr (sint (a_i a - a_i b))
     | COL_TYPE_FUNC \<Rightarrow> Inr (sint (a_i a - a_i b))
     | _ \<Rightarrow> Inl Assert_fail)"

definition aobj_rel :: "(int \<Rightarrow> bool) \<Rightarrow> c_float \<Rightarrow> aobj \<Rightarrow> aobj \<Rightarrow> bool c_res" where
  "aobj_rel P fl a b = c_bind (aobjCmp fl a b) (\<lambda>r. Inr (P r))"

definition aobjEQ :: "c_float \<Rightarrow> aobj \<Rightarrow> aobj \<Rightarrow> bool c_res" where "aobjEQ = aobj_rel (\<lambda>r. r = 0)"
definition aobjNE :: "c_float \<Rightarrow> aobj \<Rightarrow> aobj \<Rightarrow> bool c_res" where "aobjNE = aobj_rel (\<lambda>r. r \<noteq> 0)"
definition aobjLT :: "c_float \<Rightarrow> aobj \<Rightarrow> aobj \<Rightarrow> bool c_res" where "aobjLT = aobj_rel (\<lambda>r. r < 0)"
definition aobjLE :: "c_float \<Rightarrow> aobj \<Rightarrow> aobj \<Rightarrow> bool c_res" where "aobjLE = aobj_rel (\<lambda>r. r \<le> 0)"
definition aobjGT :: "c_float \<Rightarrow> aobj \<Rightarrow> aobj \<Rightarrow> bool c_res" where "aobjGT = aobj_rel (\<lambda>r. r > 0)"
definition aobjGE :: "c_float \<Rightarrow> aobj \<Rightarrow> aobj \<Rightarrow> bool c_res" where "aobjGE = aobj_rel (\<lambda>r. r \<ge> 0)"

definition getSizeAobj :: "aobj \<Rightarrow> int" where
  "getSizeAobj a =
     (if \<not> C_IS_NUM (a_type a) then - 1
      else if a_type a = COL_TYPE_INT then 4 else if a_type a = COL_TYPE_LONG then 8 else 16)"

definition incrbyAobj :: "aobj \<Rightarrow> ulong \<Rightarrow> aobj c_res" where
  "incrbyAobj a l = (case a_type a of
       COL_TYPE_LONG \<Rightarrow> Inr (a\<lparr>a_l := a_l a + l\<rparr>)
     | COL_TYPE_INT \<Rightarrow> Inr (a\<lparr>a_i := a_i a + ucast l\<rparr>)
     | _ \<Rightarrow> Inl Assert_fail)"

definition decrbyAobj :: "aobj \<Rightarrow> ulong \<Rightarrow> aobj c_res" where
  "decrbyAobj a l = (case a_type a of
       COL_TYPE_LONG \<Rightarrow> Inr (a\<lparr>a_l := a_l a - l\<rparr>)
     | COL_TYPE_INT \<Rightarrow> Inr (a\<lparr>a_i := a_i a - ucast l\<rparr>)
     | _ \<Rightarrow> Inl Assert_fail)"

definition subtractAobj :: "aobj \<Rightarrow> aobj \<Rightarrow> ulong c_res" where
  "subtractAobj a b =
     (if a_type a = COL_TYPE_LONG \<and> a_type b = COL_TYPE_LONG then Inr (a_l a - a_l b)
      else if a_type a = COL_TYPE_INT \<and> a_type b = COL_TYPE_INT then Inr (ucast (a_i a - a_i b))
      else Inl Assert_fail)"

subsection \<open>Lemmas on text and numbers\<close>

lemma strtoul_stop:
  assumes "n < 2 ^ 64" "rest = [] \<or> \<not> c_isdigit (hd rest)"
  shows "c_strtoul (c_utoa n @ rest) = of_nat n"
proof -
  obtain d ds where d: "c_utoa n = d # ds" "c_isdigit d" "list_all c_isdigit ds"
    using utoa_digits [of n] by (cases "c_utoa n") auto
  have "takeWhile c_isdigit (c_utoa n @ rest) = c_utoa n"
    using assms(2) utoa_digits [of n] by (cases rest) (auto simp: takeWhile_append list_all_iff)
  then have "takeWhile c_isdigit (d # ds @ rest) = c_utoa n" using d(1) by simp
  then show ?thesis
    using d digit_not_special [OF d(2)] assms digits_value_utoa [of n]
    by (simp add: c_strtoul_def Let_def)
qed

lemma utoa_no_bar: "b \<in> set (c_utoa n) \<Longrightarrow> b \<noteq> 0 \<and> b \<noteq> 124"
  using utoa_digits [of n] by (auto simp: list_all_iff c_isdigit_def word_le_nat_alt)

lemma u128_halves:
  "push_bit 64 (ucast (ucast (drop_bit 64 x) :: ulong)) OR ucast (ucast x :: ulong) = (x :: uint128)"
  by (rule bit_eqI) (auto simp: bit_or_iff bit_push_bit_iff bit_ucast_iff bit_drop_bit_eq)

lemma parseU128_print: "parseU128 (SPRINTF_128 x) = Some x"
proof -
  let ?h = "unat (ucast (drop_bit 64 x) :: ulong)" and ?l = "unat (ucast x :: ulong)"
  have b: "?h < 2 ^ 64" "?l < 2 ^ 64"
    using unsigned_less [of "ucast (drop_bit 64 x) :: ulong"] unsigned_less [of "ucast x :: ulong"] by simp_all
  have "dropWhile (\<lambda>b. b \<noteq> 0 \<and> b \<noteq> 124) (SPRINTF_128 x) = 124 # c_utoa ?l"
    unfolding SPRINTF_128_def by (subst dropWhile_append2) (auto dest: utoa_no_bar)
  moreover have "\<not> (c_utoa ?l = [] \<or> hd (c_utoa ?l) = 0)"
    using utoa_digits [of ?l] utoa_no_bar [of "hd (c_utoa ?l)" ?l] by (metis hd_in_set)
  moreover have "c_strtoul (SPRINTF_128 x) = of_nat ?h"
    unfolding SPRINTF_128_def by (rule strtoul_stop [OF b(1)]) (simp add: c_isdigit_def)
  moreover have "c_strtoul (c_utoa ?l) = of_nat ?l" by (rule strtoul_utoa [OF b(2)])
  ultimately show ?thesis
    unfolding parseU128_def parseU128_at_def Let_def using u128_halves [of x] by simp
qed

lemma ucast_up_down [simp]: "ucast (ucast (w :: uint32) :: ulong) = w"
  by (rule bit_eqI) (simp add: bit_ucast_iff)

text \<open>A floating-point library for examples: no float is used.\<close>

definition demo_float :: c_float where
  "demo_float = \<lparr>fl_atof = (\<lambda>_. 0), fl_strtod_end = (\<lambda>_. 0), fl_fmt10g = (\<lambda>_. [48]), fl_fmt17g = (\<lambda>_. [48]),
     fl_sub_sign = (\<lambda>a b. sint a - sint b)\<rparr>"

text \<open>
  C17. Values and text: printing a value with \<^verbatim>\<open>createSDSFromAobj\<close> and reading the text back with \<^verbatim>\<open>convertSdsToAobj\<close>
  gives the same INT, LONG or U128 value, and a value with the same text, of any length, for a text without NUL.
\<close>

theorem aobj_sds_roundtrip:
  assumes "0 \<notin> set t"
  shows "c_bind (createSDSFromAobj fl (initAobjInt l)) (\<lambda>s. convertSdsToAobj fl s COL_TYPE_INT) = Inr (initAobjInt l) \<and>
     c_bind (createSDSFromAobj fl (initAobjLong l)) (\<lambda>s. convertSdsToAobj fl s COL_TYPE_LONG) = Inr (initAobjLong l) \<and>
     c_bind (createSDSFromAobj fl (initAobjU128 initAobj x)) (\<lambda>s. convertSdsToAobj fl s COL_TYPE_U128) =
       Inr (initAobjU128 initAobj x) \<and>
     c_bind (createSDSFromAobj fl (initAobjString t (length t))) (\<lambda>s. convertSdsToAobj fl s COL_TYPE_STRING) =
       Inr ((initAobjString (t @ [0]) (length t))\<lparr>a_freeme := True\<rparr>)"
proof (intro conjI)
  have "unat (ucast l :: uint32) < 2 ^ 64" using unsigned_less [of "ucast l :: uint32", where ?'a = nat] by simp
  then show "c_bind (createSDSFromAobj fl (initAobjInt l)) (\<lambda>s. convertSdsToAobj fl s COL_TYPE_INT) = Inr (initAobjInt l)"
    by (simp add: createSDSFromAobj_def initAobjInt_def initAobjZeroNum_def initAobj_def convertSdsToAobj_def strtoul_utoa)
  have "unat l < 2 ^ 64" using unsigned_less [of l, where ?'a = nat] by simp
  then show "c_bind (createSDSFromAobj fl (initAobjLong l)) (\<lambda>s. convertSdsToAobj fl s COL_TYPE_LONG) = Inr (initAobjLong l)"
    by (simp add: createSDSFromAobj_def initAobjLong_def initAobj_def convertSdsToAobj_def strtoul_utoa)
  show "c_bind (createSDSFromAobj fl (initAobjU128 initAobj x)) (\<lambda>s. convertSdsToAobj fl s COL_TYPE_U128) =
      Inr (initAobjU128 initAobj x)"
    by (simp add: createSDSFromAobj_def initAobjU128_def initAobj_def convertSdsToAobj_def parseU128_print)
  have "takeWhile (\<lambda>b. b \<noteq> 0) t = t" using assms by (auto simp: takeWhile_eq_all_conv)
  then show "c_bind (createSDSFromAobj fl (initAobjString t (length t))) (\<lambda>s. convertSdsToAobj fl s COL_TYPE_STRING) =
      Inr ((initAobjString (t @ [0]) (length t))\<lparr>a_freeme := True\<rparr>)"
    by (simp add: createSDSFromAobj_def initAobjString_def initAobj_def convertSdsToAobj_def a_text_def)
qed

theorem aobj_sds_roundtrip_witness:
  "c_bind (createSDSFromAobj demo_float (initAobjU128 initAobj 7)) (\<lambda>s. convertSdsToAobj demo_float s COL_TYPE_U128) =
     Inr (initAobjU128 initAobj 7) \<and>
   c_bind (createSDSFromAobj demo_float (initAobjString [97, 98] (length [97 :: byte, 98]))) (\<lambda>s. convertSdsToAobj demo_float s COL_TYPE_STRING) =
     Inr ((initAobjString ([97, 98] @ [0]) (length [97 :: byte, 98]))\<lparr>a_freeme := True\<rparr>)"
  using aobj_sds_roundtrip [of "[97, 98]" demo_float 0 7] by simp

subsection \<open>Comparison of numbers\<close>

lemma uint32_bounds: "0 \<le> int (unat (a :: uint32)) \<and> int (unat a) < 2 ^ 32"
  using unsigned_less [of a, where ?'a = int] by simp

lemma sint_diff:
  fixes a b :: uint32
  defines "d \<equiv> int (unat a) - int (unat b)"
  shows "sint (a - b) = (if d < - (2 ^ 31) then d + 2 ^ 32 else if 2 ^ 31 \<le> d then d - 2 ^ 32 else d)"
proof -
  have r: "- (2 ^ 32) < d" "d < 2 ^ 32"
    using uint32_bounds [of a] uint32_bounds [of b] unfolding d_def by linarith+
  have "a - b = word_of_int d" by (simp add: d_def)
  then have "sint (a - b) = signed_take_bit 31 d" by (simp add: signed_of_int)
  also have "\<dots> = (d + 2 ^ 31) mod 2 ^ 32 - 2 ^ 31"
    by (simp add: signed_take_bit_eq_take_bit_shift take_bit_eq_mod)
  finally have s: "sint (a - b) = (d + 2 ^ 31) mod 2 ^ 32 - 2 ^ 31" .
  consider "d < - (2 ^ 31)" | "2 ^ 31 \<le> d" | "- (2 ^ 31) \<le> d \<and> d < 2 ^ 31" by linarith
  then show ?thesis
  proof cases
    case 1
    have "(d + 2 ^ 31) mod 2 ^ 32 = (d + 2 ^ 31 + 2 ^ 32) mod 2 ^ 32" by (rule mod_add_self2 [symmetric])
    also have "\<dots> = d + 2 ^ 31 + 2 ^ 32" using 1 r by (intro mod_pos_pos_trivial) auto
    finally show ?thesis using s 1 by simp
  next
    case 2
    have "(d + 2 ^ 31) mod 2 ^ 32 = (d + 2 ^ 31 - 2 ^ 32) mod 2 ^ 32" by (rule minus_mod_self2 [symmetric])
    also have "\<dots> = d + 2 ^ 31 - 2 ^ 32" using 2 r by (intro mod_pos_pos_trivial) auto
    finally show ?thesis using s 2 by simp
  next
    case 3
    then have "(d + 2 ^ 31) mod 2 ^ 32 = d + 2 ^ 31" by (intro mod_pos_pos_trivial) auto
    with s 3 show ?thesis by simp
  qed
qed

text \<open>
  C18. The order of INT values: \<^verbatim>\<open>aobjLT\<close> tells the smaller of two INT values exactly when they are less than
  \<open>2 ^ 31\<close> apart (\<open>2 ^ 31\<close> included when the first is the smaller one); otherwise the difference, cut to an \<^verbatim>\<open>int\<close>,
  has the wrong sign. LONG and U128 values are always ordered as numbers.
\<close>

theorem aobj_number_order:
  "(aobjLT fl (initAobjInt l) (initAobjInt m) = Inr (ucast l < (ucast m :: uint32)) \<longleftrightarrow>
      - (2 ^ 31) \<le> int (unat (ucast l :: uint32)) - int (unat (ucast m :: uint32)) \<and>
      int (unat (ucast l :: uint32)) - int (unat (ucast m :: uint32)) < 2 ^ 31) \<and>
   aobjEQ fl (initAobjInt l) (initAobjInt m) = Inr (ucast l = (ucast m :: uint32)) \<and>
   aobjLT fl (initAobjLong l) (initAobjLong m) = Inr (l < m) \<and>
   aobjLT fl (initAobjU128 a x) (initAobjU128 b y) = Inr (x < y)"
proof (intro conjI)
  let ?d = "int (unat (ucast l :: uint32)) - int (unat (ucast m :: uint32))"
  have lt: "ucast l < (ucast m :: uint32) \<longleftrightarrow> ?d < 0" by (simp add: word_less_def)
  have "aobjLT fl (initAobjInt l) (initAobjInt m) = Inr (sint (ucast l - ucast m :: uint32) < 0)"
    by (simp add: aobjLT_def aobj_rel_def aobjCmp_def initAobjInt_def initAobjZeroNum_def)
  moreover have "(sint (ucast l - ucast m :: uint32) < 0) = (?d < 0) \<longleftrightarrow> - (2 ^ 31) \<le> ?d \<and> ?d < 2 ^ 31"
    using uint32_bounds [of "ucast l"] uint32_bounds [of "ucast m"] unfolding sint_diff by (simp del: of_nat_unat; linarith)
  ultimately show "aobjLT fl (initAobjInt l) (initAobjInt m) = Inr (ucast l < (ucast m :: uint32)) \<longleftrightarrow> - (2 ^ 31) \<le> ?d \<and> ?d < 2 ^ 31"
    unfolding lt by simp
  show "aobjEQ fl (initAobjInt l) (initAobjInt m) = Inr (ucast l = (ucast m :: uint32))"
    by (simp add: aobjEQ_def aobj_rel_def aobjCmp_def initAobjInt_def initAobjZeroNum_def signed_eq_0_iff)
qed (auto simp: aobjLT_def aobj_rel_def aobjCmp_def initAobjLong_def initAobjU128_def)

subsection \<open>Comparison of texts\<close>

lemma strncmp_mem_prefix:
  "0 \<notin> set t \<Longrightarrow> 0 \<notin> set u \<Longrightarrow>
     \<exists>r. strncmp_mem (t @ [0]) (u @ [0]) (length t) = Inr r \<and> (r = 0 \<longleftrightarrow> (\<exists>v. u = t @ v))"
proof (induction t arbitrary: u)
  case Nil
  then show ?case by simp
next
  case (Cons c t)
  show ?case
  proof (cases u)
    case Nil
    with Cons.prems show ?thesis by (auto simp: unsigned_eq_0_iff)
  next
    case (Cons d u')
    with Cons.IH [of u'] Cons.prems show ?thesis by (auto simp: word_uint_eq_iff)
  qed
qed

lemma strncmp_mem_unterminated:
  "0 \<notin> set u \<Longrightarrow> v \<noteq> [] \<Longrightarrow> strncmp_mem (u @ v) u (length (u @ v)) = Inl OOB_read"
  by (induction u) (cases v; simp)+

text \<open>
  C19. Equality of texts: for texts without NUL that \<^verbatim>\<open>convertSdsToAobj\<close> has read, \<^verbatim>\<open>aobjEQ\<close> holds exactly when the
  first text is a prefix of the second one, since only the length of the first one is looked at. When the
  second one was made by \<^verbatim>\<open>initAobjFromStr\<close>, whose buffer has no terminator, and is a proper prefix of the first
  one, the comparison reads behind the buffer.
\<close>

theorem aobj_text_equality:
  assumes "0 \<notin> set t" "0 \<notin> set u"
  shows "c_bind (convertSdsToAobj fl t COL_TYPE_STRING) (\<lambda>a. c_bind (convertSdsToAobj fl u COL_TYPE_STRING) (aobjEQ fl a)) =
       Inr (\<exists>v. u = t @ v) \<and>
     (\<forall>v. v \<noteq> [] \<longrightarrow> c_bind (initAobjFromStr fl (u @ v) (length (u @ v)) COL_TYPE_STRING) (\<lambda>a.
       c_bind (initAobjFromStr fl u (length u) COL_TYPE_STRING) (aobjEQ fl a)) = Inl OOB_read)"
proof (intro conjI allI impI)
  have tw: "takeWhile (\<lambda>b. b \<noteq> 0) t = t" "takeWhile (\<lambda>b. b \<noteq> 0) u = u"
    using assms by (auto simp: takeWhile_eq_all_conv)
  obtain r where "strncmp_mem (t @ [0]) (u @ [0]) (length t) = Inr r" "r = 0 \<longleftrightarrow> (\<exists>v. u = t @ v)"
    using strncmp_mem_prefix [OF assms] by blast
  then show "c_bind (convertSdsToAobj fl t COL_TYPE_STRING) (\<lambda>a. c_bind (convertSdsToAobj fl u COL_TYPE_STRING) (aobjEQ fl a)) =
      Inr (\<exists>v. u = t @ v)"
    by (simp add: convertSdsToAobj_def tw aobjEQ_def aobj_rel_def aobjCmp_def)
  fix v :: "byte list"
  assume "v \<noteq> []"
  then show "c_bind (initAobjFromStr fl (u @ v) (length (u @ v)) COL_TYPE_STRING) (\<lambda>a.
      c_bind (initAobjFromStr fl u (length u) COL_TYPE_STRING) (aobjEQ fl a)) = Inl OOB_read"
    using strncmp_mem_unterminated [OF assms(2), of v]
    by (simp add: initAobjFromStr_def aobjEQ_def aobj_rel_def aobjCmp_def)
qed

theorem aobj_text_equality_witness:
  "c_bind (convertSdsToAobj demo_float [97] COL_TYPE_STRING)
     (\<lambda>a. c_bind (convertSdsToAobj demo_float [97, 98] COL_TYPE_STRING) (aobjEQ demo_float a)) =
   Inr (\<exists>v :: byte list. [97, 98] = [97] @ v)"
  using aobj_text_equality [of "[97]" "[97, 98]" demo_float] by simp

text \<open>
  C20. Typing of values: reading a text without NUL as one of the six storable types gives a value of that type,
  and such values can be printed, sent to a client and compared with each other without undefined behaviour;
  for every other type the assertion fails.
\<close>

theorem aobj_type_sound:
  assumes "0 \<notin> set s" "0 \<notin> set t"
  shows "if ct \<in> {COL_TYPE_INT, COL_TYPE_LONG, COL_TYPE_U128, COL_TYPE_FLOAT, COL_TYPE_STRING, COL_TYPE_FUNC}
     then \<exists>a b r z out. convertSdsToAobj fl s ct = Inr a \<and> convertSdsToAobj fl t ct = Inr b \<and>
        a_type a = ct \<and> a_enc a = ct \<and> \<not> a_empty a \<and> aobjCmp fl a b = Inr r \<and>
        createSDSFromAobj fl a = Inr z \<and> outputAobj fl err a = Inr out
     else convertSdsToAobj fl s ct = Inl Assert_fail"
proof -
  have tw: "takeWhile (\<lambda>b. b \<noteq> 0) s = s" "takeWhile (\<lambda>b. b \<noteq> 0) t = t"
    using assms by (auto simp: takeWhile_eq_all_conv)
  show ?thesis
    using strncmp_mem_prefix [OF assms]
    by (cases ct) (auto simp: convertSdsToAobj_def aobjCmp_def createSDSFromAobj_def outputAobj_def a_text_def tw)
qed

theorem aobj_type_sound_witness:
  "if COL_TYPE_INT \<in> {COL_TYPE_INT, COL_TYPE_LONG, COL_TYPE_U128, COL_TYPE_FLOAT, COL_TYPE_STRING, COL_TYPE_FUNC}
     then \<exists>a b r z out. convertSdsToAobj demo_float [55] COL_TYPE_INT = Inr a \<and> convertSdsToAobj demo_float [56] COL_TYPE_INT = Inr b \<and>
        a_type a = COL_TYPE_INT \<and> a_enc a = COL_TYPE_INT \<and> \<not> a_empty a \<and> aobjCmp demo_float a b = Inr r \<and>
        createSDSFromAobj demo_float a = Inr z \<and> outputAobj demo_float [] a = Inr out
     else convertSdsToAobj demo_float [55] COL_TYPE_INT = Inl Assert_fail"
  by (rule aobj_type_sound) simp_all

lemma luao_text_freed:
  "c_bind (initAobjFromStr demo_float (bytes_of ''abc'') 3 COL_TYPE_LUAO) (outputAobj demo_float []) = Inl OOB_read"
  by code_simp

end
