(* ===== verification/Alc_Row.thy ===== *)
theory Alc_Row
  imports Alc_SixBit Alc_Lzf Alc_Hash Alc_Aobj
begin

text \<open>
  Rows, \<^verbatim>\<open>src/DB/row.c\<close>: from the values of an INSERT to the stored bytes and back to columns. A normal row is
  \<^verbatim>\<open>[rflag | ncols | cofsts | data]\<close>, the offsets being the ends of the columns in the data; a sparse row of a wide
  table has a hash table instead of the offsets, kept here as a value between its header and its data. Texts are
  packed in six bits or compressed with LZF for the row as a whole. Offsets and lengths have 32 bits. The text of
  the statement is a list of bytes and a position in it an offset; the time stamp of the LRU column, the floats of
  the C library and the Lua interpreter (which stores the columns of type LUAO) are arguments. The code's \<open>1.2\<close> and
  \<open>0.25\<close> in comparisons of integers of at most 32 bits are exact, so they are written as fractions.
\<close>

definition RFLAG_1BYTE_INT :: byte where "RFLAG_1BYTE_INT = 1"
definition RFLAG_2BYTE_INT :: byte where "RFLAG_2BYTE_INT = 2"
definition RFLAG_4BYTE_INT :: byte where "RFLAG_4BYTE_INT = 4"
definition RFLAG_SIZE_FLAG :: byte where "RFLAG_SIZE_FLAG = 7"
definition RFLAG_6BIT_ZIP :: byte where "RFLAG_6BIT_ZIP = 8"
definition RFLAG_LZF_ZIP :: byte where "RFLAG_LZF_ZIP = 16"
definition RFLAG_HASH16_ROW :: byte where "RFLAG_HASH16_ROW = 32"
definition RFLAG_HASH32_ROW :: byte where "RFLAG_HASH32_ROW = 64"

lemmas rflag_defs = RFLAG_1BYTE_INT_def RFLAG_2BYTE_INT_def RFLAG_4BYTE_INT_def RFLAG_SIZE_FLAG_def
  RFLAG_6BIT_ZIP_def RFLAG_LZF_ZIP_def RFLAG_HASH16_ROW_def RFLAG_HASH32_ROW_def

definition MIN_NUM_COLS_FOR_HASH_ROW :: nat where "MIN_NUM_COLS_FOR_HASH_ROW = 100"

text \<open>What the functions of this component use of \<^verbatim>\<open>r_tbl_t\<close>.\<close>

record r_tbl =
  rt_col :: "coltype list"
  rt_lrud :: bool
  rt_lruc :: nat
  rt_lfu :: bool
  rt_lfuc :: nat

record crd_t =
  mcofsts :: uint32
  strs :: "byte list"
  icols :: ulong
  iflags :: byte
  xcols :: uint128
  fcols :: uint32
  fflags :: bool
  crd_empty :: bool

definition crd_zero :: crd_t where
  "crd_zero = \<lparr>mcofsts = 0, strs = [], icols = 0, iflags = 0, xcols = 0, fcols = 0, fflags = False, crd_empty = False\<rparr>"

datatype row_blob =
    Normal_row "byte list"
  | Hash16_row "byte list" ahash16 "byte list"
  | Hash32_row "byte list" ahash32 "byte list"

subsection \<open>Compression of the texts of a row\<close>

datatype czip = CZIP_NONE | CZIP_SIX | CZIP_LZF

definition contains_text_col :: "coltype list \<Rightarrow> bool" where
  "contains_text_col cts \<longleftrightarrow> list_ex (\<lambda>ct. ct = COL_TYPE_STRING) cts"

text \<open>The texts of a row in the order the macro \<^verbatim>\<open>COL_LOOP_IF_TEXT\<close> visits them.\<close>

fun row_texts :: "coltype list \<Rightarrow> crd_t list \<Rightarrow> byte list list" where
  "row_texts (ct # cts) (d # ds) = (if ct = COL_TYPE_STRING then strs d # row_texts cts ds else row_texts cts ds)"
| "row_texts _ _ = []"

definition streamLZFTextToString :: "byte list \<Rightarrow> nat \<Rightarrow> byte list option c_res" where
  "streamLZFTextToString s len =
     c_bind (streamIntToUInt s) (\<lambda>(oclen, clen).
     c_bind (c_take (len - clen) (drop clen s)) (\<lambda>z. lzf_decompress z (unat oclen)))"

text \<open>
  \<^verbatim>\<open>lzfZipCol\<close>: the stored form is the length of the text, as \<^verbatim>\<open>writeLzfCol\<close> copies it from the memory of \<^verbatim>\<open>socl\<close>, and
  the compressed text. \<open>None\<close> is the failure of the compressor; the lengths are then counted only in \<^verbatim>\<open>tlen\<close>.
\<close>

definition lzfZipCol :: "byte list \<Rightarrow> byte list option c_res" where
  "lzfZipCol s =
     c_bind (lzf_compress s (max 4 (length s + 4))) (\<lambda>r. case r of
       None \<Rightarrow> Inr None
     | Some z \<Rightarrow> let (lsocl, _, socl) = cr8Icol (of_nat (length s)) in Inr (Some (le_bytes lsocl socl @ z)))"

fun lzfZip_loop :: "byte list list \<Rightarrow> uint32 \<Rightarrow> uint32 \<Rightarrow> byte list list \<Rightarrow> (uint32 \<times> uint32 \<times> byte list list) c_res" where
  "lzfZip_loop [] tlen mtlen zs = Inr (tlen, mtlen, zs)"
| "lzfZip_loop (s # ss) tlen mtlen zs =
     c_bind (lzfZipCol s) (\<lambda>r. case r of
       None \<Rightarrow> Inr (tlen + of_nat (length s), mtlen, zs)
     | Some z \<Rightarrow> lzfZip_loop ss (tlen + of_nat (length s)) (mtlen + of_nat (length z)) (zs @ [z]))"

definition compression_justified :: "uint32 \<Rightarrow> uint32 \<Rightarrow> bool" where
  "compression_justified tlen mtlen \<longleftrightarrow> mtlen < tlen"

fun sixZip_loop :: "byte list list \<Rightarrow> byte list list option c_res" where
  "sixZip_loop [] = Inr (Some [])"
| "sixZip_loop (s # ss) =
     c_bind (createSixBit_n s) (\<lambda>r. case r of
       None \<Rightarrow> Inr None
     | Some (dest, len) \<Rightarrow> c_bind (sixZip_loop ss) (\<lambda>zs. Inr (map_option ((#) (take len dest)) zs)))"

text \<open>The loop that moves the offsets; a text without an entry in \<^verbatim>\<open>czd\<close> uses memory that was not written.\<close>

fun zip_shrink :: "coltype list \<Rightarrow> crd_t list \<Rightarrow> byte list list \<Rightarrow> uint32 \<Rightarrow> uint32 \<Rightarrow> (crd_t list \<times> uint32) c_res" where
  "zip_shrink (ct # cts) (d # ds) zs shrunk rlen =
     (if ct = COL_TYPE_STRING then case zs of [] \<Rightarrow> Inl Uninit_read | z # zs' \<Rightarrow>
        let diff = of_nat (length (strs d)) - of_nat (length z); shrunk' = shrunk + diff in
        c_bind (zip_shrink cts ds zs' shrunk' (rlen - diff)) (\<lambda>(ds', rlen').
          Inr (d\<lparr>mcofsts := mcofsts d - shrunk'\<rparr> # ds', rlen'))
      else c_bind (zip_shrink cts ds zs shrunk rlen) (\<lambda>(ds', rlen').
          Inr (d\<lparr>mcofsts := mcofsts d - shrunk\<rparr> # ds', rlen')))"
| "zip_shrink _ _ zs shrunk rlen = Inr ([], rlen)"

text \<open>The LZF branch leaves the type at \<^verbatim>\<open>CZIP_LZF\<close> also when the compressor failed on a text.\<close>

definition zipCol :: "coltype list \<Rightarrow> crd_t list \<Rightarrow> uint32 \<Rightarrow> (czip \<times> byte list list \<times> crd_t list \<times> uint32) c_res" where
  "zipCol cts ds rlen =
     (let texts = row_texts cts ds in
      c_bind (if list_ex (\<lambda>s. 20 < length s) texts
              then c_bind (lzfZip_loop texts 0 0 []) (\<lambda>(tlen, mtlen, zs).
                Inr (if compression_justified tlen mtlen then Some zs else None))
              else Inr None)
        (\<lambda>lz. case lz of
          Some zs \<Rightarrow> c_bind (zip_shrink cts ds zs 0 rlen) (\<lambda>(ds', rlen'). Inr (CZIP_LZF, zs, ds', rlen'))
        | None \<Rightarrow> c_bind (sixZip_loop texts) (\<lambda>r. case r of
            None \<Rightarrow> Inr (CZIP_NONE, [], ds, rlen)
          | Some zs \<Rightarrow> c_bind (zip_shrink cts ds zs 0 rlen) (\<lambda>(ds', rlen'). Inr (CZIP_SIX, zs, ds', rlen')))))"

subsection \<open>Writing a row\<close>

definition assign_rflag :: "uint32 \<Rightarrow> czip \<Rightarrow> byte" where
  "assign_rflag rlen ztype =
     (let rflag = (if rlen < 255 then RFLAG_1BYTE_INT else if rlen < 65535 then RFLAG_2BYTE_INT else RFLAG_4BYTE_INT) in
      case ztype of CZIP_SIX \<Rightarrow> rflag + RFLAG_6BIT_ZIP | CZIP_LZF \<Rightarrow> rflag + RFLAG_LZF_ZIP | CZIP_NONE \<Rightarrow> rflag)"

definition rawUintWriteToRow :: "uint32 \<Rightarrow> byte list" where
  "rawUintWriteToRow val = (let (_, sflag, icol) = cr8Icol (ucast val) in writeUIntCol sflag icol)"

text \<open>The size \<^verbatim>\<open>createRowBlob\<close> allocates and the header it writes.\<close>

definition createRowBlob :: "nat \<Rightarrow> byte \<Rightarrow> uint32 \<Rightarrow> nat \<times> byte list" where
  "createRowBlob ncols rflag rlen =
     (1 + getCSize (of_nat (ncols - 1)) True + ncols * unat rflag + unat rlen,
      rflag # rawUintWriteToRow (of_nat (ncols - 1)))"

definition set_col_offst :: "byte \<Rightarrow> uint32 \<Rightarrow> byte list" where
  "set_col_offst rflag cofst =
     (if rflag AND RFLAG_1BYTE_INT \<noteq> 0 then le_bytes 1 cofst
      else if rflag AND RFLAG_2BYTE_INT \<noteq> 0 then le_bytes 2 cofst
      else le_bytes 4 cofst)"

text \<open>The entries of the hash table: column \<open>i\<close> with its start and its end in one number.\<close>

fun hash_entries :: "(uint32 \<Rightarrow> uint32 \<Rightarrow> 'v) \<Rightarrow> nat \<Rightarrow> uint32 \<Rightarrow> crd_t list \<Rightarrow> ('k::len word \<times> 'v) list" where
  "hash_entries f i prev [] = []"
| "hash_entries f i prev (d # ds) =
     (if crd_empty d then hash_entries f (Suc i) (mcofsts d) ds
      else (of_nat i, f prev (mcofsts d)) # hash_entries f (Suc i) (mcofsts d) ds)"

definition hval16 :: "uint32 \<Rightarrow> uint32 \<Rightarrow> uint32" where
  "hval16 start next = next + start * 65535"

definition hval32 :: "uint32 \<Rightarrow> uint32 \<Rightarrow> ulong" where
  "hval32 start next = scast next + scast start * word_of_int UINT_MAX"

definition hash_header :: "byte \<Rightarrow> uint32 \<Rightarrow> nat \<Rightarrow> byte list" where
  "hash_header rflag rlen ncols = rflag # rawUintWriteToRow rlen @ rawUintWriteToRow (of_nat (ncols - 1))"

definition createHash16Row :: "nat \<Rightarrow> crd_t list \<Rightarrow> uint32 \<Rightarrow> byte \<Rightarrow> nat \<Rightarrow> (byte list \<times> ahash16) option c_res" where
  "createHash16Row ncols ds rlen rflag msize =
     c_bind (fill_row16 (hash_entries hval16 1 0 ds)) (\<lambda>r. case r of
       None \<Rightarrow> Inl No_return
     | Some ht \<Rightarrow>
         if 6 * alc_hash16_size ht < 5 * msize
         then Inr (Some (hash_header (rflag OR RFLAG_HASH16_ROW) rlen ncols, ht)) else Inr None)"

definition createHash32Row :: "nat \<Rightarrow> crd_t list \<Rightarrow> uint32 \<Rightarrow> byte \<Rightarrow> nat \<Rightarrow> (byte list \<times> ahash32) option c_res" where
  "createHash32Row ncols ds rlen rflag msize =
     c_bind (fill_row32 (hash_entries hval32 1 0 ds)) (\<lambda>r. case r of
       None \<Rightarrow> Inl No_return
     | Some ht \<Rightarrow>
         if 6 * alc_hash32_size ht < 5 * msize
         then Inr (Some (hash_header (rflag OR RFLAG_HASH32_ROW) rlen ncols, ht)) else Inr None)"

text \<open>\<open>None\<close>: a normal row is written. The result takes the data that follow the table.\<close>

definition createHashRow :: "nat \<Rightarrow> crd_t list \<Rightarrow> uint32 \<Rightarrow> nat \<Rightarrow> byte \<Rightarrow> (byte list \<Rightarrow> row_blob) option c_res" where
  "createHashRow ncols ds rlen cnt rflag =
     (if ncols < MIN_NUM_COLS_FOR_HASH_ROW \<or> ncols < 4 * cnt then Inr None
      else let msize = ncols * unat (rflag AND RFLAG_SIZE_FLAG) in
        if rflag AND RFLAG_4BYTE_INT = 0 \<and> ncols < 65535
        then c_bind (createHash16Row ncols ds rlen rflag msize) (\<lambda>r. Inr (map_option (\<lambda>(pre, ht). Hash16_row pre ht) r))
        else c_bind (createHash32Row ncols ds rlen rflag msize) (\<lambda>r. Inr (map_option (\<lambda>(pre, ht). Hash32_row pre ht) r)))"

text \<open>\<open>lua i s\<close> tells whether \<^verbatim>\<open>writeLuaTblCol\<close> accepts the text for column \<open>i\<close>; \<open>zs\<close> are the stored texts still to come.\<close>

fun write_cols :: "(nat \<Rightarrow> byte list \<Rightarrow> bool) \<Rightarrow> czip \<Rightarrow> nat \<Rightarrow> coltype list \<Rightarrow> crd_t list \<Rightarrow> byte list list \<Rightarrow> byte list option c_res" where
  "write_cols lua ztype i (ct # cts) (d # ds) zs =
     (let next = (\<lambda>b zs'. c_bind (write_cols lua ztype (Suc i) cts ds zs') (\<lambda>r. Inr (map_option ((@) b) r))) in
      case ct of
        COL_TYPE_INT \<Rightarrow> next (writeUIntCol (iflags d) (icols d)) zs
      | COL_TYPE_LONG \<Rightarrow> next (writeULongCol (iflags d) (icols d)) zs
      | COL_TYPE_U128 \<Rightarrow> next (writeU128Col (xcols d)) zs
      | COL_TYPE_FLOAT \<Rightarrow> next (writeFloatCol (fflags d) (fcols d)) zs
      | COL_TYPE_LUAO \<Rightarrow> if lua i (strs d) then next [] zs else Inr None
      | COL_TYPE_STRING \<Rightarrow>
          if ztype = CZIP_NONE then next (strs d) zs
          else (case zs of [] \<Rightarrow> Inl Uninit_read | z # zs' \<Rightarrow> next z zs')
      | _ \<Rightarrow> Inl Assert_fail)"
| "write_cols lua ztype i _ _ zs = Inr (Some [])"

definition writeRow :: "bool \<Rightarrow> (nat \<Rightarrow> byte list \<Rightarrow> bool) \<Rightarrow> coltype list \<Rightarrow> crd_t list \<Rightarrow> uint32 \<Rightarrow> nat \<Rightarrow> row_blob option c_res" where
  "writeRow GlobalZipSwitch lua cts ds rlen cnt =
     c_bind (if GlobalZipSwitch \<and> contains_text_col cts then zipCol cts ds rlen else Inr (CZIP_NONE, [], ds, rlen))
       (\<lambda>(ztype, zs, ds, rlen).
         let ncols = Suc (length cts); rflag = assign_rflag rlen ztype in
         c_bind (createHashRow ncols ds rlen cnt rflag) (\<lambda>h.
         c_bind (write_cols lua ztype 1 cts ds zs) (\<lambda>w. case w of
           None \<Rightarrow> Inr None
         | Some data \<Rightarrow> (case h of
             Some mk \<Rightarrow> if length data \<le> unat rlen then Inr (Some (mk data)) else Inl OOB_write
           | None \<Rightarrow>
               let (size, header) = createRowBlob ncols rflag rlen;
                   row = header @ concat (map (\<lambda>d. set_col_offst rflag (mcofsts d)) ds) @ data
               in if length row \<le> size then Inr (Some (Normal_row row)) else Inl OOB_write))))"

subsection \<open>From the values of an INSERT to a row\<close>

text \<open>
  \<^verbatim>\<open>strToFloat\<close> and \<^verbatim>\<open>cr8XcolFromStr\<close> of \<^verbatim>\<open>src/DB/stream.c\<close>. The U128 text is searched for its bar in \<open>len\<close> bytes, its
  halves are read to their ends.
\<close>

definition strToFloat :: "c_float \<Rightarrow> byte list \<Rightarrow> stream_reply + (nat \<times> uint32)" where
  "strToFloat fl str =
     (if 31 \<le> length str then Inl Col_float_string_too_long
      else if str = [] then Inr (0, 0)
      else Inr (4, fl_atof fl (takeWhile (\<lambda>b. b \<noteq> 0) str)))"

definition parseU128n :: "byte list \<Rightarrow> nat \<Rightarrow> uint128 option" where
  "parseU128n s len =
     (let n = length (takeWhile (\<lambda>b. b \<noteq> 124) (take len s)) in
      if n < len \<and> n < length s then parseU128_at s (drop (Suc n) s) else None)"

definition cr8XcolFromStr :: "byte list \<Rightarrow> nat \<Rightarrow> stream_reply + (nat \<times> uint128)" where
  "cr8XcolFromStr s len =
     (if len = 0 then Inr (0, 0) else case parseU128n s len of None \<Rightarrow> Inl U128_parse | Some x \<Rightarrow> Inr (16, x))"

definition byte_ISBLANK :: "byte \<Rightarrow> bool" where
  "byte_ISBLANK b \<longleftrightarrow> b = 32 \<or> b = 9"

text \<open>\<^verbatim>\<open>SKIP_SPACES\<close> and \<^verbatim>\<open>REV_SKIP_SPACES\<close> on the statement; running off its front is an error.\<close>

definition row_skip_spaces :: "byte list \<Rightarrow> nat \<Rightarrow> nat" where
  "row_skip_spaces vals p = p + length (takeWhile byte_ISBLANK (drop p vals))"

fun row_rev_skip_spaces :: "byte list \<Rightarrow> nat \<Rightarrow> nat c_res" where
  "row_rev_skip_spaces vals p =
     c_bind (c_read vals p) (\<lambda>b.
       if byte_ISBLANK b \<or> b = 0 then (case p of 0 \<Rightarrow> Inl OOB_read | Suc q \<Rightarrow> row_rev_skip_spaces vals q)
       else Inr p)"

declare row_rev_skip_spaces.simps [simp del]

text \<open>The part of the value between its offsets that is kept: its start and \<^verbatim>\<open>slens\<close>.\<close>

definition trim_val :: "byte list \<Rightarrow> nat \<Rightarrow> nat \<Rightarrow> (nat \<times> uint32) c_res" where
  "trim_val vals startc endc =
     (let s = row_skip_spaces vals startc in
      c_bind (c_read vals endc) (\<lambda>b.
      c_bind (if byte_ISBLANK b then row_rev_skip_spaces vals endc else Inr endc) (\<lambda>mendc.
        Inr (s, of_nat (endc - startc) - of_nat (s - startc) - of_nat (endc - mendc)))))"

definition mem_text :: "byte list \<Rightarrow> nat \<Rightarrow> uint32 \<Rightarrow> byte list c_res" where
  "mem_text mem p len = (if p + unat len \<le> length mem then Inr (take (unat len) (drop p mem)) else Inl OOB_read)"

definition EmptyStringCol :: "byte list" where "EmptyStringCol = bytes_of (CHR 0x27 # [CHR 0x27])"

text \<open>
  One column: \<^verbatim>\<open>crd[i]\<close> without its offset, \<^verbatim>\<open>nclen\<close> and the error replies; \<open>None\<close> when \<^verbatim>\<open>createRow\<close> returns
  \<^verbatim>\<open>NULL\<close>. The failure of \<^verbatim>\<open>cr8LcolFromStr\<close> is not tested, its -1 is taken for a length.
\<close>

type_synonym col_result = "stream_reply list \<times> (crd_t \<times> uint32) option"

definition num_col :: "crd_t \<Rightarrow> bool \<Rightarrow> byte list \<Rightarrow> nat \<Rightarrow> uint32 \<Rightarrow> col_result c_res" where
  "num_col d isi mem p slens =
     (let fail = (\<lambda>e. Inr ([e], if isi then None else Some (d, - 1))) in
      if 31 \<le> unat slens then fail Col_uint_string_too_long
      else c_bind (mem_text mem p slens) (\<lambda>t.
        case (if isi then cr8IcolFromStr t else cr8LcolFromStr t) of
          Inl e \<Rightarrow> fail e
        | Inr (n, sflag, col) \<Rightarrow> Inr ([], Some (d\<lparr>iflags := sflag, icols := col\<rparr>, of_nat n))))"

definition col_from_text :: "c_float \<Rightarrow> coltype \<Rightarrow> bool \<Rightarrow> byte list \<Rightarrow> nat \<Rightarrow> uint32 \<Rightarrow> col_result c_res" where
  "col_from_text fl ctype noval mem p slens =
     (let d = crd_zero\<lparr>crd_empty := noval\<rparr> in
      case ctype of
        COL_TYPE_STRING \<Rightarrow> c_bind (mem_text mem (p + 1) (slens - 2)) (\<lambda>t. Inr ([], Some (d\<lparr>strs := t\<rparr>, slens - 2)))
      | COL_TYPE_LUAO \<Rightarrow> c_bind (mem_text mem p slens) (\<lambda>t. Inr ([], Some (d\<lparr>strs := t\<rparr>, 0)))
      | COL_TYPE_INT \<Rightarrow> num_col d True mem p slens
      | COL_TYPE_LONG \<Rightarrow> num_col d False mem p slens
      | COL_TYPE_U128 \<Rightarrow> (case cr8XcolFromStr (drop p mem) (unat slens) of
            Inl e \<Rightarrow> Inr ([e], None)
          | Inr (n, x) \<Rightarrow> Inr ([], Some (d\<lparr>xcols := x\<rparr>, of_nat n)))
      | COL_TYPE_FLOAT \<Rightarrow>
          if 31 \<le> unat slens then Inr ([Col_float_string_too_long], None)
          else c_bind (mem_text mem p slens) (\<lambda>t. case strToFloat fl t of
            Inl e \<Rightarrow> Inr ([e], None)
          | Inr (n, f) \<Rightarrow> Inr ([], Some (d\<lparr>fcols := f, fflags := (n \<noteq> 0)\<rparr>, of_nat n)))
      | _ \<Rightarrow> Inl Assert_fail)"

definition insert_LRU :: "uint32 \<Rightarrow> crd_t \<times> uint32" where
  "insert_LRU lru = (let (n, sflag, col) = cLRUcol (ucast lru) in (crd_zero\<lparr>iflags := sflag, icols := col\<rparr>, of_nat n))"

definition insert_LFU :: "crd_t \<times> uint32" where
  "insert_LFU = (let (n, sflag, col) = cLFUcol 1 in (crd_zero\<lparr>iflags := sflag, icols := col\<rparr>, of_nat n))"

text \<open>Column \<open>i\<close>: an LRU or LFU column, an omitted value, or the text between two offsets.\<close>

definition createRow_col :: "c_float \<Rightarrow> r_tbl \<Rightarrow> uint32 \<Rightarrow> byte list \<Rightarrow> nat \<Rightarrow> coltype \<Rightarrow> (nat \<times> nat) option \<Rightarrow> col_result c_res" where
  "createRow_col fl rt lru vals i ctype cofst =
     (if rt_lrud rt \<and> rt_lruc rt = i then Inr ([], Some (insert_LRU lru))
      else if rt_lfu rt \<and> rt_lfuc rt = i then Inr ([], Some insert_LFU)
      else case cofst of
        None \<Rightarrow>
          if ctype = COL_TYPE_STRING \<or> ctype = COL_TYPE_LUAO
          then col_from_text fl ctype True EmptyStringCol 0 2 else col_from_text fl ctype True [] 0 0
      | Some (startc, endc) \<Rightarrow>
          c_bind (trim_val vals startc endc) (\<lambda>(s, slens). col_from_text fl ctype False vals s slens))"

fun createRow_loop :: "c_float \<Rightarrow> r_tbl \<Rightarrow> uint32 \<Rightarrow> byte list \<Rightarrow> nat \<Rightarrow> (coltype \<times> (nat \<times> nat) option) list \<Rightarrow> uint32 \<Rightarrow>
    (stream_reply list \<times> (crd_t list \<times> uint32) option) c_res" where
  "createRow_loop fl rt lru vals i [] rlen = Inr ([], Some ([], rlen))"
| "createRow_loop fl rt lru vals i ((ctype, cofst) # cs) rlen =
     c_bind (createRow_col fl rt lru vals i ctype cofst) (\<lambda>(replies, r). case r of
       None \<Rightarrow> Inr (replies, None)
     | Some (d, nclen) \<Rightarrow>
         let rlen' = rlen + nclen in
         c_bind (createRow_loop fl rt lru vals (Suc i) cs rlen') (\<lambda>(replies', r').
           Inr (replies @ replies', map_option (\<lambda>(ds, n). (d\<lparr>mcofsts := rlen'\<rparr> # ds, n)) r')))"

text \<open>The number of columns written: up to the last one filled, and up to the LRU and LFU columns.\<close>

definition filled_cols :: "r_tbl \<Rightarrow> (nat \<times> nat) option list \<Rightarrow> nat" where
  "filled_cols rt cofsts =
     (let n1 = length (dropWhile (\<lambda>c. c = None) (rev cofsts));
          n2 = (if rt_lrud rt \<and> n1 \<le> rt_lruc rt then rt_lruc rt + 1 else n1)
      in if rt_lfu rt \<and> n2 \<le> rt_lfuc rt then rt_lfuc rt + 1 else n2)"

text \<open>
  \<^verbatim>\<open>createRow\<close> for a table in a normal tree (the rows of an \<^verbatim>\<open>OTHER_BT\<close> table are values without a row):
  the replies sent and the row.
\<close>

definition createRow :: "c_float \<Rightarrow> bool \<Rightarrow> (nat \<Rightarrow> byte list \<Rightarrow> bool) \<Rightarrow> r_tbl \<Rightarrow> uint32 \<Rightarrow> byte list \<Rightarrow>
    (nat \<times> nat) option list \<Rightarrow> (stream_reply list \<times> row_blob option) c_res" where
  "createRow fl zipsw lua rt lru vals cofsts =
     (let ncols = filled_cols rt cofsts;
          cts = take (ncols - 1) (tl (rt_col rt)); cs = take (ncols - 1) (tl cofsts);
          cnt = length (filter (\<lambda>(i, c). \<not> (rt_lrud rt \<and> rt_lruc rt = i) \<and> \<not> (rt_lfu rt \<and> rt_lfuc rt = i) \<and> c \<noteq> None)
                  (zip [1..<ncols] cs))
      in c_bind (createRow_loop fl rt lru vals 1 (zip cts cs) 0) (\<lambda>(replies, r). case r of
           None \<Rightarrow> Inr (replies, None)
         | Some (ds, rlen) \<Rightarrow>
             c_bind (writeRow zipsw lua cts ds rlen cnt) (\<lambda>row. Inr (replies, row))))"

subsection \<open>Reading a row\<close>

definition read_le :: "nat \<Rightarrow> byte list \<Rightarrow> nat \<Rightarrow> uint32 c_res" where
  "read_le n bs p = c_bind (c_take n (drop p bs)) (\<lambda>w. Inr (le_word w))"

definition offst_size :: "byte \<Rightarrow> nat" where
  "offst_size rflag = (if rflag AND RFLAG_1BYTE_INT \<noteq> 0 then 1 else if rflag AND RFLAG_2BYTE_INT \<noteq> 0 then 2 else 4)"

text \<open>\<^verbatim>\<open>getRowPayload\<close>: the offset of the data, \<^verbatim>\<open>*rflag\<close>, \<^verbatim>\<open>*ncols\<close> and \<^verbatim>\<open>*rlen\<close>.\<close>

fun getRowPayload :: "row_blob \<Rightarrow> (nat \<times> byte \<times> uint32 \<times> uint32) c_res" where
  "getRowPayload (Normal_row bs) =
     c_bind (c_read bs 0) (\<lambda>rflag.
     c_bind (streamIntToUInt (drop 1 bs)) (\<lambda>(ncols, clen).
       let p = 1 + clen + unat ncols * unat (rflag AND RFLAG_SIZE_FLAG) in
       c_bind (read_le (offst_size rflag) bs (p - offst_size rflag)) (\<lambda>rlen.
         Inr (p, rflag, ncols, rlen + of_nat p))))"
| "getRowPayload (Hash16_row pre ht data) =
     c_bind (c_read pre 0) (\<lambda>rflag.
     c_bind (streamIntToUInt (drop 1 pre)) (\<lambda>(rlen, clen1).
     c_bind (streamIntToUInt (drop (1 + clen1) pre)) (\<lambda>(ncols, clen2).
       let p = 1 + clen1 + clen2 + alc_hash16_size ht in Inr (p, rflag, ncols, rlen + of_nat p))))"
| "getRowPayload (Hash32_row pre ht data) =
     c_bind (c_read pre 0) (\<lambda>rflag.
     c_bind (streamIntToUInt (drop 1 pre)) (\<lambda>(rlen, clen1).
     c_bind (streamIntToUInt (drop (1 + clen1) pre)) (\<lambda>(ncols, clen2).
       let p = 1 + clen1 + clen2 + alc_hash32_size ht in Inr (p, rflag, ncols, rlen + of_nat p))))"

definition getRowMallocSize :: "row_blob option \<Rightarrow> uint32 c_res" where
  "getRowMallocSize stream = (case stream of
     None \<Rightarrow> Inr 8 | Some row \<Rightarrow> c_bind (getRowPayload row) (\<lambda>(_, _, _, rlen). Inr rlen))"

text \<open>
  \<^verbatim>\<open>getColData\<close>: the bytes from the column on, \<^verbatim>\<open>*clen\<close> and \<^verbatim>\<open>*rflag\<close>. In a normal row the offsets are looked for
  behind the size of \<^verbatim>\<open>ncols - 1\<close>, although \<^verbatim>\<open>ncols\<close> is the number the row was written with.
\<close>

fun getColData :: "row_blob \<Rightarrow> nat \<Rightarrow> (byte list \<times> uint32 \<times> byte) c_res" where
  "getColData (Normal_row bs) cm =
     c_bind (getRowPayload (Normal_row bs)) (\<lambda>(p, rflag, ncols, _).
       if unat ncols < cm then Inr (drop p bs, 0, rflag)
       else let sz = offst_size rflag; cofst = 1 + getCSize (ucast (ncols - 1)) True; m = cm - 1 in
         c_bind (if m = 0 then Inr 0 else read_le sz bs (cofst + (m - 1) * sz)) (\<lambda>start.
         c_bind (read_le sz bs (cofst + m * sz)) (\<lambda>next.
           Inr (drop (p + unat start) bs, next - start, rflag))))"
| "getColData (Hash16_row pre ht data) cm =
     c_bind (getRowPayload (Hash16_row pre ht data)) (\<lambda>(p, rflag, ncols, _).
       if unat ncols < cm then Inr (data, 0, rflag)
       else c_bind (alc_hash16_fetch (of_nat cm) ht) (\<lambda>val.
         let start = (ucast (val div 65535) :: ushort16); next = (ucast (val mod 65535) :: ushort16) in
         Inr (drop (unat start) data, word_of_int (uint next - uint start), rflag)))"
| "getColData (Hash32_row pre ht data) cm =
     c_bind (getRowPayload (Hash32_row pre ht data)) (\<lambda>(p, rflag, ncols, _).
       if unat ncols < cm then Inr (data, 0, rflag)
       else c_bind (alc_hash32_fetch (of_nat cm) ht) (\<lambda>val.
         let start = (word_of_int (c_div (sint val) UINT_MAX) :: uint32);
             next = word_of_int (c_mod (sint val) UINT_MAX) in
         Inr (drop (unat start) data, next - start, rflag)))"

subsection \<open>Columns as values\<close>

definition initAobjCol2S :: "c_float \<Rightarrow> aobj \<Rightarrow> ulong \<Rightarrow> uint128 \<Rightarrow> uint32 \<Rightarrow> int \<Rightarrow> coltype \<Rightarrow> aobj" where
  "initAobjCol2S fl a l x f cm ktype =
     (let dest = (if ktype = COL_TYPE_U128 then SPRINTF_128 x
                  else if ktype = COL_TYPE_FLOAT then fl_fmt10g fl f else c_utoa (unat l))
      in a\<lparr>a_len := length dest, a_s := Some (dest @ [0]), a_enc := COL_TYPE_STRING,
           a_freeme := \<not> (0 \<le> cm \<and> cm < 256)\<rparr>)"

definition initIntAobjFromVal :: "c_float \<Rightarrow> uint32 \<Rightarrow> bool \<Rightarrow> int \<Rightarrow> aobj" where
  "initIntAobjFromVal fl i fs cm =
     (let a = initAobj\<lparr>a_type := COL_TYPE_INT, a_empty := False\<rparr> in
      if fs then initAobjCol2S fl a (ucast i) 0 0 cm COL_TYPE_INT else a\<lparr>a_i := i, a_enc := COL_TYPE_INT\<rparr>)"

definition initLongAobjFromVal :: "c_float \<Rightarrow> ulong \<Rightarrow> bool \<Rightarrow> int \<Rightarrow> aobj" where
  "initLongAobjFromVal fl l fs cm =
     (let a = initAobj\<lparr>a_type := COL_TYPE_LONG, a_empty := False\<rparr> in
      if fs then initAobjCol2S fl a l 0 0 cm COL_TYPE_LONG else a\<lparr>a_l := l, a_enc := COL_TYPE_LONG\<rparr>)"

definition initU128AobjFromVal :: "c_float \<Rightarrow> uint128 \<Rightarrow> bool \<Rightarrow> int \<Rightarrow> aobj" where
  "initU128AobjFromVal fl x fs cm =
     (let a = initAobj\<lparr>a_type := COL_TYPE_U128, a_empty := False\<rparr> in
      if fs then initAobjCol2S fl a 0 x 0 cm COL_TYPE_U128 else a\<lparr>a_x := x, a_enc := COL_TYPE_U128\<rparr>)"

definition initFloatAobjFromVal :: "c_float \<Rightarrow> uint32 \<Rightarrow> bool \<Rightarrow> int \<Rightarrow> aobj" where
  "initFloatAobjFromVal fl f fs cm =
     (let a = initAobj\<lparr>a_type := COL_TYPE_FLOAT, a_empty := False\<rparr> in
      if fs then initAobjCol2S fl a 0 0 f cm COL_TYPE_FLOAT else a\<lparr>a_f := f, a_enc := COL_TYPE_FLOAT\<rparr>)"

definition colFromUU :: "c_float \<Rightarrow> ulong \<Rightarrow> bool \<Rightarrow> int \<Rightarrow> aobj" where
  "colFromUU fl key fs cm = initIntAobjFromVal fl (word_of_int (c_mod (sint key) UINT_MAX)) fs cm"

definition colFromUL :: "c_float \<Rightarrow> ulong \<Rightarrow> bool \<Rightarrow> int \<Rightarrow> aobj" where
  "colFromUL fl key fs cm =
     (if cm \<noteq> 0 then initLongAobjFromVal fl key fs cm else initIntAobjFromVal fl (ucast key) fs cm)"

definition colFromLU :: "c_float \<Rightarrow> ulong \<Rightarrow> bool \<Rightarrow> int \<Rightarrow> aobj" where
  "colFromLU fl key fs cm =
     (if cm \<noteq> 0 then initIntAobjFromVal fl (ucast key) fs cm else initLongAobjFromVal fl key fs cm)"

definition colFromLL :: "c_float \<Rightarrow> ulong \<Rightarrow> bool \<Rightarrow> int \<Rightarrow> aobj" where
  "colFromLL fl key fs cm = initLongAobjFromVal fl key fs cm"

definition colFromXX :: "c_float \<Rightarrow> uint128 \<Rightarrow> bool \<Rightarrow> int \<Rightarrow> aobj" where
  "colFromXX fl key fs cm = initU128AobjFromVal fl key fs cm"

text \<open>
  \<^verbatim>\<open>getRawCol\<close> for the columns of a normal tree: -1 is a column the table does not have, 0 the key, which is
  not in the row. Function columns and index positions (below -1) and LUAO columns, which the Lua interpreter
  holds, are answered by the arguments \<open>special\<close> and \<open>lua_col\<close>.
\<close>

definition text_of_col :: "byte list \<Rightarrow> nat \<Rightarrow> byte \<Rightarrow> aobj c_res" where
  "text_of_col data clen rflag =
     (let a = aobj_of COL_TYPE_STRING in
      if rflag AND RFLAG_6BIT_ZIP \<noteq> 0 then
        c_bind (c_take clen data) (\<lambda>z. c_bind (unpackSixBit z (of_nat clen)) (\<lambda>(s, len).
          if None \<in> set (take (Suc len) s) then Inl Uninit_read
          else Inr (a\<lparr>a_s := Some (map the (take (Suc len) s)), a_len := len, a_freeme := True\<rparr>)))
      else if rflag AND RFLAG_LZF_ZIP \<noteq> 0 then
        c_bind (streamLZFTextToString data clen) (\<lambda>r. case r of
          None \<Rightarrow> Inr (a\<lparr>a_s := Some [], a_len := 0, a_freeme := True\<rparr>)
        | Some s \<Rightarrow> Inr (a\<lparr>a_s := Some s, a_len := length s, a_freeme := True\<rparr>))
      else Inr (a\<lparr>a_s := Some data, a_len := clen\<rparr>))"

definition getRawCol :: "c_float \<Rightarrow> (int \<Rightarrow> bool \<Rightarrow> aobj) \<Rightarrow> (nat \<Rightarrow> bool \<Rightarrow> aobj) \<Rightarrow> r_tbl \<Rightarrow> row_blob \<Rightarrow> int \<Rightarrow> aobj \<Rightarrow> bool \<Rightarrow> aobj c_res" where
  "getRawCol fl special lua_col rt orow cm apk fs =
     (if cm < - 1 then Inr (special cm fs)
      else if cm = - 1 then Inr initAobj
      else if nat cm \<ge> length (rt_col rt) then Inl OOB_read
      else let ctype = rt_col rt ! nat cm in
        if cm = 0 then
          if ctype \<noteq> COL_TYPE_STRING \<and> \<not> fs then Inr apk
          else c_bind (initStringAobjFromAobj fl apk) (\<lambda>a. Inr (a\<lparr>a_type := a_type apk\<rparr>))
        else c_bind (getColData orow (nat cm)) (\<lambda>(data, clen, rflag).
          if clen = 0 \<and> ctype \<noteq> COL_TYPE_LUAO then Inr initAobj
          else case ctype of
            COL_TYPE_INT \<Rightarrow> c_bind (streamIntToUInt data) (\<lambda>(i, _). Inr (initIntAobjFromVal fl i fs cm))
          | COL_TYPE_LONG \<Rightarrow> c_bind (streamLongToULong data) (\<lambda>(l, _). Inr (initLongAobjFromVal fl l fs cm))
          | COL_TYPE_U128 \<Rightarrow> c_bind (streamToU128 data) (\<lambda>(x, _). Inr (initU128AobjFromVal fl x fs cm))
          | COL_TYPE_FLOAT \<Rightarrow> c_bind (streamFloatToFloat data) (\<lambda>(f, _). Inr (initFloatAobjFromVal fl f fs cm))
          | COL_TYPE_LUAO \<Rightarrow> Inr (lua_col (nat cm) fs)
          | COL_TYPE_STRING \<Rightarrow> text_of_col data (unat clen) rflag
          | _ \<Rightarrow> Inl Assert_fail))"

definition getCol :: "c_float \<Rightarrow> (int \<Rightarrow> bool \<Rightarrow> aobj) \<Rightarrow> (nat \<Rightarrow> bool \<Rightarrow> aobj) \<Rightarrow> r_tbl \<Rightarrow> row_blob \<Rightarrow> int \<Rightarrow> aobj \<Rightarrow> aobj c_res" where
  "getCol fl special lua_col rt rrow cm apk = getRawCol fl special lua_col rt rrow cm apk False"

definition getSCol :: "c_float \<Rightarrow> (int \<Rightarrow> bool \<Rightarrow> aobj) \<Rightarrow> (nat \<Rightarrow> bool \<Rightarrow> aobj) \<Rightarrow> r_tbl \<Rightarrow> row_blob \<Rightarrow> int \<Rightarrow> aobj \<Rightarrow> aobj c_res" where
  "getSCol fl special lua_col rt rrow cm apk = getRawCol fl special lua_col rt rrow cm apk True"

end
