(* ===== verification/Alc_BTKey.thy ===== *)
theory Alc_BTKey
  imports Alc_Index Alc_Row
begin

text \<open>
  Keys and streams of a B-tree (\<^verbatim>\<open>src/DB/stream.c\<close>, \<^verbatim>\<open>src/DB/bt.h\<close>): how a value becomes the search key of a tree
  of a given kind, how key and value become the stored entry, and how both are read back. A \<^verbatim>\<open>void *\<close> of this code is
  either a number (a key kept in the pointer, the address of a tree, or \<^verbatim>\<open>NULL\<close>, the number 0) or it points to memory.
  The packed structs \<^verbatim>\<open>ulk .. xxk\<close> are the bytes of the key followed by the bytes of the value. Rows are normal
  rows here. Memory accounting is left out.
\<close>

datatype c_ptr = Word ulong | Mem "byte list"

abbreviation NULL :: c_ptr where "NULL \<equiv> Word 0"

text \<open>Reading through a pointer; the address of an object as a number is not a value of the model.\<close>

definition ptr_mem :: "c_ptr \<Rightarrow> byte list c_res" where
  "ptr_mem p = (case p of Mem bs \<Rightarrow> Inr bs | Word _ \<Rightarrow> Inl Null_deref)"

definition ptr_word :: "c_ptr \<Rightarrow> ulong c_res" where
  "ptr_word p = (case p of Word w \<Rightarrow> Inr w | Mem _ \<Rightarrow> Inl Uninit_read)"

definition fld :: "nat \<Rightarrow> nat \<Rightarrow> c_ptr \<Rightarrow> 'a::len word c_res" where
  "fld off n p = c_bind (ptr_mem p) (\<lambda>bs. c_bind (c_take n (drop off bs)) (\<lambda>b. Inr (le_word b)))"

subsection \<open>Kinds of trees\<close>

datatype bt_type = BTREE_TABLE | BTREE_INDEX | BTREE_INODE | BTREE_MCI | BTREE_MCI_MID | BT_MCI_UNIQ | BT_SIMP_UNIQ

record bts_t =
  ktype :: coltype
  btype :: bt_type
  ksize :: nat
  bflag :: ushort16
  bts_num :: ushort16

definition UINTSIZE :: nat where "UINTSIZE = 4"
definition VOIDSIZE :: nat where "VOIDSIZE = 8"
definition ULONGSIZE :: nat where "ULONGSIZE = 8"
definition U128SIZE :: nat where "U128SIZE = 16"

definition BTFLAG_NONE :: ushort16 where "BTFLAG_NONE = 0"
definition BTFLAG_UINT_INDEX :: ushort16 where "BTFLAG_UINT_INDEX = 1"
definition BTFLAG_ULONG_INDEX :: ushort16 where "BTFLAG_ULONG_INDEX = 2"
definition BTFLAG_U128_INDEX :: ushort16 where "BTFLAG_U128_INDEX = 4"
definition BTFLAG_OBC :: ushort16 where "BTFLAG_OBC = 8"
definition BTFLAG_UINT_UINT :: ushort16 where "BTFLAG_UINT_UINT = 16"
definition BTFLAG_UINT_ULONG :: ushort16 where "BTFLAG_UINT_ULONG = 32"
definition BTFLAG_ULONG_UINT :: ushort16 where "BTFLAG_ULONG_UINT = 64"
definition BTFLAG_ULONG_ULONG :: ushort16 where "BTFLAG_ULONG_ULONG = 128"
definition BTFLAG_UINT_U128 :: ushort16 where "BTFLAG_UINT_U128 = 256"
definition BTFLAG_U128_UINT :: ushort16 where "BTFLAG_U128_UINT = 512"
definition BTFLAG_ULONG_U128 :: ushort16 where "BTFLAG_ULONG_U128 = 1024"
definition BTFLAG_U128_ULONG :: ushort16 where "BTFLAG_U128_ULONG = 2048"
definition BTFLAG_U128_U128 :: ushort16 where "BTFLAG_U128_U128 = 4096"

lemmas btflag_defs = BTFLAG_NONE_def BTFLAG_UINT_INDEX_def BTFLAG_ULONG_INDEX_def BTFLAG_U128_INDEX_def
  BTFLAG_OBC_def BTFLAG_UINT_UINT_def BTFLAG_UINT_ULONG_def BTFLAG_ULONG_UINT_def BTFLAG_ULONG_ULONG_def
  BTFLAG_UINT_U128_def BTFLAG_U128_UINT_def BTFLAG_ULONG_U128_def BTFLAG_U128_ULONG_def BTFLAG_U128_U128_def

definition has_flag :: "bts_t \<Rightarrow> ushort16 \<Rightarrow> bool" where
  "has_flag s f \<longleftrightarrow> bflag s AND f \<noteq> 0"

definition INODE_I :: "bts_t \<Rightarrow> bool" where
  "INODE_I s \<longleftrightarrow> btype s = BTREE_INODE \<and> ktype s = COL_TYPE_INT \<and> \<not> has_flag s BTFLAG_OBC"

definition INODE_L :: "bts_t \<Rightarrow> bool" where
  "INODE_L s \<longleftrightarrow> btype s = BTREE_INODE \<and> ktype s = COL_TYPE_LONG \<and> \<not> has_flag s BTFLAG_OBC"

definition INODE_X :: "bts_t \<Rightarrow> bool" where
  "INODE_X s \<longleftrightarrow> btype s = BTREE_INODE \<and> ktype s = COL_TYPE_U128 \<and> \<not> has_flag s BTFLAG_OBC"

definition INODE :: "bts_t \<Rightarrow> bool" where "INODE s \<longleftrightarrow> INODE_I s \<or> INODE_L s \<or> INODE_X s"

definition SIMP_UNIQ :: "bts_t \<Rightarrow> bool" where "SIMP_UNIQ s \<longleftrightarrow> btype s = BT_SIMP_UNIQ"
definition MCI_UNIQ :: "bts_t \<Rightarrow> bool" where "MCI_UNIQ s \<longleftrightarrow> btype s = BT_MCI_UNIQ"
definition OBYI :: "bts_t \<Rightarrow> bool" where "OBYI s = has_flag s BTFLAG_OBC"

definition UU :: "bts_t \<Rightarrow> bool" where "UU s = has_flag s BTFLAG_UINT_UINT"
definition UL :: "bts_t \<Rightarrow> bool" where "UL s = has_flag s BTFLAG_UINT_ULONG"
definition LU :: "bts_t \<Rightarrow> bool" where "LU s = has_flag s BTFLAG_ULONG_UINT"
definition LL :: "bts_t \<Rightarrow> bool" where "LL s = has_flag s BTFLAG_ULONG_ULONG"
definition UX :: "bts_t \<Rightarrow> bool" where "UX s = has_flag s BTFLAG_UINT_U128"
definition XU :: "bts_t \<Rightarrow> bool" where "XU s = has_flag s BTFLAG_U128_UINT"
definition LX :: "bts_t \<Rightarrow> bool" where "LX s = has_flag s BTFLAG_ULONG_U128"
definition XL :: "bts_t \<Rightarrow> bool" where "XL s = has_flag s BTFLAG_U128_ULONG"
definition XX :: "bts_t \<Rightarrow> bool" where "XX s = has_flag s BTFLAG_U128_U128"

definition UP :: "bts_t \<Rightarrow> bool" where "UP s = has_flag s BTFLAG_UINT_INDEX"
definition LUP :: "bts_t \<Rightarrow> bool" where
  "LUP s \<longleftrightarrow> has_flag s BTFLAG_ULONG_INDEX \<and> has_flag s BTFLAG_ULONG_UINT"
definition LLP :: "bts_t \<Rightarrow> bool" where
  "LLP s \<longleftrightarrow> has_flag s BTFLAG_ULONG_INDEX \<and> has_flag s BTFLAG_ULONG_ULONG"
definition XUP :: "bts_t \<Rightarrow> bool" where
  "XUP s \<longleftrightarrow> has_flag s BTFLAG_UINT_INDEX \<and> has_flag s BTFLAG_U128_UINT"
definition XLP :: "bts_t \<Rightarrow> bool" where
  "XLP s \<longleftrightarrow> has_flag s BTFLAG_ULONG_INDEX \<and> has_flag s BTFLAG_U128_ULONG"
definition XXP :: "bts_t \<Rightarrow> bool" where
  "XXP s \<longleftrightarrow> has_flag s BTFLAG_U128_INDEX \<and> has_flag s BTFLAG_U128_ULONG"

definition UKEY :: "bts_t \<Rightarrow> bool" where "UKEY s \<longleftrightarrow> UU s \<or> LU s \<or> XU s"
definition LKEY :: "bts_t \<Rightarrow> bool" where "LKEY s \<longleftrightarrow> UL s \<or> LL s \<or> XL s"
definition XKEY :: "bts_t \<Rightarrow> bool" where "XKEY s \<longleftrightarrow> UX s \<or> LX s \<or> XX s"

definition OTHER_BT :: "bts_t \<Rightarrow> bool" where "OTHER_BT s \<longleftrightarrow> bflag s \<ge> BTFLAG_UINT_UINT"
definition BIG_BT :: "bts_t \<Rightarrow> bool" where "BIG_BT s \<longleftrightarrow> bflag s > BTFLAG_UINT_UINT"
definition NORM_BT :: "bts_t \<Rightarrow> bool" where "NORM_BT s \<longleftrightarrow> bflag s = BTFLAG_NONE"

lemmas bt_kind_defs = has_flag_def INODE_I_def INODE_L_def INODE_X_def INODE_def OBYI_def MCI_UNIQ_def
  UU_def UL_def LU_def LL_def UX_def XU_def LX_def XL_def XX_def UP_def LUP_def LLP_def XUP_def XLP_def XXP_def
  OTHER_BT_def NORM_BT_def

subsection \<open>From a value to a search key\<close>

definition cr8BTKInt :: "aobj \<Rightarrow> (byte list \<times> nat) option" where
  "cr8BTKInt akey =
     (let (n, sflag, l) = cr8Icol (ucast (a_i akey)) in
      if l \<ge> TWO_POW_32 then None else Some (writeUIntCol sflag l, n))"

definition cr8BTKLong :: "aobj \<Rightarrow> byte list \<times> nat" where
  "cr8BTKLong akey = (let (n, sflag, l) = cr8Lcol (a_l akey) in (writeULongCol sflag l, n))"

definition cr8BTKU128 :: "aobj \<Rightarrow> byte list \<times> nat" where
  "cr8BTKU128 akey = (let (n, x) = cr8Xcol (a_x akey) in (writeU128Col x, n))"

definition cr8BTKFloat :: "aobj \<Rightarrow> byte list \<times> nat" where
  "cr8BTKFloat akey = (writeFloatCol True (a_f akey), 4)"

definition BTK_BSIZE :: nat where "BTK_BSIZE = 2048"

text \<open>
  The text branch: a header of one byte (the length doubled, plus one) or of four bytes (the length doubled), then
  the text. The result is the key, \<^verbatim>\<open>*med\<close> and \<^verbatim>\<open>*ksize\<close>.
\<close>

definition cr8BTKText :: "aobj \<Rightarrow> (c_ptr \<times> bool \<times> nat) c_res" where
  "cr8BTKText akey =
     (let len = a_len akey; tiny = (len < unat TWO_POW_7); n = len + (if tiny then 1 else 4);
          hdr = (if tiny then [of_nat (len * 2 + 1)] else le_bytes 4 (of_nat (len * 2) :: uint32)) in
      case a_s akey of
        None \<Rightarrow> if len = 0 then Inr (Mem hdr, False, n) else Inl Null_deref
      | Some str \<Rightarrow> c_bind (c_take len str) (\<lambda>t. Inr (Mem (hdr @ t), BTK_BSIZE \<le> n, n)))"

text \<open>
  The value member of the static structs \<^verbatim>\<open>UL_BTKeyPtr ..\<close> is never assigned, so it is 0. For a key type that is none
  of the five the function returns the buffer as the last call left it.
\<close>

definition createBTKey :: "aobj \<Rightarrow> bts_t \<Rightarrow> (c_ptr \<times> bool \<times> nat) c_res" where
  "createBTKey akey s =
     (let word = (\<lambda>w. Inr (Word w, False, VOIDSIZE)); obt = (\<lambda>bs. Inr (Mem bs, False, VOIDSIZE)) in
      if INODE_I s then word (ucast (a_i akey))
      else if INODE_L s then word (a_l akey)
      else if INODE_X s then obt (le_bytes 16 (a_x akey))
      else if UU s then word (uu_btkey (a_i akey))
      else if UL s then obt (le_bytes 4 (a_i akey) @ le_bytes 8 (0 :: ulong))
      else if LU s then obt (le_bytes 8 (a_l akey) @ le_bytes 4 (0 :: uint32))
      else if LL s then obt (le_bytes 8 (a_l akey) @ le_bytes 8 (0 :: ulong))
      else if UX s then obt (le_bytes 4 (a_i akey) @ le_bytes 16 (0 :: uint128))
      else if XU s then obt (le_bytes 16 (a_x akey) @ le_bytes 4 (0 :: uint32))
      else if LX s then obt (le_bytes 8 (a_l akey) @ le_bytes 16 (0 :: uint128))
      else if XL s then obt (le_bytes 16 (a_x akey) @ le_bytes 8 (0 :: ulong))
      else if XX s then obt (le_bytes 16 (a_x akey) @ le_bytes 16 (0 :: uint128))
      else case ktype s of
        COL_TYPE_STRING \<Rightarrow> cr8BTKText akey
      | COL_TYPE_LONG \<Rightarrow> (case cr8BTKLong akey of (bs, n) \<Rightarrow> Inr (Mem bs, False, n))
      | COL_TYPE_U128 \<Rightarrow> (case cr8BTKU128 akey of (bs, n) \<Rightarrow> Inr (Mem bs, False, n))
      | COL_TYPE_FLOAT \<Rightarrow> (case cr8BTKFloat akey of (bs, n) \<Rightarrow> Inr (Mem bs, False, n))
      | COL_TYPE_INT \<Rightarrow> (case cr8BTKInt akey of None \<Rightarrow> Inr (NULL, False, VOIDSIZE) | Some (bs, n) \<Rightarrow> Inr (Mem bs, False, n))
      | _ \<Rightarrow> Inl Uninit_read)"

subsection \<open>Reading an entry back\<close>

definition skipToVal :: "byte list \<Rightarrow> coltype \<Rightarrow> nat c_res" where
  "skipToVal stream kt = (case kt of
       COL_TYPE_INT \<Rightarrow> c_bind (streamIntToUInt stream) (\<lambda>(_, klen). Inr klen)
     | COL_TYPE_LONG \<Rightarrow> c_bind (streamLongToULong stream) (\<lambda>(_, klen). Inr klen)
     | COL_TYPE_U128 \<Rightarrow> c_bind (streamToU128 stream) (\<lambda>(_, klen). Inr klen)
     | COL_TYPE_FLOAT \<Rightarrow> c_bind (streamFloatToFloat stream) (\<lambda>(_, klen). Inr klen)
     | _ \<Rightarrow> c_bind (c_read stream 0) (\<lambda>b.
         if getSflag b \<noteq> 0 then c_bind (getTString stream) (\<lambda>(_, klen). Inr (klen + 1))
         else c_bind (getString stream) (\<lambda>(_, klen). Inr (klen + 4))))"

text \<open>
  \<^verbatim>\<open>parseStream\<close>. For \<^verbatim>\<open>XXP\<close> the 24 bytes of an \<^verbatim>\<open>xlk\<close> are read as an \<^verbatim>\<open>xxk\<close>, whose value has 16 bytes.
\<close>

definition parseStream :: "c_ptr \<Rightarrow> bts_t \<Rightarrow> c_ptr c_res" where
  "parseStream stream s =
     (if stream = NULL \<or> INODE s then Inr NULL
      else if UU s then c_bind (ptr_word stream) (\<lambda>w. Inr (Word (uu_val w)))
      else if UP s then c_bind (fld 4 8 stream) (\<lambda>w. Inr (Word w))
      else if LUP s then c_bind (fld 8 4 stream) (\<lambda>w. Inr (Word (ucast (w :: uint32))))
      else if LLP s then c_bind (fld 8 8 stream) (\<lambda>w. Inr (Word w))
      else if XUP s then c_bind (fld 16 4 stream) (\<lambda>w. Inr (Word (ucast (w :: uint32))))
      else if XLP s then c_bind (fld 16 8 stream) (\<lambda>w. Inr (Word w))
      else if XXP s then c_bind (fld 16 16 stream) (\<lambda>w. Inr (Word (ucast (w :: uint128))))
      else if OTHER_BT s then Inr stream
      else c_bind (ptr_mem stream) (\<lambda>bs. c_bind (skipToVal bs (ktype s)) (\<lambda>klen.
        if btype s = BTREE_TABLE then Inr (Mem (drop klen bs))
        else if btype s = BTREE_INODE then Inr NULL
        else c_bind (fld klen 8 stream) (\<lambda>w. Inr (Word w)))))"

definition conv2key :: "coltype \<Rightarrow> (aobj \<Rightarrow> aobj) \<Rightarrow> aobj" where
  "conv2key t upd = upd (initAobj\<lparr>a_empty := False, a_type := t, a_enc := t\<rparr>)"

definition convertStream2Key :: "c_ptr \<Rightarrow> bts_t \<Rightarrow> aobj c_res" where
  "convertStream2Key stream s =
     (let int_key = (\<lambda>i. Inr (conv2key COL_TYPE_INT (\<lambda>a. a\<lparr>a_i := i\<rparr>)));
          long_key = (\<lambda>l. Inr (conv2key COL_TYPE_LONG (\<lambda>a. a\<lparr>a_l := l\<rparr>)));
          u128_key = (\<lambda>x. Inr (conv2key COL_TYPE_U128 (\<lambda>a. a\<lparr>a_x := x\<rparr>))) in
      if INODE_I s then c_bind (ptr_word stream) (\<lambda>w. int_key (ucast w))
      else if INODE_L s then c_bind (ptr_word stream) long_key
      else if INODE_X s then c_bind (fld 0 16 stream) u128_key
      else if UU s then c_bind (ptr_word stream) (\<lambda>w. int_key (uu_key w))
      else if UL s then c_bind (fld 0 4 stream) int_key
      else if LU s then c_bind (fld 0 8 stream) long_key
      else if LL s then c_bind (fld 0 8 stream) long_key
      else if UX s then c_bind (fld 0 4 stream) int_key
      else if XU s then c_bind (fld 0 16 stream) u128_key
      else if LX s then c_bind (fld 0 8 stream) long_key
      else if XL s then c_bind (fld 0 16 stream) u128_key
      else if XX s then c_bind (fld 0 16 stream) u128_key
      else c_bind (ptr_mem stream) (\<lambda>bs. case ktype s of
          COL_TYPE_INT \<Rightarrow> c_bind (streamIntToUInt bs) (\<lambda>(i, _). int_key i)
        | COL_TYPE_LONG \<Rightarrow> c_bind (streamLongToULong bs) (\<lambda>(l, _). long_key l)
        | COL_TYPE_U128 \<Rightarrow> c_bind (streamToU128 bs) (\<lambda>(x, _). u128_key x)
        | COL_TYPE_FLOAT \<Rightarrow> c_bind (streamFloatToFloat bs) (\<lambda>(f, _).
            Inr (conv2key COL_TYPE_FLOAT (\<lambda>a. a\<lparr>a_f := f\<rparr>)))
        | _ \<Rightarrow> c_bind (streamText bs) (\<lambda>(t, len).
            Inr (conv2key COL_TYPE_STRING (\<lambda>a. a\<lparr>a_s := Some t, a_len := len\<rparr>)))))"

text \<open>The size of the value behind the key: of a normal row, or of a pointer.\<close>

definition row_ptr :: "c_ptr \<Rightarrow> row_blob option" where
  "row_ptr p = (case p of Mem bs \<Rightarrow> Some (Normal_row bs) | Word _ \<Rightarrow> None)"

definition getStreamVlen :: "bts_t \<Rightarrow> c_ptr \<Rightarrow> nat c_res" where
  "getStreamVlen s stream =
     (if btype s = BTREE_TABLE then c_bind (getRowMallocSize (row_ptr stream)) (\<lambda>n. Inr (unat n))
      else if btype s = BTREE_INODE then Inr 0 else Inr 8)"

definition getStreamMallocSize :: "bts_t \<Rightarrow> c_ptr \<Rightarrow> nat c_res" where
  "getStreamMallocSize s stream =
     (if INODE s \<or> OTHER_BT s then Inr 0
      else c_bind (ptr_mem stream) (\<lambda>bs. c_bind (skipToVal bs (ktype s)) (\<lambda>klen.
           c_bind (getStreamVlen s (Mem (drop klen bs))) (\<lambda>vlen. Inr (row_malloc_size (klen + vlen))))))"

definition getStreamRowSize :: "bts_t \<Rightarrow> c_ptr \<Rightarrow> nat c_res" where
  "getStreamRowSize s stream =
     (if NORM_BT s then
        c_bind (ptr_mem stream) (\<lambda>bs. c_bind (skipToVal bs (ktype s)) (\<lambda>klen.
        c_bind (getStreamVlen s (Mem (drop klen bs))) (\<lambda>vlen. Inr (klen + vlen))))
      else if INODE s then Inr 0
      else if UU s then Inr 8 else if UL s then Inr 12 else if LU s then Inr 12 else if LL s then Inr 16
      else if UX s then Inr 20 else if XU s then Inr 20 else if LX s then Inr 24 else if XL s then Inr 24
      else if XX s then Inr 32 else Inl Assert_fail)"

subsection \<open>Making an entry\<close>

text \<open>
  The macros \<^verbatim>\<open>OBT_CR8_STRM\<close> (the value is a number, cut to the width of the member) and \<^verbatim>\<open>XOBT_CR8_STRM\<close> (the value
  is the value member of another such struct), for a key of \<open>kn\<close> and a value of \<open>vn\<close> bytes.
\<close>

definition obt_cr8_strm :: "nat \<Rightarrow> nat \<Rightarrow> c_ptr \<Rightarrow> c_ptr \<Rightarrow> c_ptr c_res" where
  "obt_cr8_strm kn vn val btkey =
     c_bind (ptr_mem btkey) (\<lambda>k. c_bind (c_take kn k) (\<lambda>key.
     c_bind (ptr_word val) (\<lambda>v. Inr (Mem (key @ le_bytes vn v)))))"

definition xobt_cr8_strm :: "nat \<Rightarrow> nat \<Rightarrow> c_ptr \<Rightarrow> c_ptr \<Rightarrow> c_ptr c_res" where
  "xobt_cr8_strm kn vn val btkey =
     c_bind (ptr_mem btkey) (\<lambda>k. c_bind (c_take kn k) (\<lambda>key.
     c_bind (ptr_mem val) (\<lambda>v. c_bind (c_take vn (drop kn v)) (\<lambda>v. Inr (Mem (key @ v))))))"

definition uu_merge :: "c_ptr \<Rightarrow> c_ptr \<Rightarrow> c_ptr c_res" where
  "uu_merge val btkey = c_bind (ptr_word btkey) (\<lambda>k. c_bind (ptr_word val) (\<lambda>v. Inr (Word (k + v))))"

definition OBT_createStream :: "bts_t \<Rightarrow> c_ptr \<Rightarrow> c_ptr \<Rightarrow> c_ptr c_res" where
  "OBT_createStream s val btkey =
     (if OBYI s \<or> MCI_UNIQ s then
        if UU s then uu_merge val btkey
        else if UL s then xobt_cr8_strm 4 8 val btkey
        else if LU s then xobt_cr8_strm 8 4 val btkey
        else if LL s then xobt_cr8_strm 8 8 val btkey
        else if UX s then xobt_cr8_strm 4 16 val btkey
        else if XU s then xobt_cr8_strm 16 4 val btkey
        else if LX s then xobt_cr8_strm 8 16 val btkey
        else if XL s then xobt_cr8_strm 16 8 val btkey
        else if XX s then xobt_cr8_strm 16 16 val btkey
        else Inl Assert_fail
      else if UP s then obt_cr8_strm 4 8 val btkey
      else if LUP s then obt_cr8_strm 8 4 val btkey
      else if LLP s then obt_cr8_strm 8 8 val btkey
      else if UU s then uu_merge val btkey
      else if UL s then xobt_cr8_strm 4 8 val btkey
      else if LU s then xobt_cr8_strm 8 4 val btkey
      else if LL s then xobt_cr8_strm 8 8 val btkey
      else if UX s then xobt_cr8_strm 4 16 val btkey
      else if XU s then xobt_cr8_strm 16 4 val btkey
      else if LX s then xobt_cr8_strm 8 16 val btkey
      else if XX s then xobt_cr8_strm 16 16 val btkey
      else if XL s then (if XXP s then obt_cr8_strm 16 8 val btkey else xobt_cr8_strm 16 8 val btkey)
      else Inl Assert_fail)"

text \<open>
  \<^verbatim>\<open>createStream\<close>: the entry and \<^verbatim>\<open>*size\<close>. The value of a table is a row, copied, or \<^verbatim>\<open>NULL\<close>, which leaves
  eight zero bytes; an index of texts or floats stores the address of the index node.
\<close>

definition createStream :: "bts_t \<Rightarrow> c_ptr \<Rightarrow> c_ptr \<Rightarrow> nat \<Rightarrow> (c_ptr \<times> nat) c_res" where
  "createStream s val btkey klen =
     (if INODE s then Inr (btkey, 0)
      else if OTHER_BT s then c_bind (OBT_createStream s val btkey) (\<lambda>st. Inr (st, 0))
      else c_bind (getStreamVlen s val) (\<lambda>vlen.
           c_bind (ptr_mem btkey) (\<lambda>k. c_bind (c_take klen k) (\<lambda>key.
           c_bind (if btype s = BTREE_TABLE then
                     (case val of Mem row \<Rightarrow> c_take vlen row | Word w \<Rightarrow> if w = 0 then Inr (replicate 8 0) else Inl Null_deref)
                   else if btype s \<noteq> BTREE_INODE then c_bind (ptr_word val) (\<lambda>v. Inr (le_bytes 8 v))
                   else Inr []) (\<lambda>v. Inr (Mem (key @ v), klen + vlen))))))"

definition destroyStream :: "bts_t \<Rightarrow> c_ptr \<Rightarrow> bool c_res" where
  "destroyStream s ostream =
     (if ostream = NULL \<or> INODE s \<or> OTHER_BT s then Inr False
      else c_bind (getStreamMallocSize s ostream) (\<lambda>_. Inr True))"

end
