(* ===== verification/Alc_BT.thy ===== *)
theory Alc_BT
  imports Alc_BTKey
begin

text \<open>
  The front end of the B-tree, \<^verbatim>\<open>src/DB/bt.c\<close>: the constructors of the kinds of trees, and the operations on values
  that hide keys and streams. \<^verbatim>\<open>abt\<close> is the part of \<^verbatim>\<open>struct btree\<close> these functions use: the specification
  \<^verbatim>\<open>bts_t\<close>, the comparator and the tree of \<open>Alc_BTree\<close> with entries of type \<open>c_ptr\<close>. Trees without evicted
  rows are modelled, so \<^verbatim>\<open>dirty\<close> is left out, and \<^verbatim>\<open>abt_evict\<close>, \<^verbatim>\<open>abt_get_dr\<close> and \<^verbatim>\<open>abt_find_d\<close> with it. The build
  defines \<^verbatim>\<open>TEST_WITH_TRANS_ONE_ONLY\<close> (\<^verbatim>\<open>src/DB/bt.h\<close>), so \<^verbatim>\<open>abt_insert\<close> does not resize.
\<close>

subsection \<open>Comparators on pointers\<close>

datatype bt_cmp_t = UintCmp | UlongCmp | U128Cmp | UuCmp | UlCmp | UxCmp | LuCmp | LlCmp | LxCmp | XuCmp | XlCmp | XxCmp
  | BtIntCmp | BtLongCmp | BtU128Cmp | BtFloatCmp | BtTextCmp

text \<open>
  The comparators of \<^verbatim>\<open>src/DB/stream.c\<close> take \<^verbatim>\<open>void *\<close>. A pointer of the wrong sort (undefined in C) reads as 0, as
  in \<open>Alc_Cmp\<close>.
\<close>

definition word_of :: "c_ptr \<Rightarrow> ulong" where
  "word_of p = (case p of Word w \<Rightarrow> w | Mem _ \<Rightarrow> 0)"

definition mem_of :: "c_ptr \<Rightarrow> byte list" where
  "mem_of p = (case p of Word _ \<Rightarrow> [] | Mem bs \<Rightarrow> bs)"

definition key_at :: "nat \<Rightarrow> c_ptr \<Rightarrow> 'a::len word" where
  "key_at n p = le_word (take n (mem_of p))"

definition entry_at :: "nat \<Rightarrow> c_ptr \<Rightarrow> ('a::len word, unit) obt_entry" where
  "entry_at n p = \<lparr>obt_key = key_at n p, obt_val = ()\<rparr>"

definition btFloatCmp :: "c_float \<Rightarrow> byte list \<Rightarrow> byte list \<Rightarrow> int" where
  "btFloatCmp fl a b = sgn (fl_sub_sign fl (key_or_0 (streamFloatToFloat a)) (key_or_0 (streamFloatToFloat b)))"

fun bt_cmp :: "c_float \<Rightarrow> bt_cmp_t \<Rightarrow> c_ptr \<Rightarrow> c_ptr \<Rightarrow> int" where
  "bt_cmp fl UintCmp a b = ulongCmp (word_of a) (word_of b)"
| "bt_cmp fl UlongCmp a b = ulongCmp (word_of a) (word_of b)"
| "bt_cmp fl U128Cmp a b = u128Cmp (key_at 16 a) (key_at 16 b)"
| "bt_cmp fl UuCmp a b = uuCmp (word_of a) (word_of b)"
| "bt_cmp fl UlCmp a b = UCmp (entry_at 4 a) (entry_at 4 b)"
| "bt_cmp fl UxCmp a b = UCmp (entry_at 4 a) (entry_at 4 b)"
| "bt_cmp fl LuCmp a b = LCmp (entry_at 8 a) (entry_at 8 b)"
| "bt_cmp fl LlCmp a b = LCmp (entry_at 8 a) (entry_at 8 b)"
| "bt_cmp fl LxCmp a b = LCmp (entry_at 8 a) (entry_at 8 b)"
| "bt_cmp fl XuCmp a b = XCmp (entry_at 16 a) (entry_at 16 b)"
| "bt_cmp fl XlCmp a b = XCmp (entry_at 16 a) (entry_at 16 b)"
| "bt_cmp fl XxCmp a b = XCmp (entry_at 16 a) (entry_at 16 b)"
| "bt_cmp fl BtIntCmp a b = btIntCmp (mem_of a) (mem_of b)"
| "bt_cmp fl BtLongCmp a b = btLongCmp (mem_of a) (mem_of b)"
| "bt_cmp fl BtU128Cmp a b = btU128Cmp (mem_of a) (mem_of b)"
| "bt_cmp fl BtFloatCmp a b = btFloatCmp fl (mem_of a) (mem_of b)"
| "bt_cmp fl BtTextCmp a b = btTextCmp (mem_of a) (mem_of b)"

subsection \<open>Constructors\<close>

record abt =
  abt_s :: bts_t
  abt_cmp :: bt_cmp_t
  abt_tree :: "c_ptr bt"

definition CREATE_OBT :: "coltype \<Rightarrow> nat \<Rightarrow> ushort16 \<Rightarrow> bt_cmp_t \<Rightarrow> int \<Rightarrow> bt_type \<Rightarrow> abt" where
  "CREATE_OBT kt ks bf cmp n bty =
     \<lparr>abt_s = \<lparr>ktype = kt, btype = bty, ksize = ks, bflag = bf, bts_num = word_of_int n\<rparr>, abt_cmp = cmp,
      abt_tree = bt_create TRANS_ONE\<rparr>"

definition createUUBT :: "int \<Rightarrow> bt_type \<Rightarrow> abt" where
  "createUUBT = CREATE_OBT COL_TYPE_INT 8 BTFLAG_UINT_UINT UuCmp"
definition createULBT :: "int \<Rightarrow> bt_type \<Rightarrow> abt" where
  "createULBT = CREATE_OBT COL_TYPE_INT 12 BTFLAG_UINT_ULONG UlCmp"
definition createLUBT :: "int \<Rightarrow> bt_type \<Rightarrow> abt" where
  "createLUBT = CREATE_OBT COL_TYPE_LONG 12 BTFLAG_ULONG_UINT LuCmp"
definition createLLBT :: "int \<Rightarrow> bt_type \<Rightarrow> abt" where
  "createLLBT = CREATE_OBT COL_TYPE_LONG 16 BTFLAG_ULONG_ULONG LlCmp"
definition createUXBT :: "int \<Rightarrow> bt_type \<Rightarrow> abt" where
  "createUXBT = CREATE_OBT COL_TYPE_INT 20 BTFLAG_UINT_U128 UxCmp"
definition createXUBT :: "int \<Rightarrow> bt_type \<Rightarrow> abt" where
  "createXUBT = CREATE_OBT COL_TYPE_U128 20 BTFLAG_U128_UINT XuCmp"
definition createLXBT :: "int \<Rightarrow> bt_type \<Rightarrow> abt" where
  "createLXBT = CREATE_OBT COL_TYPE_LONG 24 BTFLAG_ULONG_U128 LxCmp"
definition createXLBT :: "int \<Rightarrow> bt_type \<Rightarrow> abt" where
  "createXLBT = CREATE_OBT COL_TYPE_U128 24 BTFLAG_U128_ULONG XlCmp"
definition createXXBT :: "int \<Rightarrow> bt_type \<Rightarrow> abt" where
  "createXXBT = CREATE_OBT COL_TYPE_U128 32 BTFLAG_U128_U128 XxCmp"

lemmas create_bt_defs = CREATE_OBT_def createUUBT_def createULBT_def createLUBT_def createLLBT_def createUXBT_def
  createXUBT_def createLXBT_def createXLBT_def createXXBT_def

definition createOBT :: "coltype \<Rightarrow> coltype \<Rightarrow> int \<Rightarrow> bt_type \<Rightarrow> abt option" where
  "createOBT kt vt tm bty = (case (kt, vt) of
       (COL_TYPE_INT, COL_TYPE_INT) \<Rightarrow> Some (createUUBT tm bty)
     | (COL_TYPE_INT, COL_TYPE_LONG) \<Rightarrow> Some (createULBT tm bty)
     | (COL_TYPE_INT, COL_TYPE_U128) \<Rightarrow> Some (createUXBT tm bty)
     | (COL_TYPE_LONG, COL_TYPE_INT) \<Rightarrow> Some (createLUBT tm bty)
     | (COL_TYPE_LONG, COL_TYPE_LONG) \<Rightarrow> Some (createLLBT tm bty)
     | (COL_TYPE_LONG, COL_TYPE_U128) \<Rightarrow> Some (createLXBT tm bty)
     | (COL_TYPE_U128, COL_TYPE_INT) \<Rightarrow> Some (createXUBT tm bty)
     | (COL_TYPE_U128, COL_TYPE_LONG) \<Rightarrow> Some (createXLBT tm bty)
     | (COL_TYPE_U128, COL_TYPE_U128) \<Rightarrow> Some (createXXBT tm bty)
     | _ \<Rightarrow> None)"

definition ASSIGN_CMP :: "coltype \<Rightarrow> bt_cmp_t" where
  "ASSIGN_CMP kt = (case kt of COL_TYPE_INT \<Rightarrow> BtIntCmp | COL_TYPE_LONG \<Rightarrow> BtLongCmp | COL_TYPE_U128 \<Rightarrow> BtU128Cmp
     | COL_TYPE_FLOAT \<Rightarrow> BtFloatCmp | _ \<Rightarrow> BtTextCmp)"

text \<open>\<^verbatim>\<open>createDBT\<close>: \<open>cols\<close> are the types of the columns of the table, the first one the primary key's.\<close>

definition createDBT :: "coltype list \<Rightarrow> coltype \<Rightarrow> int \<Rightarrow> abt" where
  "createDBT cols kt tm =
     (let norm = CREATE_OBT kt VOIDSIZE BTFLAG_NONE (ASSIGN_CMP kt) tm BTREE_TABLE in
      if length cols = 2 then
        case createOBT kt (cols ! 1) tm BTREE_TABLE of Some obtr \<Rightarrow> obtr | None \<Rightarrow> norm
      else norm)"

definition createIBT :: "coltype \<Rightarrow> int \<Rightarrow> bt_type \<Rightarrow> abt" where
  "createIBT kt im bty = (case kt of
       COL_TYPE_INT \<Rightarrow> CREATE_OBT kt 12 (BTFLAG_UINT_ULONG + BTFLAG_UINT_INDEX) UlCmp im bty
     | COL_TYPE_LONG \<Rightarrow> CREATE_OBT kt 16 (BTFLAG_ULONG_ULONG + BTFLAG_ULONG_INDEX) LlCmp im bty
     | COL_TYPE_U128 \<Rightarrow> CREATE_OBT kt 24 (BTFLAG_U128_ULONG + BTFLAG_U128_INDEX) XlCmp im bty
     | _ \<Rightarrow> CREATE_OBT kt VOIDSIZE BTFLAG_NONE (ASSIGN_CMP kt) im bty)"

definition createUIBT :: "coltype \<Rightarrow> int \<Rightarrow> coltype \<Rightarrow> bt_type \<Rightarrow> abt c_res" where
  "createUIBT kt im pktyp bty = (case kt of
       COL_TYPE_INT \<Rightarrow> Inr (case pktyp of COL_TYPE_INT \<Rightarrow> createUUBT im bty | COL_TYPE_LONG \<Rightarrow> createULBT im bty
         | _ \<Rightarrow> createUXBT im bty)
     | COL_TYPE_LONG \<Rightarrow> Inr (case pktyp of COL_TYPE_INT \<Rightarrow> createLUBT im bty | COL_TYPE_LONG \<Rightarrow> createLLBT im bty
         | _ \<Rightarrow> createLXBT im bty)
     | COL_TYPE_U128 \<Rightarrow> Inr (case pktyp of COL_TYPE_INT \<Rightarrow> createXUBT im bty | COL_TYPE_LONG \<Rightarrow> createXLBT im bty
         | _ \<Rightarrow> createXXBT im bty)
     | _ \<Rightarrow> Inl Assert_fail)"

definition createU_S_IBT :: "coltype \<Rightarrow> int \<Rightarrow> coltype \<Rightarrow> abt c_res" where
  "createU_S_IBT kt im pktyp = createUIBT kt im pktyp BT_SIMP_UNIQ"

definition createU_MCI_IBT :: "coltype \<Rightarrow> int \<Rightarrow> coltype \<Rightarrow> abt c_res" where
  "createU_MCI_IBT kt im pktyp = createUIBT kt im pktyp BT_MCI_UNIQ"

definition createMCI_MIDBT :: "coltype \<Rightarrow> int \<Rightarrow> abt" where
  "createMCI_MIDBT kt im = createIBT kt im BTREE_MCI_MID"

text \<open>\<open>fst_cm\<close> is the column of the first element of \<^verbatim>\<open>clist\<close>, \<open>cols\<close> the columns of the table of the index.\<close>

definition createMCI_IBT :: "coltype list \<Rightarrow> nat \<Rightarrow> int \<Rightarrow> coltype \<Rightarrow> abt c_res" where
  "createMCI_IBT cols fst_cm im dtype =
     c_bind (c_read cols fst_cm) (\<lambda>kt.
       Inr (createIBT (if kt = COL_TYPE_LUAO then dtype else kt) im BTREE_MCI))"

definition createIndexNode :: "coltype \<Rightarrow> coltype \<Rightarrow> abt c_res" where
  "createIndexNode kt obctype =
     (if obctype \<noteq> COL_TYPE_NONE then
        case createOBT obctype kt (- 1) BTREE_INODE of
          None \<Rightarrow> Inl Null_deref
        | Some btr \<Rightarrow> Inr (btr\<lparr>abt_s := (abt_s btr)\<lparr>bflag := bflag (abt_s btr) OR BTFLAG_OBC\<rparr>\<rparr>)
      else Inr (case kt of
          COL_TYPE_INT \<Rightarrow> CREATE_OBT kt UINTSIZE BTFLAG_NONE UintCmp (- 1) BTREE_INODE
        | COL_TYPE_LONG \<Rightarrow> CREATE_OBT kt ULONGSIZE BTFLAG_NONE UlongCmp (- 1) BTREE_INODE
        | COL_TYPE_U128 \<Rightarrow> CREATE_OBT kt U128SIZE BTFLAG_NONE U128Cmp (- 1) BTREE_INODE
        | _ \<Rightarrow> CREATE_OBT kt VOIDSIZE BTFLAG_NONE (ASSIGN_CMP kt) (- 1) BTREE_INODE))"

definition createIndexBT :: "coltype \<Rightarrow> int \<Rightarrow> abt" where
  "createIndexBT kt im = createIBT kt im BTREE_INDEX"

subsection \<open>Operations on values\<close>

definition abt_cmpf :: "c_float \<Rightarrow> abt \<Rightarrow> c_ptr \<Rightarrow> c_ptr \<Rightarrow> int" where
  "abt_cmpf fl btr = bt_cmp fl (abt_cmp btr)"

text \<open>\<^verbatim>\<open>DECLARE_BT_KEY\<close>: a key that is \<^verbatim>\<open>NULL\<close> ends the operation with the result \<open>ret\<close>.\<close>

definition DECLARE_BT_KEY :: "abt \<Rightarrow> aobj \<Rightarrow> 'a \<Rightarrow> (c_ptr \<Rightarrow> nat \<Rightarrow> 'a c_res) \<Rightarrow> 'a c_res" where
  "DECLARE_BT_KEY btr akey ret f =
     c_bind (createBTKey akey (abt_s btr)) (\<lambda>(btkey, _, ks). if btkey = NULL then Inr ret else f btkey ks)"

definition abt_insert :: "c_float \<Rightarrow> abt \<Rightarrow> aobj \<Rightarrow> c_ptr \<Rightarrow> (abt \<times> nat) c_res" where
  "abt_insert fl btr akey val = DECLARE_BT_KEY btr akey (btr, 0) (\<lambda>btkey ks.
     c_bind (createStream (abt_s btr) val btkey ks) (\<lambda>(stream, ssize).
     c_bind (bt_insert (abt_cmpf fl btr) (abt_tree btr) stream) (\<lambda>t. Inr (btr\<lparr>abt_tree := t\<rparr>, ssize))))"

definition abt_find :: "c_float \<Rightarrow> abt \<Rightarrow> aobj \<Rightarrow> c_ptr c_res" where
  "abt_find fl btr akey = DECLARE_BT_KEY btr akey NULL (\<lambda>btkey _.
     c_bind (bt_find (abt_cmpf fl btr) (abt_tree btr) btkey) (\<lambda>stream.
       parseStream (case stream of None \<Rightarrow> NULL | Some e \<Rightarrow> e) (abt_s btr)))"

definition abt_exist :: "c_float \<Rightarrow> abt \<Rightarrow> aobj \<Rightarrow> bool c_res" where
  "abt_exist fl btr akey = DECLARE_BT_KEY btr akey False (\<lambda>btkey _.
     bt_exist (abt_cmpf fl btr) (abt_tree btr) btkey)"

definition abt_del :: "c_float \<Rightarrow> abt \<Rightarrow> aobj \<Rightarrow> (abt \<times> bool) c_res" where
  "abt_del fl btr akey = DECLARE_BT_KEY btr akey (btr, False) (\<lambda>btkey _.
     c_bind (bt_delete (abt_cmpf fl btr) (abt_tree btr) btkey) (\<lambda>(t, stream).
     c_bind (destroyStream (abt_s btr) stream) (\<lambda>r. Inr (btr\<lparr>abt_tree := t\<rparr>, r))))"

text \<open>
  \<^verbatim>\<open>abt_replace\<close>. Rows are allocated in units of eight bytes (\<^verbatim>\<open>row_malloc\<close>), other streams exactly (\<^verbatim>\<open>bt_malloc\<close>), while
  \<^verbatim>\<open>getStreamMallocSize\<close> rounds up for both: copying that many bytes from a stream that is not a row may read behind
  it. When the sizes differ the new row is in the slot whether \<^verbatim>\<open>realloc\<close> has moved the block or not.
\<close>

primrec slot_write :: "nat list \<Rightarrow> nat \<Rightarrow> 'k \<Rightarrow> 'k btn \<Rightarrow> 'k btn c_res" where
  "slot_write [] j v x = c_bind (c_write (bkeys x) j v) (\<lambda>ks. Inr (BTN (scion x) (leaf x) ks (bkids x)))"
| "slot_write (i # p) j v x = c_bind (kid x i) (\<lambda>y. c_bind (slot_write p j v y) (\<lambda>y'.
     Inr (BTN (scion x) (leaf x) (bkeys x) ((bkids x)[i := y']))))"

definition stream_alloc :: "bts_t \<Rightarrow> nat \<Rightarrow> nat" where
  "stream_alloc s n = (if btype s = BTREE_TABLE then row_malloc_size n else n)"

definition abt_replace :: "c_float \<Rightarrow> abt \<Rightarrow> aobj \<Rightarrow> c_ptr \<Rightarrow> (abt \<times> nat) c_res" where
  "abt_replace fl btr akey val = DECLARE_BT_KEY btr akey (btr, 0) (\<lambda>btkey ks.
     c_bind (createStream (abt_s btr) val btkey ks) (\<lambda>(nstream, ssize).
     if NORM_BT (abt_s btr) then
       c_bind (bt_find_loc (abt_cmpf fl btr) (abt_tree btr) btkey) (\<lambda>loc. case loc of
         None \<Rightarrow> Inl Null_deref
       | Some (p, j) \<Rightarrow>
           c_bind (slot_read p j (bt_root (abt_tree btr))) (\<lambda>ostream.
           c_bind (getStreamMallocSize (abt_s btr) ostream) (\<lambda>osize.
           c_bind (getStreamMallocSize (abt_s btr) nstream) (\<lambda>nsize.
           if osize = nsize \<and> stream_alloc (abt_s btr) ssize < osize then Inl OOB_read
           else c_bind (slot_write p j nstream (bt_root (abt_tree btr))) (\<lambda>r.
             Inr (btr\<lparr>abt_tree := (abt_tree btr)\<lparr>bt_root := r\<rparr>\<rparr>, ssize))))))
     else
       c_bind (bt_replace (abt_cmpf fl btr) (abt_tree btr) btkey nstream) (\<lambda>(t, dstream).
       c_bind (destroyStream (abt_s btr) (case dstream of None \<Rightarrow> NULL | Some d \<Rightarrow> d)) (\<lambda>_.
         Inr (btr\<lparr>abt_tree := t\<rparr>, ssize)))))"

definition abt_resize :: "c_float \<Rightarrow> abt \<Rightarrow> trans \<Rightarrow> abt c_res" where
  "abt_resize fl obtr tr =
     c_bind (bt_to_bt_insert (abt_cmpf fl obtr) (bt_root (abt_tree obtr)) (bt_create tr)) (\<lambda>t.
       Inr (obtr\<lparr>abt_tree := t\<rparr>))"

subsection \<open>The public interface\<close>

definition btAdd :: "c_float \<Rightarrow> abt \<Rightarrow> aobj \<Rightarrow> c_ptr \<Rightarrow> (abt \<times> nat) c_res" where "btAdd = abt_insert"
definition btReplace :: "c_float \<Rightarrow> abt \<Rightarrow> aobj \<Rightarrow> c_ptr \<Rightarrow> (abt \<times> nat) c_res" where "btReplace = abt_replace"
definition btFind :: "c_float \<Rightarrow> abt \<Rightarrow> aobj \<Rightarrow> c_ptr c_res" where "btFind = abt_find"
definition btDelete :: "c_float \<Rightarrow> abt \<Rightarrow> aobj \<Rightarrow> (abt \<times> bool) c_res" where "btDelete = abt_del"

text \<open>An index maps a column value to the address of an index node.\<close>

definition btIndAdd :: "c_float \<Rightarrow> abt \<Rightarrow> aobj \<Rightarrow> ulong \<Rightarrow> abt c_res" where
  "btIndAdd fl ibtr ikey nbtr = c_bind (abt_insert fl ibtr ikey (Word nbtr)) (\<lambda>(b, _). Inr b)"

definition btIndFind :: "c_float \<Rightarrow> abt \<Rightarrow> aobj \<Rightarrow> c_ptr c_res" where "btIndFind = abt_find"
definition btIndExist :: "c_float \<Rightarrow> abt \<Rightarrow> aobj \<Rightarrow> bool c_res" where "btIndExist = abt_exist"

definition btIndDelete :: "c_float \<Rightarrow> abt \<Rightarrow> aobj \<Rightarrow> (abt \<times> uint32) c_res" where
  "btIndDelete fl ibtr ikey = c_bind (abt_del fl ibtr ikey) (\<lambda>(b, _). Inr (b, bt_numkeys (abt_tree b)))"

definition btIndNull :: "c_float \<Rightarrow> abt \<Rightarrow> aobj \<Rightarrow> (abt \<times> uint32) c_res" where
  "btIndNull fl ibtr ikey = c_bind (abt_replace fl ibtr ikey NULL) (\<lambda>(b, _). Inr (b, bt_numkeys (abt_tree b)))"

text \<open>
  \<^verbatim>\<open>iAddUniq\<close> (\<^verbatim>\<open>src/DB/index.c\<close>): the primary key goes into the value member of a static struct, whose key member stays 0.
\<close>

definition iAddUniq :: "c_float \<Rightarrow> abt \<Rightarrow> coltype \<Rightarrow> aobj \<Rightarrow> aobj \<Rightarrow> abt c_res" where
  "iAddUniq fl ibtr pktyp apk acol =
     (let s = abt_s ibtr; add = (\<lambda>v. c_bind (btAdd fl ibtr acol v) (\<lambda>(b, _). Inr b));
          obt = (\<lambda>kn v. add (Mem (le_bytes kn (0 :: uint128) @ v))) in
      case pktyp of
        COL_TYPE_INT \<Rightarrow>
          if UU s then add (Word (ucast (a_i apk)))
          else if LU s then obt 8 (le_bytes 4 (a_i apk)) else obt 16 (le_bytes 4 (a_i apk))
      | COL_TYPE_LONG \<Rightarrow>
          if UL s then obt 4 (le_bytes 8 (a_l apk))
          else if LL s then obt 8 (le_bytes 8 (a_l apk)) else obt 16 (le_bytes 8 (a_l apk))
      | _ \<Rightarrow>
          if UX s then obt 4 (le_bytes 16 (a_x apk))
          else if LX s then obt 8 (le_bytes 16 (a_x apk)) else obt 16 (le_bytes 16 (a_x apk)))"

definition btIndNodeExist :: "c_float \<Rightarrow> abt \<Rightarrow> aobj \<Rightarrow> bool c_res" where "btIndNodeExist = abt_exist"

text \<open>\<^verbatim>\<open>btIndNodeAdd\<close>: the result is 0 when an ORDER BY column value is already present; the error reply follows it.\<close>

definition btIndNodeAdd :: "c_float \<Rightarrow> abt \<Rightarrow> aobj \<Rightarrow> aobj option \<Rightarrow> (abt \<times> bool) c_res" where
  "btIndNodeAdd fl nbtr apk ocol = (case ocol of
       Some oc \<Rightarrow> c_bind (abt_find fl nbtr oc) (\<lambda>r.
         if r \<noteq> NULL then Inr (nbtr, False)
         else c_bind (iAddUniq fl nbtr (a_type apk) apk oc) (\<lambda>b. Inr (b, True)))
     | None \<Rightarrow> c_bind (abt_insert fl nbtr apk NULL) (\<lambda>(b, _). Inr (b, True)))"

definition btIndNodeDelete :: "c_float \<Rightarrow> abt \<Rightarrow> aobj \<Rightarrow> aobj option \<Rightarrow> (abt \<times> uint32) c_res" where
  "btIndNodeDelete fl nbtr apk ocol =
     c_bind (abt_del fl nbtr (case ocol of Some oc \<Rightarrow> oc | None \<Rightarrow> apk)) (\<lambda>(b, _). Inr (b, bt_numkeys (abt_tree b)))"

subsection \<open>Rows of two numeric columns\<close>

text \<open>
  \<^verbatim>\<open>OBT_createRow\<close> and \<^verbatim>\<open>getRC_OBT\<close> (\<^verbatim>\<open>src/DB/row.c\<close>). The text of the second column is copied into 64 bytes. Its
  offsets are \<open>i\<close> and \<open>j\<close>, the types of the two columns \<open>kt\<close> and \<open>vt\<close>.
\<close>

definition OBT_createRow :: "bts_t \<Rightarrow> coltype \<Rightarrow> coltype \<Rightarrow> byte list \<Rightarrow> nat \<Rightarrow> nat \<Rightarrow> c_ptr c_res" where
  "OBT_createRow s kt vt vals i j =
     (if 64 \<le> j - i then Inl OOB_write
      else c_bind (c_take (j - i) (drop i vals)) (\<lambda>t.
        let uubuf = t @ [0]; l = c_strtoul uubuf; obt = (\<lambda>kn v. Inr (Mem (le_bytes kn (0 :: uint128) @ v))) in
        if kt = COL_TYPE_INT \<and> vt = COL_TYPE_INT then Inr (Word l)
        else if vt = COL_TYPE_U128 then
          (case parseU128 uubuf of
             None \<Rightarrow> Inr NULL
           | Some x \<Rightarrow> obt (if XX s then 16 else if LX s then 8 else 4) (le_bytes 16 x))
        else if UL s then obt 4 (le_bytes 8 l)
        else if LU s then obt 8 (le_bytes 4 l)
        else if LL s then obt 8 (le_bytes 8 l)
        else if XU s then obt 16 (le_bytes 4 l)
        else obt 16 (le_bytes 8 l)))"

definition getRC_OBT :: "c_float \<Rightarrow> bts_t \<Rightarrow> c_ptr \<Rightarrow> int \<Rightarrow> aobj \<Rightarrow> bool \<Rightarrow> aobj c_res" where
  "getRC_OBT fl s orow cm apk fs =
     (if UU s then c_bind (if cm \<noteq> 0 then ptr_word orow else Inr (ucast (a_i apk))) (\<lambda>k. Inr (colFromUU fl k fs cm))
      else if UL s then c_bind (if cm \<noteq> 0 then fld 4 8 orow else Inr (ucast (a_i apk))) (\<lambda>k. Inr (colFromUL fl k fs cm))
      else if LU s then
        c_bind (if cm \<noteq> 0 then c_bind (fld 8 4 orow) (\<lambda>w. Inr (ucast (w :: uint32))) else Inr (a_l apk)) (\<lambda>k. Inr (colFromLU fl k fs cm))
      else if LL s then c_bind (if cm \<noteq> 0 then fld 8 8 orow else Inr (a_l apk)) (\<lambda>k. Inr (colFromLL fl k fs cm))
      else if XX s then c_bind (if cm \<noteq> 0 then fld 16 16 orow else Inr (a_x apk)) (\<lambda>k. Inr (colFromXX fl k fs cm))
      else if UX s then
        if cm \<noteq> 0 then c_bind (fld 4 16 orow) (\<lambda>k. Inr (colFromXX fl k fs cm)) else Inr (colFromUU fl (ucast (a_i apk)) fs cm)
      else if XU s then
        if cm \<noteq> 0 then c_bind (fld 16 4 orow) (\<lambda>k. Inr (colFromUU fl (ucast (k :: uint32)) fs cm)) else Inr (colFromXX fl (a_x apk) fs cm)
      else if LX s then
        if cm \<noteq> 0 then c_bind (fld 8 16 orow) (\<lambda>k. Inr (colFromXX fl k fs cm)) else Inr (colFromLL fl (a_l apk) fs cm)
      else if XL s then
        if cm \<noteq> 0 then c_bind (fld 16 8 orow) (\<lambda>k. Inr (colFromLL fl k fs cm)) else Inr (colFromXX fl (a_x apk) fs cm)
      else Inl Assert_fail)"

subsection \<open>The order of the entries\<close>

text \<open>
  One order for all comparators but \<^verbatim>\<open>uuCmp\<close> and \<^verbatim>\<open>btFloatCmp\<close>: numbers as one-element lists, texts as their bytes up
  to the first 0 byte, then their length.
\<close>

type_synonym key_rank = "nat list \<times> nat"

definition num_rank :: "'a::len word \<Rightarrow> key_rank" where "num_rank w = ([unat w], 0)"

definition text_rank :: "byte list \<Rightarrow> key_rank" where "text_rank t = (map unat (c_prefix t), length t)"

fun key_ord :: "bt_cmp_t \<Rightarrow> c_ptr \<Rightarrow> key_rank" where
  "key_ord UintCmp p = num_rank (word_of p)"
| "key_ord UlongCmp p = num_rank (word_of p)"
| "key_ord U128Cmp p = num_rank (key_at 16 p :: uint128)"
| "key_ord UuCmp p = num_rank (word_of p)"
| "key_ord UlCmp p = num_rank (key_at 4 p :: uint32)"
| "key_ord UxCmp p = num_rank (key_at 4 p :: uint32)"
| "key_ord LuCmp p = num_rank (key_at 8 p :: ulong)"
| "key_ord LlCmp p = num_rank (key_at 8 p :: ulong)"
| "key_ord LxCmp p = num_rank (key_at 8 p :: ulong)"
| "key_ord XuCmp p = num_rank (key_at 16 p :: uint128)"
| "key_ord XlCmp p = num_rank (key_at 16 p :: uint128)"
| "key_ord XxCmp p = num_rank (key_at 16 p :: uint128)"
| "key_ord BtIntCmp p = num_rank (key_or_0 (streamIntToUInt (mem_of p)))"
| "key_ord BtLongCmp p = num_rank (key_or_0 (streamLongToULong (mem_of p)))"
| "key_ord BtU128Cmp p = num_rank (key_or_0 (streamToU128 (mem_of p)))"
| "key_ord BtFloatCmp p = num_rank (key_or_0 (streamFloatToFloat (mem_of p)))"
| "key_ord BtTextCmp p = text_rank (text_of (mem_of p))"

lemma bt_order_map:
  assumes "bt_order cmp ord" and "\<And>x y. f x < f y \<longleftrightarrow> x < y"
  shows "bt_order (\<lambda>a b. cmp (g a) (g b)) (\<lambda>a. f (ord (g a)))"
proof
  have inj: "f x = f y \<longleftrightarrow> x = y" for x y using assms(2) by (metis linorder_less_linear less_irrefl)
  show "cmp (g a) (g b) < 0 \<longleftrightarrow> f (ord (g a)) < f (ord (g b))" for a b
    by (simp add: assms(2) bt_order.cmp_neg [OF assms(1)])
  show "cmp (g a) (g b) = 0 \<longleftrightarrow> f (ord (g a)) = f (ord (g b))" for a b
    by (simp add: inj bt_order.cmp_zero [OF assms(1)])
qed

lemma num_rank_less: "num_rank (v :: 'a::len word) < num_rank w \<longleftrightarrow> v < w"
  by (simp add: num_rank_def word_less_nat_alt)

lemma num_rank_eq: "num_rank (v :: 'a::len word) = num_rank w \<longleftrightarrow> v = w"
  by (simp add: num_rank_def word_unat_eq_iff)

lemma map_unat_less: "map unat s < map unat t \<longleftrightarrow> s < (t :: byte list)"
proof (induction s arbitrary: t)
  case Nil
  then show ?case by (cases t) simp_all
next
  case (Cons a s)
  then show ?case by (cases t) (auto simp: word_less_nat_alt word_unat_eq_iff)
qed

lemma map_unat_eq: "map unat s = map unat t \<longleftrightarrow> s = (t :: byte list)"
  using inj_map_eq_map [of "unat :: byte \<Rightarrow> nat"] by (auto simp: inj_def word_unat_eq_iff)

lemma text_rank_less: "(map unat p, n) < (map unat q, m) \<longleftrightarrow> (p :: byte list, n :: nat) < (q, m)"
  by (auto simp: le_less map_unat_less map_unat_eq)

lemma bt_cmp_order:
  assumes "c \<noteq> UuCmp" "c \<noteq> BtFloatCmp"
  shows "bt_order (bt_cmp fl c) (key_ord c)"
proof -
  note num = bt_order_map [OF _ num_rank_less]
  note w = num [OF ulong_order.bt_order_axioms, where g = word_of]
    num [OF u128_order.bt_order_axioms, where g = "key_at 16"]
    num [OF U_order.bt_order_axioms, where g = "entry_at 4"]
    num [OF L_order.bt_order_axioms, where g = "entry_at 8"]
    num [OF X_order.bt_order_axioms, where g = "entry_at 16"]
    num [OF int_stream_order.bt_order_axioms, where g = mem_of]
    num [OF long_stream_order.bt_order_axioms, where g = mem_of]
    num [OF u128_stream_order.bt_order_axioms, where g = mem_of]
  have t: "bt_order (\<lambda>a b. btTextCmp (mem_of a) (mem_of b)) (\<lambda>a. text_rank (text_of (mem_of a)))"
    unfolding text_rank_def
    by (rule bt_order_map [OF text_stream_order.bt_order_axioms, where g = mem_of and
        f = "\<lambda>(p, n). (map unat p, n)", unfolded split_conv])
      (simp only: split_paired_all split_conv text_rank_less)
  have eta: "bt_order (\<lambda>a b. bt_cmp fl c a b) (\<lambda>a. key_ord c a)"
    using assms w t by (cases c) (simp_all add: entry_at_def)
  then show ?thesis by simp
qed

subsection \<open>Entries of the kinds of trees\<close>

text \<open>The trees with packed entries: flag, key type, bytes of the key and of the value, comparator.\<close>

definition obt_kinds :: "(ushort16 \<times> coltype \<times> nat \<times> nat \<times> bt_cmp_t) list" where
  "obt_kinds =
     [(BTFLAG_UINT_ULONG, COL_TYPE_INT, 4, 8, UlCmp), (BTFLAG_ULONG_UINT, COL_TYPE_LONG, 8, 4, LuCmp),
      (BTFLAG_ULONG_ULONG, COL_TYPE_LONG, 8, 8, LlCmp), (BTFLAG_UINT_U128, COL_TYPE_INT, 4, 16, UxCmp),
      (BTFLAG_U128_UINT, COL_TYPE_U128, 16, 4, XuCmp), (BTFLAG_ULONG_U128, COL_TYPE_LONG, 8, 16, LxCmp),
      (BTFLAG_U128_ULONG, COL_TYPE_U128, 16, 8, XlCmp), (BTFLAG_U128_U128, COL_TYPE_U128, 16, 16, XxCmp)]"

text \<open>The trees whose packed entries hold the address of an index node.\<close>

definition ptr_kinds :: "(ushort16 \<times> coltype \<times> nat \<times> bt_cmp_t) list" where
  "ptr_kinds = [(BTFLAG_UINT_ULONG + BTFLAG_UINT_INDEX, COL_TYPE_INT, 4, UlCmp),
     (BTFLAG_ULONG_ULONG + BTFLAG_ULONG_INDEX, COL_TYPE_LONG, 8, LlCmp)]"

definition key_bytes :: "coltype \<Rightarrow> aobj \<Rightarrow> byte list" where
  "key_bytes kt akey = (case kt of COL_TYPE_INT \<Rightarrow> le_bytes 4 (a_i akey) | COL_TYPE_LONG \<Rightarrow> le_bytes 8 (a_l akey)
     | _ \<Rightarrow> le_bytes 16 (a_x akey))"

definition key_rank_of :: "coltype \<Rightarrow> aobj \<Rightarrow> key_rank" where
  "key_rank_of kt akey = (case kt of COL_TYPE_INT \<Rightarrow> num_rank (a_i akey) | COL_TYPE_LONG \<Rightarrow> num_rank (a_l akey)
     | COL_TYPE_U128 \<Rightarrow> num_rank (a_x akey)
     | _ \<Rightarrow> text_rank (take (a_len akey) (case a_s akey of Some str \<Rightarrow> str | None \<Rightarrow> [])))"

text \<open>The key as a value of its own: what \<^verbatim>\<open>convertStream2Key\<close> should return.\<close>

definition key_aobj :: "coltype \<Rightarrow> aobj \<Rightarrow> aobj" where
  "key_aobj kt akey = (case kt of
       COL_TYPE_INT \<Rightarrow> conv2key COL_TYPE_INT (\<lambda>a. a\<lparr>a_i := a_i akey\<rparr>)
     | COL_TYPE_LONG \<Rightarrow> conv2key COL_TYPE_LONG (\<lambda>a. a\<lparr>a_l := a_l akey\<rparr>)
     | COL_TYPE_U128 \<Rightarrow> conv2key COL_TYPE_U128 (\<lambda>a. a\<lparr>a_x := a_x akey\<rparr>)
     | COL_TYPE_FLOAT \<Rightarrow> conv2key COL_TYPE_FLOAT (\<lambda>a. a\<lparr>a_f := a_f akey\<rparr>)
     | _ \<Rightarrow> conv2key COL_TYPE_STRING (\<lambda>a. a\<lparr>a_s := map_option (take (a_len akey)) (a_s akey), a_len := a_len akey\<rparr>))"

lemmas flag_simps = bt_kind_defs btflag_defs

lemma le_bytes_zero: "le_bytes n (0 :: 'a::len word) = replicate n 0"
  by (induction n) simp_all

lemma le_word_id [simp]:
  "le_word (le_bytes 4 i) = (i :: uint32)" "le_word (le_bytes 8 l) = (l :: ulong)"
  "le_word (le_bytes 16 x) = (x :: uint128)"
  using unsigned_less [of i, where ?'a = nat] unsigned_less [of l, where ?'a = nat]
    unsigned_less [of x, where ?'a = nat]
  by (simp_all add: le_word_le_bytes_id)

lemma length_key_bytes:
  "(f, kt, kn, vn, c) \<in> set obt_kinds \<Longrightarrow> length (key_bytes kt akey) = kn"
  "(f, kt, kn, c) \<in> set ptr_kinds \<Longrightarrow> length (key_bytes kt akey) = kn"
  by (auto simp: obt_kinds_def ptr_kinds_def key_bytes_def)


lemma obt_kind_flags:
  assumes "(f, kt, kn, vn, c) \<in> set obt_kinds" "bflag s = f \<or> bflag s = f + BTFLAG_OBC"
  shows "UU s = False" "UL s = (f = BTFLAG_UINT_ULONG)" "LU s = (f = BTFLAG_ULONG_UINT)"
    "LL s = (f = BTFLAG_ULONG_ULONG)" "UX s = (f = BTFLAG_UINT_U128)" "XU s = (f = BTFLAG_U128_UINT)"
    "LX s = (f = BTFLAG_ULONG_U128)" "XL s = (f = BTFLAG_U128_ULONG)" "XX s = (f = BTFLAG_U128_U128)"
    "UP s = False" "LUP s = False" "LLP s = False" "XUP s = False" "XLP s = False" "XXP s = False"
    "OTHER_BT s = True" "NORM_BT s = False"
  using assms unfolding obt_kinds_def btflag_defs by (auto simp: bt_kind_defs btflag_defs)

lemma obt_kind_inode:
  assumes "(f, kt, kn, vn, c) \<in> set obt_kinds" "bflag s = f \<and> btype s \<noteq> BTREE_INODE \<or> bflag s = f + BTFLAG_OBC"
  shows "INODE_I s = False" "INODE_L s = False" "INODE_X s = False" "INODE s = False"
  using assms unfolding obt_kinds_def btflag_defs
  by (auto simp: INODE_I_def INODE_L_def INODE_X_def INODE_def has_flag_def btflag_defs)

lemma obt_kind_entry:
  assumes k: "(f, kt, kn, vn, c) \<in> set obt_kinds" and s: "ktype s = kt"
    "bflag s = f \<and> btype s \<noteq> BTREE_INODE \<or> bflag s = f + BTFLAG_OBC"
  shows "createBTKey akey s = Inr (Mem (key_bytes kt akey @ replicate vn 0), False, VOIDSIZE)"
    and "length v = kn + vn \<Longrightarrow> createStream s (Mem v) (Mem (key_bytes kt akey @ z)) ks = Inr (Mem (key_bytes kt akey @ drop kn v), 0)"
    and "parseStream (Mem e) s = Inr (Mem e)"
    and "convertStream2Key (Mem (key_bytes kt akey @ z)) s = Inr (key_aobj kt akey)"
    and "key_ord c (Mem (key_bytes kt akey @ z)) = key_rank_of kt akey"
    and "destroyStream s e' = Inr False"
proof -
  have b: "bflag s = f \<or> bflag s = f + BTFLAG_OBC" using s(2) by blast
  note fl = obt_kind_flags [OF k b] obt_kind_inode [OF k s(2)]
  show "createBTKey akey s = Inr (Mem (key_bytes kt akey @ replicate vn 0), False, VOIDSIZE)"
    using k unfolding createBTKey_def fl
    by (auto simp: obt_kinds_def btflag_defs key_bytes_def le_bytes_zero Let_def)
  show "createStream s (Mem v) (Mem (key_bytes kt akey @ z)) ks = Inr (Mem (key_bytes kt akey @ drop kn v), 0)"
    if "length v = kn + vn"
    using k that length_key_bytes(1) [OF k, of akey] unfolding createStream_def OBT_createStream_def fl xobt_cr8_strm_def
    by (auto simp: obt_kinds_def btflag_defs ptr_mem_def)
  show "parseStream (Mem e) s = Inr (Mem e)" by (simp add: parseStream_def fl)
  show "convertStream2Key (Mem (key_bytes kt akey @ z)) s = Inr (key_aobj kt akey)"
    using k length_key_bytes(1) [OF k, of akey] unfolding convertStream2Key_def fl fld_def
    by (auto simp: obt_kinds_def btflag_defs ptr_mem_def key_bytes_def key_aobj_def)
  show "key_ord c (Mem (key_bytes kt akey @ z)) = key_rank_of kt akey"
    using k by (auto simp: obt_kinds_def key_bytes_def key_rank_of_def key_at_def mem_of_def)
  show "destroyStream s e' = Inr False" by (simp add: destroyStream_def fl)
qed

lemma ptr_kind_entry:
  assumes k: "(f, kt, kn, c) \<in> set ptr_kinds" and s: "ktype s = kt" "bflag s = f" 
    "btype s \<in> {BTREE_INDEX, BTREE_MCI, BTREE_MCI_MID}"
  shows "createBTKey akey s = Inr (Mem (key_bytes kt akey @ replicate 8 0), False, VOIDSIZE)"
    and "createStream s (Word v) (Mem (key_bytes kt akey @ z)) ks = Inr (Mem (key_bytes kt akey @ le_bytes 8 v), 0)"
    and "parseStream (Mem (key_bytes kt akey @ le_bytes 8 v)) s = Inr (Word v)"
    and "convertStream2Key (Mem (key_bytes kt akey @ z)) s = Inr (key_aobj kt akey)"
    and "key_ord c (Mem (key_bytes kt akey @ z)) = key_rank_of kt akey"
    and "destroyStream s e' = Inr False"
proof -
  have fl: "UU s = False" "UL s = (kn = 4)" "LU s = False" "LL s = (kn = 8)" "UP s = (kn = 4)" "LUP s = False"
    "LLP s = (kn = 8)" "OTHER_BT s = True" "INODE_I s = False" "INODE_L s = False" "INODE_X s = False" "INODE s = False"
    "OBYI s = False" "MCI_UNIQ s = False"
    using k s unfolding ptr_kinds_def btflag_defs by (auto simp: bt_kind_defs btflag_defs)
  show "createBTKey akey s = Inr (Mem (key_bytes kt akey @ replicate 8 0), False, VOIDSIZE)"
    using k unfolding createBTKey_def fl by (auto simp: ptr_kinds_def key_bytes_def le_bytes_zero Let_def)
  show "createStream s (Word v) (Mem (key_bytes kt akey @ z)) ks = Inr (Mem (key_bytes kt akey @ le_bytes 8 v), 0)"
    using k length_key_bytes(2) [OF k, of akey] unfolding createStream_def OBT_createStream_def fl obt_cr8_strm_def
    by (auto simp: ptr_kinds_def ptr_mem_def ptr_word_def)
  show "parseStream (Mem (key_bytes kt akey @ le_bytes 8 v)) s = Inr (Word v)"
    using k length_key_bytes(2) [OF k, of akey] unfolding parseStream_def fl fld_def
    by (auto simp: ptr_kinds_def ptr_mem_def)
  show "convertStream2Key (Mem (key_bytes kt akey @ z)) s = Inr (key_aobj kt akey)"
    using k length_key_bytes(2) [OF k, of akey] unfolding convertStream2Key_def fl fld_def
    by (auto simp: ptr_kinds_def ptr_mem_def key_bytes_def key_aobj_def)
  show "key_ord c (Mem (key_bytes kt akey @ z)) = key_rank_of kt akey"
    using k by (auto simp: ptr_kinds_def key_bytes_def key_rank_of_def key_at_def mem_of_def)
  show "destroyStream s e' = Inr False" by (simp add: destroyStream_def fl)
qed

lemma int_btkey:
  "\<exists>kb. cr8BTKInt akey = Some (kb, length kb) \<and> (\<forall>r. streamIntToUInt (kb @ r) = Inr (a_i akey, length kb))"
proof -
  let ?l = "ucast (a_i akey) :: ulong"
  obtain n sf col where c: "cIcol ?l True = (n, sf, col)" by (metis surj_pair)
  have l: "unat ?l < 2 ^ 32" using unsigned_less [of "a_i akey", where ?'a = nat] by (simp add: unat_ucast_uint32)
  have "ucast ?l = a_i akey" by simp
  then have rt: "streamIntToUInt (wUCol sf col True @ r) = Inr (a_i akey, n)" "length (wUCol sf col True) = n" for r
    using stream_num_rt [of True ?l r] l c by (simp_all add: streamIntToUInt_def)
  have "col < TWO_POW_32"
    using c l unfolding cIcol_def
    by (auto simp: word_less_nat_alt two_pow_defs unat_word_ariths split: if_splits)
  with c rt show ?thesis
    by (auto simp: cr8BTKInt_def cr8Icol_def writeUIntCol_def)
qed

lemma long_btkey:
  "\<exists>kb. cr8BTKLong akey = (kb, length kb) \<and> (\<forall>r. streamLongToULong (kb @ r) = Inr (a_l akey, length kb))"
proof -
  obtain n sf col where c: "cIcol (a_l akey) False = (n, sf, col)" by (metis surj_pair)
  with stream_num_rt [of False "a_l akey"] show ?thesis
    by (auto simp: cr8BTKLong_def cr8Lcol_def writeULongCol_def streamLongToULong_def)
qed

lemma text_hdr_tiny:
  assumes "n < 128"
  shows "getSflag (of_nat (n * 2 + 1)) = 1" "unat ((of_nat (n * 2 + 1) :: byte) div 2) = n"
proof -
  have u: "unat (of_nat (n * 2 + 1) :: byte) = n * 2 + 1" unfolding unat_of_nat using assms by simp
  then show "unat ((of_nat (n * 2 + 1) :: byte) div 2) = n" by (simp only: unat_div u) simp
  have "(of_nat (n * 2 + 1) :: byte) AND 1 = 1"
    by (simp add: and_one_eq mod2_eq_if)
  then show "getSflag (of_nat (n * 2 + 1)) = 1" by (simp add: getSflag_def)
qed

lemma text_hdr_long:
  assumes "n < 2 ^ 31"
  shows "getSflag (hd (le_bytes 4 (of_nat (n * 2) :: uint32))) = 0"
    "unat ((of_nat (n * 2) :: uint32) div 2) = n"
proof -
  have u: "unat (of_nat (n * 2) :: uint32) = n * 2" unfolding unat_of_nat using assms by simp
  then show "unat ((of_nat (n * 2) :: uint32) div 2) = n" by (simp only: unat_div u) simp
  have "bit (of_nat (n * 2) :: uint32) 0 = False" by (simp add: bit_0)
  then have "bit (ucast (of_nat (n * 2) :: uint32) :: byte) 0 = False" by (simp add: bit_ucast_iff)
  then have "(ucast (of_nat (n * 2) :: uint32) :: byte) AND 1 = 0" by (simp add: and_one_eq bit_0 mod2_eq_if)
  then show "getSflag (hd (le_bytes 4 (of_nat (n * 2) :: uint32))) = 0"
    using hd_le_bytes [of 4 "of_nat (n * 2) :: uint32"] by (metis getSflag_def list.sel(1) zero_less_numeral)
qed

lemma text_btkey:
  assumes "a_s akey = Some str" "a_len akey \<le> length str" "a_len akey < 2 ^ 31"
  shows "\<exists>kb med. cr8BTKText akey = Inr (Mem kb, med, length kb) \<and>
     (\<forall>r. streamText (kb @ r) = Inr (take (a_len akey) str, a_len akey) \<and> skipToVal (kb @ r) COL_TYPE_STRING = Inr (length kb))"
proof (cases "a_len akey < 128")
  case True
  obtain h :: byte where h: "h = of_nat (a_len akey * 2 + 1)" by blast
  have "getSflag h = 1" "unat (h div 2) = a_len akey" using text_hdr_tiny [OF True] unfolding h by blast+
  moreover have "cr8BTKText akey = Inr (Mem (h # take (a_len akey) str), BTK_BSIZE \<le> a_len akey + 1, a_len akey + 1)"
    using True assms by (simp add: cr8BTKText_def h TWO_POW_7_def c_take_def Let_def)
  moreover have "length (h # take (a_len akey) str) = a_len akey + 1" using assms(2) by simp
  ultimately show ?thesis using assms(2)
    by (intro exI [of _ "h # take (a_len akey) str"]) (simp add: streamText_def skipToVal_def getTString_def Let_def)
next
  case False
  let ?h = "le_bytes 4 (of_nat (a_len akey * 2) :: uint32)"
  have hd: "c_read (?h @ x) 0 = Inr (hd ?h)" for x
  proof -
    obtain b bs where b: "?h = b # bs" using hd_le_bytes [of 4 "of_nat (a_len akey * 2) :: uint32"] by auto
    show ?thesis unfolding b by (simp add: c_read_def)
  qed
  have g: "getString (?h @ take (a_len akey) str @ r) = Inr (take (a_len akey) str, a_len akey)" for r
    using text_hdr_long(2) [OF assms(3)] assms(2) by (simp add: getString_def Let_def)
  have k: "cr8BTKText akey = Inr (Mem (?h @ take (a_len akey) str), BTK_BSIZE \<le> a_len akey + 4, a_len akey + 4)"
    using False assms by (simp add: cr8BTKText_def TWO_POW_7_def c_take_def Let_def)
  have "length (?h @ take (a_len akey) str) = a_len akey + 4" using assms(2) by simp
  then show ?thesis
    using k hd g text_hdr_long(1) [OF assms(3)] by (auto simp: streamText_def skipToVal_def simp del: le_bytes.simps)
qed

text \<open>
  The keys an operation accepts: of one of the four key types with an exact order, a text with its bytes present and
  shorter than \<open>2 ^ 31\<close>, and in the index nodes that keep the key in the pointer not the number 0.
\<close>

definition key_ok :: "bts_t \<Rightarrow> aobj \<Rightarrow> bool" where
  "key_ok s akey \<longleftrightarrow>
     (ktype s = COL_TYPE_STRING \<longrightarrow> (case a_s akey of Some str \<Rightarrow> a_len akey \<le> length str \<and> a_len akey < 2 ^ 31 | None \<Rightarrow> False)) \<and>
     (INODE_I s \<longrightarrow> a_i akey \<noteq> 0) \<and> (INODE_L s \<longrightarrow> a_l akey \<noteq> 0)"

lemma norm_key:
  assumes "bflag s = 0" "\<not> INODE s" "key_ok s akey" "ktype s \<in> {COL_TYPE_INT, COL_TYPE_LONG, COL_TYPE_U128, COL_TYPE_STRING}"
  shows "\<exists>kb med. createBTKey akey s = Inr (Mem kb, med, length kb) \<and>
     (\<forall>r. skipToVal (kb @ r) (ktype s) = Inr (length kb) \<and>
          convertStream2Key (Mem (kb @ r)) s = Inr (key_aobj (ktype s) akey) \<and>
          key_ord (ASSIGN_CMP (ktype s)) (Mem (kb @ r)) = key_rank_of (ktype s) akey)"
proof -
  have fl: "INODE_I s = False" "INODE_L s = False" "INODE_X s = False" "UU s = False" "UL s = False" "LU s = False"
    "LL s = False" "UX s = False" "XU s = False" "LX s = False" "XL s = False" "XX s = False"
    using assms(1,2) by (auto simp: bt_kind_defs)
  note defs = createBTKey_def convertStream2Key_def fl ptr_mem_def skipToVal_def ASSIGN_CMP_def mem_of_def
    key_rank_of_def key_aobj_def key_or_0_def Let_def
  consider (i) "ktype s = COL_TYPE_INT" | (l) "ktype s = COL_TYPE_LONG" | (x) "ktype s = COL_TYPE_U128" | (t) "ktype s = COL_TYPE_STRING"
    using assms(4) by auto
  then show ?thesis
  proof cases
    case i
    obtain kb where "cr8BTKInt akey = Some (kb, length kb)" "\<And>r. streamIntToUInt (kb @ r) = Inr (a_i akey, length kb)"
      using int_btkey by blast
    then show ?thesis by (intro exI [of _ kb] exI [of _ False]) (simp add: defs i)
  next
    case l
    obtain kb where "cr8BTKLong akey = (kb, length kb)" "\<And>r. streamLongToULong (kb @ r) = Inr (a_l akey, length kb)"
      using long_btkey by blast
    then show ?thesis by (intro exI [of _ kb] exI [of _ False]) (simp add: defs l)
  next
    case x
    have "length (writeU128Col (a_x akey)) = 16" by (simp add: writeU128Col_def)
    then show ?thesis using u128_col_roundtrip [of "a_x akey"]
      by (intro exI [of _ "writeU128Col (a_x akey)"] exI [of _ False]) (simp add: defs x cr8BTKU128_def cr8Xcol_def)
  next
    case t
    then obtain str where str: "a_s akey = Some str" "a_len akey \<le> length str" "a_len akey < 2 ^ 31"
      using assms(3) by (auto simp: key_ok_def split: option.splits)
    obtain kb med where "cr8BTKText akey = Inr (Mem kb, med, length kb)"
      "\<And>r. streamText (kb @ r) = Inr (take (a_len akey) str, a_len akey)"
      "\<And>r. skipToVal (kb @ r) COL_TYPE_STRING = Inr (length kb)"
      using text_btkey [OF str] by blast
    then show ?thesis using str(1)
      by (intro exI [of _ kb] exI [of _ med])
        (simp add: createBTKey_def convertStream2Key_def fl ptr_mem_def ASSIGN_CMP_def mem_of_def key_rank_of_def
          key_aobj_def text_of_def Let_def t)
  qed
qed

definition inode_cmp :: "coltype \<Rightarrow> bt_cmp_t" where
  "inode_cmp kt = (case kt of COL_TYPE_INT \<Rightarrow> UintCmp | COL_TYPE_LONG \<Rightarrow> UlongCmp | _ \<Rightarrow> U128Cmp)"

lemma inode_key:
  assumes "bflag s = 0" "INODE s" "key_ok s akey"
  shows "\<exists>btkey. createBTKey akey s = Inr (btkey, False, VOIDSIZE) \<and> btkey \<noteq> NULL \<and>
     createStream s val btkey ks = Inr (btkey, 0) \<and> parseStream btkey s = Inr NULL \<and>
     convertStream2Key btkey s = Inr (key_aobj (ktype s) akey) \<and>
     key_ord (inode_cmp (ktype s)) btkey = key_rank_of (ktype s) akey \<and> destroyStream s btkey = Inr False"
proof -
  consider (i) "INODE_I s" "ktype s = COL_TYPE_INT" | (l) "INODE_L s" "ktype s = COL_TYPE_LONG" "\<not> INODE_I s"
    | (x) "INODE_X s" "ktype s = COL_TYPE_U128" "\<not> INODE_I s" "\<not> INODE_L s"
    using assms(2) by (auto simp: INODE_def INODE_I_def INODE_L_def INODE_X_def)
  then show ?thesis
  proof cases
    case i
    have "ucast (a_i akey) = (0 :: ulong) \<longleftrightarrow> a_i akey = 0"
      by (simp add: word_unat_eq_iff unat_ucast_uint32 flip: unat_eq_zero)
    then show ?thesis using assms i
      by (simp add: createBTKey_def createStream_def parseStream_def convertStream2Key_def destroyStream_def Let_def
          ptr_word_def key_aobj_def key_rank_of_def inode_cmp_def word_of_def num_rank_def unat_ucast_uint32 key_ok_def)
  next
    case l
    then show ?thesis using assms
      by (simp add: createBTKey_def createStream_def parseStream_def convertStream2Key_def destroyStream_def Let_def
          ptr_word_def key_aobj_def key_rank_of_def inode_cmp_def word_of_def key_ok_def)
  next
    case x
    then show ?thesis using assms
      by (simp add: createBTKey_def createStream_def parseStream_def convertStream2Key_def destroyStream_def Let_def
          ptr_mem_def fld_def key_aobj_def key_rank_of_def inode_cmp_def mem_of_def key_at_def)
  qed
qed

text \<open>
  The specifications the constructors make, with their comparators, but for UU trees, U128 indexes and float keys.
\<close>

definition spec_ok :: "bts_t \<Rightarrow> bt_cmp_t \<Rightarrow> bool" where
  "spec_ok s c \<longleftrightarrow>
     list_ex (\<lambda>(f, kt, kn, vn, c'). ktype s = kt \<and> c = c' \<and>
       (bflag s = f \<and> btype s \<noteq> BTREE_INODE \<or> bflag s = f + BTFLAG_OBC)) obt_kinds \<or>
     list_ex (\<lambda>(f, kt, kn, c'). ktype s = kt \<and> c = c' \<and> bflag s = f \<and>
       btype s \<in> {BTREE_INDEX, BTREE_MCI, BTREE_MCI_MID}) ptr_kinds \<or>
     bflag s = BTFLAG_NONE \<and>
       (if INODE s then c = inode_cmp (ktype s)
        else c = ASSIGN_CMP (ktype s) \<and> ktype s \<in> {COL_TYPE_INT, COL_TYPE_LONG, COL_TYPE_U128, COL_TYPE_STRING})"

definition val_size :: "bts_t \<Rightarrow> nat" where
  "val_size s = (if UKEY s then 4 else if LKEY s then 8 else 16)"

definition is_word :: "c_ptr \<Rightarrow> bool" where "is_word p = (case p of Word _ \<Rightarrow> True | Mem _ \<Rightarrow> False)"

text \<open>
  The values an operation accepts: a complete row for a table, the address of a node for an index, a struct with the
  value for a tree with packed entries; an index node takes any.
\<close>

definition val_ok :: "bts_t \<Rightarrow> c_ptr \<Rightarrow> bool" where
  "val_ok s val =
     (if NORM_BT s then
        if btype s = BTREE_TABLE then (case val of
            Mem row \<Rightarrow> (case getRowMallocSize (Some (Normal_row row)) of Inr n \<Rightarrow> unat n = length row | Inl _ \<Rightarrow> False)
          | Word _ \<Rightarrow> False)
        else btype s = BTREE_INODE \<or> is_word val
      else if UP s \<or> LLP s then is_word val
      else (case val of Mem v \<Rightarrow> length v = length (key_bytes (ktype s) initAobj) + val_size s | Word _ \<Rightarrow> False))"

text \<open>What \<^verbatim>\<open>btFind\<close> returns for it.\<close>

definition found_val :: "bts_t \<Rightarrow> aobj \<Rightarrow> c_ptr \<Rightarrow> c_ptr" where
  "found_val s akey val =
     (if NORM_BT s then if btype s = BTREE_INODE then NULL else val
      else if UP s \<or> LLP s then val
      else case val of Mem v \<Rightarrow> Mem (key_bytes (ktype s) akey @ drop (length (key_bytes (ktype s) akey)) v) | Word w \<Rightarrow> Word w)"

definition entry_ok :: "bts_t \<Rightarrow> c_ptr \<Rightarrow> bool" where
  "entry_ok s e \<longleftrightarrow> \<not> isl (parseStream e s) \<and> \<not> isl (destroyStream s e) \<and> e \<noteq> NULL \<and>
     (NORM_BT s \<and> \<not> INODE s \<longrightarrow> \<not> isl (getStreamMallocSize s e))"

definition has_entry :: "bts_t \<Rightarrow> bt_cmp_t \<Rightarrow> aobj \<Rightarrow> c_ptr \<Rightarrow> bool" where
  "has_entry s c akey val \<longleftrightarrow> (\<exists>btkey med ks st n. createBTKey akey s = Inr (btkey, med, ks) \<and> btkey \<noteq> NULL \<and>
     createStream s val btkey ks = Inr (st, n) \<and> key_ord c btkey = key_rank_of (ktype s) akey \<and>
     key_ord c st = key_rank_of (ktype s) akey \<and> parseStream st s = Inr (found_val s akey val) \<and>
     convertStream2Key st s = Inr (key_aobj (ktype s) akey) \<and> entry_ok s st \<and>
     (NORM_BT s \<and> btype s = BTREE_TABLE \<longrightarrow> getStreamMallocSize s st = Inr (row_malloc_size n)))"

lemma obt_has_entry:
  assumes "(f, kt, kn, vn, c) \<in> set obt_kinds" "ktype s = kt"
    "bflag s = f \<and> btype s \<noteq> BTREE_INODE \<or> bflag s = f + BTFLAG_OBC" "val_ok s val"
  shows "has_entry s c akey val"
proof -
  have b: "bflag s = f \<or> bflag s = f + BTFLAG_OBC" using assms(3) by blast
  note fl = obt_kind_flags [OF assms(1) b] obt_kind_inode [OF assms(1,3)]
  note len = length_key_bytes(1) [OF assms(1)]
  have vs: "val_size s = vn"
    using assms(1) unfolding val_size_def UKEY_def LKEY_def fl by (auto simp: obt_kinds_def btflag_defs)
  obtain v where v: "val = Mem v" "length v = kn + vn"
    using assms(2,4) len vs by (auto simp: val_ok_def fl split: c_ptr.splits)
  note e = obt_kind_entry [OF assms(1-3)]
  show ?thesis
    unfolding has_entry_def
    by (intro exI [of _ "Mem (key_bytes kt akey @ replicate vn 0)"] exI [of _ False] exI [of _ VOIDSIZE]
        exI [of _ "Mem (key_bytes kt akey @ drop kn v)"] exI [of _ 0])
      (simp add: e v fl assms(2) found_val_def len entry_ok_def)
qed

lemma ptr_has_entry:
  assumes "(f, kt, kn, c) \<in> set ptr_kinds" "ktype s = kt" "bflag s = f"
    "btype s \<in> {BTREE_INDEX, BTREE_MCI, BTREE_MCI_MID}" "val_ok s val"
  shows "has_entry s c akey val"
proof -
  have fl: "NORM_BT s = False" "UP s \<or> LLP s"
    using assms(1,3) unfolding ptr_kinds_def btflag_defs by (auto simp: bt_kind_defs btflag_defs)
  obtain v where v: "val = Word v" using assms(5) fl by (auto simp: val_ok_def is_word_def split: c_ptr.splits)
  note e = ptr_kind_entry [OF assms(1-4)]
  show ?thesis
    unfolding has_entry_def
    by (intro exI [of _ "Mem (key_bytes kt akey @ replicate 8 0)"] exI [of _ False] exI [of _ VOIDSIZE]
        exI [of _ "Mem (key_bytes kt akey @ le_bytes 8 v)"] exI [of _ 0])
      (simp add: e v fl assms(2) found_val_def entry_ok_def)
qed

lemma norm_has_entry:
  assumes "bflag s = BTFLAG_NONE" "\<not> INODE s" "ktype s \<in> {COL_TYPE_INT, COL_TYPE_LONG, COL_TYPE_U128, COL_TYPE_STRING}"
    "key_ok s akey" "val_ok s val"
  shows "has_entry s (ASSIGN_CMP (ktype s)) akey val"
proof -
  have b0: "bflag s = 0" using assms(1) by (simp add: BTFLAG_NONE_def)
  have fl: "UU s = False" "UP s = False" "LUP s = False" "LLP s = False" "XUP s = False" "XLP s = False" "XXP s = False"
    "OTHER_BT s = False" "NORM_BT s = True" "INODE s = False"
    using b0 assms(2) by (simp_all add: flag_simps)
  obtain kb med where kb: "createBTKey akey s = Inr (Mem kb, med, length kb)"
    "\<And>r. skipToVal (kb @ r) (ktype s) = Inr (length kb)"
    "\<And>r. convertStream2Key (Mem (kb @ r)) s = Inr (key_aobj (ktype s) akey)"
    "\<And>r. key_ord (ASSIGN_CMP (ktype s)) (Mem (kb @ r)) = key_rank_of (ktype s) akey"
    using norm_key [OF b0 assms(2,4,3)] by blast
  have kb0: "key_ord (ASSIGN_CMP (ktype s)) (Mem kb) = key_rank_of (ktype s) akey" using kb(4) [of "[]"] by simp
  have *: "has_entry s (ASSIGN_CMP (ktype s)) akey val"
    if "createStream s val (Mem kb) (length kb) = Inr (Mem (kb @ v), n)"
      "parseStream (Mem (kb @ v)) s = Inr (found_val s akey val)" "getStreamMallocSize s (Mem (kb @ v)) = Inr m"
      "btype s = BTREE_TABLE \<longrightarrow> m = row_malloc_size n" for v n m
    using that kb kb0 unfolding has_entry_def entry_ok_def destroyStream_def fl
    by (intro exI [of _ "Mem kb"] exI [of _ med] exI [of _ "length kb"] exI [of _ "Mem (kb @ v)"] exI [of _ n]) simp
  consider (tab) row m where "btype s = BTREE_TABLE" "val = Mem row"
      "getRowMallocSize (Some (Normal_row row)) = Inr m" "unat m = length row"
    | (inode) "btype s = BTREE_INODE" | (ind) w where "btype s \<noteq> BTREE_TABLE" "btype s \<noteq> BTREE_INODE" "val = Word w"
    using assms(5) by (auto simp: val_ok_def fl is_word_def split: if_splits c_ptr.splits sum.splits)
  then show ?thesis
  proof cases
    case tab
    show ?thesis
      by (rule * [where v = row and n = "length kb + length row"])
        (simp_all add: tab createStream_def parseStream_def getStreamMallocSize_def getStreamVlen_def fl ptr_mem_def
          row_ptr_def kb(2) found_val_def)
  next
    case inode
    show ?thesis
      by (rule * [where v = "[]" and n = "length kb"])
        (simp_all add: inode createStream_def parseStream_def getStreamMallocSize_def getStreamVlen_def fl ptr_mem_def
          kb(2) [of "[]", simplified] found_val_def)
  next
    case ind
    show ?thesis
      by (rule * [where v = "le_bytes 8 w" and n = "length kb + 8"])
        (simp_all add: ind createStream_def parseStream_def getStreamMallocSize_def getStreamVlen_def fl ptr_mem_def
          ptr_word_def kb(2) found_val_def fld_def)
  qed
qed

lemma inode_has_entry:
  assumes "bflag s = BTFLAG_NONE" "INODE s" "key_ok s akey" "val_ok s val"
  shows "has_entry s (inode_cmp (ktype s)) akey val"
proof -
  have b0: "bflag s = 0" using assms(1) by (simp add: BTFLAG_NONE_def)
  have ty: "btype s = BTREE_INODE" using assms(2) by (auto simp: INODE_def INODE_I_def INODE_L_def INODE_X_def)
  have n: "NORM_BT s" using assms(1) by (simp add: NORM_BT_def)
  show ?thesis
    using inode_key [OF b0 assms(2,3), of val VOIDSIZE] assms(2) ty n
    unfolding has_entry_def entry_ok_def found_val_def by fastforce
qed

lemma spec_has_entry:
  assumes "spec_ok s c" "key_ok s akey" "val_ok s val"
  shows "has_entry s c akey val"
proof -
  consider (obt) f kt kn vn where "(f, kt, kn, vn, c) \<in> set obt_kinds" "ktype s = kt"
      "bflag s = f \<and> btype s \<noteq> BTREE_INODE \<or> bflag s = f + BTFLAG_OBC"
    | (ptr) f kt kn where "(f, kt, kn, c) \<in> set ptr_kinds" "ktype s = kt" "bflag s = f"
      "btype s \<in> {BTREE_INDEX, BTREE_MCI, BTREE_MCI_MID}"
    | (inode) "bflag s = BTFLAG_NONE" "INODE s" "c = inode_cmp (ktype s)"
    | (norm) "bflag s = BTFLAG_NONE" "\<not> INODE s" "c = ASSIGN_CMP (ktype s)"
      "ktype s \<in> {COL_TYPE_INT, COL_TYPE_LONG, COL_TYPE_U128, COL_TYPE_STRING}"
    using assms(1) unfolding spec_ok_def list_ex_iff by (fastforce split: if_splits)
  then show ?thesis
  proof cases
    case obt then show ?thesis using obt_has_entry assms(3) by blast
  next
    case ptr then show ?thesis using ptr_has_entry assms(3) by blast
  next
    case inode then show ?thesis using inode_has_entry assms(2,3) by blast
  next
    case norm then show ?thesis using norm_has_entry assms(2,3) by blast
  qed
qed

lemma spec_cmp_order:
  assumes "spec_ok s c"
  shows "bt_order (bt_cmp fl c) (key_ord c)"
proof (rule bt_cmp_order)
  have "c \<noteq> UuCmp \<and> c \<noteq> BtFloatCmp"
    using assms unfolding spec_ok_def obt_kinds_def ptr_kinds_def inode_cmp_def ASSIGN_CMP_def
    by (auto split: if_splits coltype.splits)
  then show "c \<noteq> UuCmp" "c \<noteq> BtFloatCmp" by blast+
qed

lemma spec_has_key:
  assumes "spec_ok s c" "key_ok s akey"
  shows "\<exists>btkey med ks. createBTKey akey s = Inr (btkey, med, ks) \<and> btkey \<noteq> NULL \<and>
     key_ord c btkey = key_rank_of (ktype s) akey"
proof -
  consider (obt) f kt kn vn where "(f, kt, kn, vn, c) \<in> set obt_kinds" "ktype s = kt"
      "bflag s = f \<and> btype s \<noteq> BTREE_INODE \<or> bflag s = f + BTFLAG_OBC"
    | (ptr) f kt kn where "(f, kt, kn, c) \<in> set ptr_kinds" "ktype s = kt" "bflag s = f"
      "btype s \<in> {BTREE_INDEX, BTREE_MCI, BTREE_MCI_MID}"
    | (inode) "bflag s = 0" "INODE s" "c = inode_cmp (ktype s)"
    | (norm) "bflag s = 0" "\<not> INODE s" "c = ASSIGN_CMP (ktype s)"
      "ktype s \<in> {COL_TYPE_INT, COL_TYPE_LONG, COL_TYPE_U128, COL_TYPE_STRING}"
    using assms(1) unfolding spec_ok_def list_ex_iff BTFLAG_NONE_def by (fastforce split: if_splits)
  then show ?thesis
  proof cases
    case obt
    then show ?thesis using obt_kind_entry(1,5) [OF obt] by auto
  next
    case ptr
    then show ?thesis using ptr_kind_entry(1,5) [OF ptr] by auto
  next
    case inode
    then show ?thesis using inode_key [OF inode(1,2) assms(2)] by blast
  next
    case norm
    obtain kb med where kb: "createBTKey akey s = Inr (Mem kb, med, length kb)"
      "\<And>r. key_ord (ASSIGN_CMP (ktype s)) (Mem (kb @ r)) = key_rank_of (ktype s) akey"
      using norm_key [OF norm(1,2) assms(2) norm(4)] by blast
    then show ?thesis using kb(2) [of "[]"] norm(3) by auto
  qed
qed

subsection \<open>A tree is a map from keys to values\<close>

definition abt_wf :: "abt \<Rightarrow> bool" where
  "abt_wf btr \<longleftrightarrow> spec_ok (abt_s btr) (abt_cmp btr) \<and> bt_wf (key_ord (abt_cmp btr)) (abt_tree btr) \<and>
     list_all (entry_ok (abt_s btr)) (inorder (bt_root (abt_tree btr)))"

abbreviation abt_rank :: "abt \<Rightarrow> aobj \<Rightarrow> key_rank" where
  "abt_rank btr akey \<equiv> key_rank_of (ktype (abt_s btr)) akey"

definition abt_entry :: "abt \<Rightarrow> key_rank \<Rightarrow> c_ptr option" where
  "abt_entry btr r = List.find (\<lambda>e. key_ord (abt_cmp btr) e = r) (inorder (bt_root (abt_tree btr)))"

lemma abt_wf_order:
  assumes "abt_wf btr"
  shows "bt_order (abt_cmpf fl btr) (key_ord (abt_cmp btr))" and "bt_wf (key_ord (abt_cmp btr)) (abt_tree btr)"
  using assms spec_cmp_order by (auto simp: abt_wf_def abt_cmpf_def)

lemma abt_key:
  assumes "abt_wf btr" "key_ok (abt_s btr) akey"
  obtains btkey med ks where "createBTKey akey (abt_s btr) = Inr (btkey, med, ks)" "btkey \<noteq> NULL"
    "key_ord (abt_cmp btr) btkey = abt_rank btr akey"
  using spec_has_key [of "abt_s btr" "abt_cmp btr" akey] assms by (auto simp: abt_wf_def)

lemma abt_find_entry:
  assumes "abt_wf btr" "key_ok (abt_s btr) akey"
  shows "abt_find fl btr akey = (case abt_entry btr (abt_rank btr akey) of
     None \<Rightarrow> Inr NULL | Some e \<Rightarrow> parseStream e (abt_s btr))"
proof -
  obtain btkey med ks where k: "createBTKey akey (abt_s btr) = Inr (btkey, med, ks)" "btkey \<noteq> NULL"
    "key_ord (abt_cmp btr) btkey = abt_rank btr akey" using abt_key [OF assms] by blast
  have "parseStream NULL (abt_s btr) = Inr NULL" by (simp add: parseStream_def)
  then show ?thesis
    by (simp add: abt_find_def DECLARE_BT_KEY_def k bt_order.bt_find_ok [OF abt_wf_order [OF assms(1)]] abt_entry_def split: option.split)
qed

lemma abt_exist_entry:
  assumes "abt_wf btr" "key_ok (abt_s btr) akey"
  shows "abt_exist fl btr akey = Inr (abt_entry btr (abt_rank btr akey) \<noteq> None)"
proof -
  obtain btkey med ks where k: "createBTKey akey (abt_s btr) = Inr (btkey, med, ks)" "btkey \<noteq> NULL"
    "key_ord (abt_cmp btr) btkey = abt_rank btr akey" using abt_key [OF assms] by blast
  then show ?thesis
    by (simp add: abt_exist_def DECLARE_BT_KEY_def bt_order.bt_exist_ok [OF abt_wf_order [OF assms(1)]] abt_entry_def find_None_iff Bex_def del: not_None_eq)
qed

lemma find_ins_by:
  assumes "\<forall>x \<in> set xs. ord x \<noteq> ord st"
  shows "List.find (\<lambda>e. ord e = r) (ins_by ord st xs) = (if r = ord st then Some st else List.find (\<lambda>e. ord e = r) xs)"
proof (cases "r = ord st")
  case True
  have "List.find (\<lambda>e. ord e = ord st) (takeWhile (\<lambda>e. ord e < ord st) xs) = None"
    by (auto simp: find_None_iff dest: set_takeWhileD)
  then show ?thesis by (simp add: True ins_by_def find_append)
next
  case False
  then have "List.find (\<lambda>e. ord e = r) (ins_by ord st xs) =
     List.find (\<lambda>e. ord e = r) (takeWhile (\<lambda>e. ord e < ord st) xs @ dropWhile (\<lambda>e. ord e < ord st) xs)"
    unfolding ins_by_def find_append by (simp split: option.split)
  with False show ?thesis by simp
qed

lemma abt_insert_entry:
  assumes wf: "abt_wf btr" and ok: "key_ok (abt_s btr) akey" "val_ok (abt_s btr) val"
    and new: "abt_entry btr (abt_rank btr akey) = None" "bt_numkeys (abt_tree btr) \<noteq> - 1"
  shows "\<exists>btr' n st. abt_insert fl btr akey val = Inr (btr', n) \<and> abt_wf btr' \<and> abt_s btr' = abt_s btr \<and>
     parseStream st (abt_s btr) = Inr (found_val (abt_s btr) akey val) \<and>
     (\<forall>r. abt_entry btr' r = (if r = abt_rank btr akey then Some st else abt_entry btr r))"
proof -
  let ?c = "abt_cmp btr" and ?t = "abt_tree btr"
  note o = abt_wf_order(1) [OF wf, of fl] abt_wf_order(2) [OF wf]
  obtain btkey med ks st n where e: "createBTKey akey (abt_s btr) = Inr (btkey, med, ks)" "btkey \<noteq> NULL"
    "createStream (abt_s btr) val btkey ks = Inr (st, n)" "key_ord ?c st = abt_rank btr akey"
    "parseStream st (abt_s btr) = Inr (found_val (abt_s btr) akey val)" "entry_ok (abt_s btr) st"
    using spec_has_entry [of "abt_s btr" ?c akey val] wf ok unfolding abt_wf_def has_entry_def by blast
  have ab: "\<forall>x \<in> set (inorder (bt_root ?t)). key_ord ?c x \<noteq> key_ord ?c st"
    using new(1) e(4) by (simp add: abt_entry_def find_None_iff)
  obtain t' where t': "bt_insert (abt_cmpf fl btr) ?t st = Inr t'" "bt_wf (key_ord ?c) t'"
    "inorder (bt_root t') = ins_by (key_ord ?c) st (inorder (bt_root ?t))"
    using bt_order.bt_insert_wf [OF o ab numkeys_room [OF o(2) new(2)]] by blast
  let ?b = "btr\<lparr>abt_tree := t'\<rparr>"
  have "abt_insert fl btr akey val = Inr (?b, n)"
    using e t'(1) by (simp add: abt_insert_def DECLARE_BT_KEY_def)
  moreover have "abt_wf ?b" using wf t'(2,3) e(6) by (simp add: abt_wf_def list_all_iff)
  moreover have "abt_entry ?b r = (if r = abt_rank btr akey then Some st else abt_entry btr r)" for r
    using find_ins_by [OF ab, of r] e(4) by (simp add: abt_entry_def t'(3))
  moreover have "abt_s ?b = abt_s btr" by simp
  ultimately show ?thesis using e(5) by blast
qed

lemma abt_del_entry:
  assumes wf: "abt_wf btr" and ok: "key_ok (abt_s btr) akey" and ex: "abt_entry btr (abt_rank btr akey) = Some e"
  shows "\<exists>btr' b. abt_del fl btr akey = Inr (btr', b) \<and> abt_wf btr' \<and> abt_s btr' = abt_s btr \<and>
     (\<forall>r. abt_entry btr' r = (if r = abt_rank btr akey then None else abt_entry btr r))"
proof -
  let ?c = "abt_cmp btr" and ?t = "abt_tree btr"
  note o = abt_wf_order(1) [OF wf, of fl] abt_wf_order(2) [OF wf]
  obtain btkey med ks where k: "createBTKey akey (abt_s btr) = Inr (btkey, med, ks)" "btkey \<noteq> NULL"
    "key_ord ?c btkey = abt_rank btr akey" using abt_key [OF wf ok] by blast
  have e: "e \<in> set (inorder (bt_root ?t))" "key_ord ?c e = abt_rank btr akey"
    using ex by (auto simp: abt_entry_def find_Some_iff)
  then obtain us vs where uv: "inorder (bt_root ?t) = us @ e # vs" by (meson split_list)
  obtain t' where t': "bt_delete (abt_cmpf fl btr) ?t btkey = Inr (t', e)" "bt_wf (key_ord ?c) t'" "inorder (bt_root t') = us @ vs"
    using bt_order.bt_delete_ok [OF o uv, of btkey] e(2) k(3) by auto
  have eo: "entry_ok (abt_s btr) e" using wf e(1) by (auto simp: abt_wf_def list_all_iff)
  then obtain b where b: "destroyStream (abt_s btr) e = Inr b" by (cases "destroyStream (abt_s btr) e") (auto simp: entry_ok_def)
  let ?b = "btr\<lparr>abt_tree := t'\<rparr>"
  have "abt_del fl btr akey = Inr (?b, b)" by (simp add: abt_del_def DECLARE_BT_KEY_def k t'(1) b)
  moreover have "abt_wf ?b" using wf t'(2,3) uv by (simp add: abt_wf_def list_all_iff)
  moreover have "abt_entry ?b r = (if r = abt_rank btr akey then None else abt_entry btr r)" for r
  proof -
    have "\<forall>x \<in> set us \<union> set vs. key_ord ?c x \<noteq> key_ord ?c e"
      using o(2) by (auto simp: bt_wf_def uv)
    then have "List.find (\<lambda>x. key_ord ?c x = key_ord ?c e) (us @ vs) = None" by (auto simp: find_None_iff)
    then show ?thesis using e(2)
      by (cases "r = abt_rank btr akey") (simp_all add: abt_entry_def t'(3) uv find_append split: option.split)
  qed
  moreover have "abt_s ?b = abt_s btr" by simp
  ultimately show ?thesis by blast
qed

subsection \<open>Replacement through the address of a slot\<close>

lemma kid_update_self: "kid x i = Inr y \<Longrightarrow> BTN (scion x) (leaf x) (bkeys x) ((bkids x)[i := y]) = x"
  by (cases x) (auto simp: kid_def c_read_def split: if_splits)

lemma findnodekeyreplace_slot:
  "findnodekeyreplace cmp nbits x k v = c_bind (bt_find_loc_node cmp nbits x k) (\<lambda>loc.
     case loc of None \<Rightarrow> Inr (x, None)
     | Some (p, j) \<Rightarrow> c_bind (slot_read p j x) (\<lambda>e. c_bind (slot_write p j v x) (\<lambda>x'. Inr (x', Some e))))"
proof (induction cmp nbits x k v rule: findnodekeyreplace.induct)
  case (1 cmp nbits x k v)
  obtain i r where ir: "findkindex cmp nbits (bkeys x) k = (i, r)" by fastforce
  show ?case
  proof (cases "(0 \<le> i \<and> r = Some 0) \<or> leaf x")
    case True
    then show ?thesis
      by (subst findnodekeyreplace.simps, subst bt_find_loc_node.simps) (auto simp: ir c_read_def c_write_def)
  next
    case False
    show ?thesis
    proof (cases "kid x (nat (i + 1))")
      case (Inl e)
      then show ?thesis using False
        by (subst findnodekeyreplace.simps, subst bt_find_loc_node.simps) (auto simp: ir)
    next
      case (Inr y)
      have a: "findnodekeyreplace cmp nbits x k v = c_bind (findnodekeyreplace cmp nbits y k v) (\<lambda>(y', b).
             Inr (BTN (scion x) (leaf x) (bkeys x) ((bkids x)[nat (i + 1) := y']), b))"
        using False Inr by (subst findnodekeyreplace.simps) (auto simp: ir)
      have b: "bt_find_loc_node cmp nbits x k = c_bind (bt_find_loc_node cmp nbits y k) (\<lambda>loc.
          Inr (map_option (\<lambda>(p, s). (nat (i + 1) # p, s)) loc))"
        using False Inr by (subst bt_find_loc_node.simps) (auto simp: ir)
      have ih: "findnodekeyreplace cmp nbits y k v = c_bind (bt_find_loc_node cmp nbits y k) (\<lambda>loc.
         case loc of None \<Rightarrow> Inr (y, None)
         | Some (p, j) \<Rightarrow> c_bind (slot_read p j y) (\<lambda>e. c_bind (slot_write p j v y) (\<lambda>x'. Inr (x', Some e))))"
        using "1" [of "(i, r)" i r y] False ir Inr by auto
      show ?thesis unfolding a b ih
        by (auto simp: Inr kid_update_self intro!: c_bind_cong split: option.splits)
    qed
  qed
qed

lemma sorted_upd_find:
  "List.find (\<lambda>e. ord e = r) (upd_by ord k v xs) =
     (if r = ord k \<and> (\<exists>x \<in> set xs. ord x = ord k) then Some v else List.find (\<lambda>e. ord e = r) xs)" if "ord v = ord k"
  using that by (induction xs) (auto simp: upd_by_def)

lemma abt_replace_entry:
  assumes wf: "abt_wf btr" and ok: "key_ok (abt_s btr) akey" "val_ok (abt_s btr) val"
    and ex: "abt_entry btr (abt_rank btr akey) = Some e" and ty: "NORM_BT (abt_s btr) \<longrightarrow> btype (abt_s btr) = BTREE_TABLE"
  shows "\<exists>btr' n st. abt_replace fl btr akey val = Inr (btr', n) \<and> abt_wf btr' \<and> abt_s btr' = abt_s btr \<and>
     bt_numkeys (abt_tree btr') = bt_numkeys (abt_tree btr) \<and>
     parseStream st (abt_s btr) = Inr (found_val (abt_s btr) akey val) \<and>
     (\<forall>r. abt_entry btr' r = (if r = abt_rank btr akey then Some st else abt_entry btr r))"
proof -
  let ?s = "abt_s btr" and ?c = "abt_cmp btr" and ?t = "abt_tree btr"
  note o = abt_wf_order(1) [OF wf, of fl] abt_wf_order(2) [OF wf]
  obtain btkey med ks st n where k: "createBTKey akey ?s = Inr (btkey, med, ks)" "btkey \<noteq> NULL"
    "createStream ?s val btkey ks = Inr (st, n)" "key_ord ?c btkey = abt_rank btr akey" "key_ord ?c st = abt_rank btr akey"
    "parseStream st ?s = Inr (found_val ?s akey val)" "entry_ok ?s st"
    "NORM_BT ?s \<and> btype ?s = BTREE_TABLE \<longrightarrow> getStreamMallocSize ?s st = Inr (row_malloc_size n)"
    using spec_has_entry [of ?s ?c akey val] wf ok unfolding abt_wf_def has_entry_def by blast
  have e: "e \<in> set (inorder (bt_root ?t))" "key_ord ?c e = abt_rank btr akey"
    using ex by (auto simp: abt_entry_def find_Some_iff)
  have eo: "entry_ok ?s e" using wf e(1) by (auto simp: abt_wf_def list_all_iff)
  have fe: "List.find (\<lambda>x. key_ord ?c x = key_ord ?c btkey) (inorder (bt_root ?t)) = Some e"
    using ex k(4) by (simp add: abt_entry_def)
  obtain t' where t': "bt_replace (abt_cmpf fl btr) ?t btkey st = Inr (t', Some e)"
    "bt_wf (key_ord ?c) t'" "inorder (bt_root t') = upd_by (key_ord ?c) btkey st (inorder (bt_root ?t))"
    using bt_order.bt_replace_ok [OF o, of st btkey] k(4,5) fe by auto
  let ?b = "btr\<lparr>abt_tree := t'\<rparr>"
  obtain p j r' where loc: "bt_find_loc (abt_cmpf fl btr) ?t btkey = Inr (Some (p, j))" "slot_read p j (bt_root ?t) = Inr e"
    "slot_write p j st (bt_root ?t) = Inr r'" "t' = ?t\<lparr>bt_root := r'\<rparr>"
    using t'(1) unfolding bt_replace_def findnodekeyreplace_slot bt_find_loc_def
    by (auto split: c_bind_splits option.splits)
  have "abt_replace fl btr akey val = Inr (?b, n)"
  proof (cases "NORM_BT ?s")
    case True
    have "\<not> INODE ?s" using ty True by (auto simp: INODE_def INODE_I_def INODE_L_def INODE_X_def)
    then obtain m where m: "getStreamMallocSize ?s e = Inr m"
      using eo True by (cases "getStreamMallocSize ?s e") (auto simp: entry_ok_def)
    show ?thesis
      using True ty k(8) loc(4) by (simp add: abt_replace_def DECLARE_BT_KEY_def k(1-3) loc(1-3) m stream_alloc_def)
  next
    case False
    obtain b where "destroyStream ?s e = Inr b" using eo by (cases "destroyStream ?s e") (auto simp: entry_ok_def)
    with False show ?thesis by (simp add: abt_replace_def DECLARE_BT_KEY_def k(1-3) t'(1))
  qed
  moreover have "abt_wf ?b"
    using wf t'(2,3) k(7) by (auto simp: abt_wf_def list_all_iff upd_by_def)
  moreover have "abt_entry ?b r = (if r = abt_rank btr akey then Some st else abt_entry btr r)" for r
    using sorted_upd_find [of "key_ord ?c" st btkey r "inorder (bt_root ?t)"] e k(4,5) by (auto simp: abt_entry_def t'(3))
  moreover have "bt_numkeys (abt_tree ?b) = bt_numkeys ?t" using loc(4) by simp
  ultimately show ?thesis using k(6) by (intro exI [of _ ?b] exI [of _ n] exI [of _ st]) simp
qed

subsection \<open>The constructors make empty maps\<close>

definition abt_fresh :: "abt \<Rightarrow> bool" where
  "abt_fresh btr \<longleftrightarrow> abt_wf btr \<and> inorder (bt_root (abt_tree btr)) = []"

lemma CREATE_OBT_wf:
  assumes "spec_ok \<lparr>ktype = kt, btype = bty, ksize = ks, bflag = bf, bts_num = word_of_int n\<rparr> c"
  shows "abt_fresh (CREATE_OBT kt ks bf c n bty)"
  using assms bt_create_wf [of "key_ord c" TRANS_ONE] by (simp add: abt_fresh_def abt_wf_def CREATE_OBT_def)

lemma createOBT_wf:
  assumes "createOBT kt vt tm bty = Some btr" "\<not> (kt = COL_TYPE_INT \<and> vt = COL_TYPE_INT)" "bty \<noteq> BTREE_INODE"
  shows "abt_fresh btr"
  using assms
  by (auto simp: createOBT_def create_bt_defs(2-) spec_ok_def obt_kinds_def intro!: CREATE_OBT_wf split: coltype.splits)

lemma createDBT_wf:
  assumes "kt \<in> {COL_TYPE_INT, COL_TYPE_LONG, COL_TYPE_U128, COL_TYPE_STRING}"
    "\<not> (length cols = 2 \<and> kt = COL_TYPE_INT \<and> cols ! 1 = COL_TYPE_INT)"
  shows "abt_fresh (createDBT cols kt tm)"
proof -
  have n: "abt_fresh (CREATE_OBT kt VOIDSIZE BTFLAG_NONE (ASSIGN_CMP kt) tm BTREE_TABLE)"
    using assms(1) by (intro CREATE_OBT_wf) (auto simp: spec_ok_def INODE_def INODE_I_def INODE_L_def INODE_X_def)
  show ?thesis
  proof (cases "length cols = 2")
    case True
    then show ?thesis
      using n createOBT_wf [of kt "cols ! 1" tm BTREE_TABLE] assms(2)
      by (auto simp: createDBT_def split: option.split)
  next
    case False
    with n show ?thesis by (simp add: createDBT_def)
  qed
qed

lemma createIBT_wf:
  assumes "kt \<in> {COL_TYPE_INT, COL_TYPE_LONG, COL_TYPE_STRING}" "bty \<in> {BTREE_INDEX, BTREE_MCI, BTREE_MCI_MID}"
  shows "abt_fresh (createIBT kt im bty)"
  using assms unfolding createIBT_def
  by (auto intro!: CREATE_OBT_wf
      simp: spec_ok_def ptr_kinds_def INODE_def INODE_I_def INODE_L_def INODE_X_def)

lemma createIndexNode_wf:
  assumes "kt \<in> {COL_TYPE_INT, COL_TYPE_LONG, COL_TYPE_U128, COL_TYPE_STRING}"
  shows "\<exists>btr. createIndexNode kt COL_TYPE_NONE = Inr btr \<and> abt_fresh btr"
  using assms unfolding createIndexNode_def
  by (auto intro!: CREATE_OBT_wf
      simp: spec_ok_def INODE_def INODE_I_def INODE_L_def INODE_X_def has_flag_def btflag_defs inode_cmp_def)

subsection \<open>Properties of the component\<close>


definition demo_table :: abt where
  "demo_table = createDBT [COL_TYPE_INT, COL_TYPE_STRING, COL_TYPE_INT] COL_TYPE_INT 0"

lemma demo_table_fresh: "abt_fresh demo_table"
  unfolding demo_table_def by (rule createDBT_wf) simp_all

lemma demo_table_spec: "abt_s demo_table = \<lparr>ktype = COL_TYPE_INT, btype = BTREE_TABLE, ksize = 8, bflag = 0, bts_num = 0\<rparr>"
  by (simp add: demo_table_def createDBT_def CREATE_OBT_def VOIDSIZE_def BTFLAG_NONE_def Let_def)


definition uu_table :: abt where "uu_table = createDBT [COL_TYPE_INT, COL_TYPE_INT] COL_TYPE_INT 0"

lemma uu_table_spec:
  "abt_s uu_table = \<lparr>ktype = COL_TYPE_INT, btype = BTREE_TABLE, ksize = 8, bflag = 16, bts_num = 0\<rparr>"
  by (simp add: uu_table_def createDBT_def createOBT_def create_bt_defs BTFLAG_UINT_UINT_def)

lemma uu_flags: "UU (abt_s uu_table)" "\<not> INODE_I (abt_s uu_table)" "\<not> INODE_L (abt_s uu_table)" "\<not> INODE_X (abt_s uu_table)"
  "\<not> INODE (abt_s uu_table)" "OTHER_BT (abt_s uu_table)" "\<not> OBYI (abt_s uu_table)" "\<not> MCI_UNIQ (abt_s uu_table)"
  "\<not> UP (abt_s uu_table)" "\<not> LUP (abt_s uu_table)" "\<not> LLP (abt_s uu_table)"
  by (simp_all add: uu_table_spec flag_simps)

lemma single_insert:
  "bt_insert cmp (bt_create TRANS_ONE) st = Inr ((bt_create TRANS_ONE)\<lparr>bt_root := BTN 1 True [st] [], bt_numkeys := 1\<rparr>)"
  by (simp add: bt_insert_def bt_create_def Let_def nkeys_def GETN_def bt_insertnonfull.simps findkindex_def)

lemma single_search:
  assumes "cmp k st = 0"
  shows "bt_find_loc_node cmp nbits (BTN 1 True [st] []) k = Inr (Some ([], 0))"
    "findnodekey cmp nbits (BTN 1 True [st] []) k = Inr (Some st)"
proof -
  have "findkindex cmp nbits [st] k = (0, Some 0)"
    using assms by (simp add: findkindex_def findkindex_loop.simps)
  then show "bt_find_loc_node cmp nbits (BTN 1 True [st] []) k = Inr (Some ([], 0))"
    "findnodekey cmp nbits (BTN 1 True [st] []) k = Inr (Some st)"
    by (simp_all add: bt_find_loc_node.simps findnodekey.simps)
qed

lemma text_index_overread:
  "c_bind (btIndAdd fl (createIndexBT COL_TYPE_STRING 0) (initAobjString [97, 98, 99] 3) 64)
     (\<lambda>b. btIndNull fl b (initAobjString [97, 98, 99] 3)) = Inl OOB_read"
proof -
  let ?b = "createIndexBT COL_TYPE_STRING 0" and ?k = "initAobjString [97, 98, 99] 3"
  let ?st = "\<lambda>w. Mem ([7, 97, 98, 99] @ le_bytes 8 (w :: ulong))"
  have b: "abt_s ?b = \<lparr>ktype = COL_TYPE_STRING, btype = BTREE_INDEX, ksize = 8, bflag = 0, bts_num = 0\<rparr>"
    "abt_cmp ?b = BtTextCmp" "abt_tree ?b = bt_create TRANS_ONE"
    by (simp_all add: createIndexBT_def createIBT_def CREATE_OBT_def VOIDSIZE_def BTFLAG_NONE_def ASSIGN_CMP_def)
  have key: "createBTKey ?k (abt_s ?b) = Inr (Mem [7, 97, 98, 99], False, 4)"
    by (simp add: createBTKey_def b flag_simps cr8BTKText_def initAobjString_def TWO_POW_7_def c_take_def BTK_BSIZE_def Let_def)
  have st: "createStream (abt_s ?b) (Word w) (Mem [7, 97, 98, 99]) 4 = Inr (?st w, 12)" for w
    by (simp add: createStream_def b flag_simps getStreamVlen_def ptr_mem_def ptr_word_def c_take_def)
  have sk: "skipToVal ([7, 97, 98, 99] @ r) COL_TYPE_STRING = Inr 4" for r
    by (simp add: skipToVal_def getSflag_def getTString_def c_take_def)
  have sz: "getStreamMallocSize (abt_s ?b) (?st w) = Inr 16" for w
    using sk by (simp add: getStreamMallocSize_def b flag_simps ptr_mem_def getStreamVlen_def row_malloc_size_def)
  have ty: "NORM_BT (abt_s ?b)" "stream_alloc (abt_s ?b) 12 = 12" by (simp_all add: b flag_simps stream_alloc_def)
  have "text_of ([7, 97, 98, 99] @ r) = [97, 98, 99]" for r
    by (simp add: text_of_def streamText_def getSflag_def getTString_def c_take_def)
  from this [of "[]"] this have c: "btTextCmp [7, 97, 98, 99] ([7, 97, 98, 99] @ r) = 0" for r
    by (simp add: text_stream_order.cmp_zero)
  then have srch: "bt_find_loc_node (bt_cmp fl BtTextCmp) nb (BTN 1 True [?st 64] []) (Mem [7, 97, 98, 99]) = Inr (Some ([], 0))" for nb
    by (intro single_search) (simp add: mem_of_def)
  show ?thesis
    using sz [of 64] sz [of 0] srch
    by (simp add: btIndAdd_def abt_insert_def DECLARE_BT_KEY_def key st abt_cmpf_def b(2,3) single_insert btIndNull_def
        abt_replace_def ty bt_find_loc_def)
qed

lemma u128_index_overread:
  "c_bind (btIndAdd fl (createIndexBT COL_TYPE_U128 0) (initAobjU128 initAobj x) w)
     (\<lambda>b. btIndFind fl b (initAobjU128 initAobj x)) = Inl OOB_read"
proof -
  let ?b = "createIndexBT COL_TYPE_U128 0" and ?k = "initAobjU128 initAobj x"
  let ?st = "Mem (le_bytes 16 x @ le_bytes 8 w)"
  have b: "abt_s ?b = \<lparr>ktype = COL_TYPE_U128, btype = BTREE_INDEX, ksize = 24, bflag = 2052, bts_num = 0\<rparr>"
    "abt_cmp ?b = XlCmp" "abt_tree ?b = bt_create TRANS_ONE"
    by (simp_all add: createIndexBT_def createIBT_def CREATE_OBT_def btflag_defs)
  have key: "createBTKey ?k (abt_s ?b) = Inr (Mem (le_bytes 16 x @ replicate 8 0), False, 8)"
    by (simp add: createBTKey_def b flag_simps initAobjU128_def VOIDSIZE_def le_bytes_zero Let_def)
  have st: "createStream (abt_s ?b) (Word w) (Mem (le_bytes 16 x @ replicate 8 0)) 8 = Inr (?st, 0)"
    by (simp add: createStream_def OBT_createStream_def obt_cr8_strm_def b flag_simps ptr_mem_def ptr_word_def)
  have srch: "findnodekey (bt_cmp fl XlCmp) nb (BTN 1 True [?st] []) (Mem (le_bytes 16 x @ replicate 8 0)) = Inr (Some ?st)" for nb
    by (intro single_search) (simp add: mem_of_def entry_at_def key_at_def XCmp_def)
  have pr: "parseStream ?st (abt_s ?b) = Inl OOB_read"
    by (simp add: parseStream_def b flag_simps fld_def ptr_mem_def c_take_def)
  show ?thesis
    by (simp add: btIndAdd_def abt_insert_def DECLARE_BT_KEY_def key st abt_cmpf_def b(2,3) single_insert btIndFind_def
        abt_find_def bt_find_def srch pr)
qed


end
