(* ===== verification/Alc_BTIter.thy ===== *)
theory Alc_BTIter
  imports Alc_Index
begin

text \<open>
  The iterators of \<^verbatim>\<open>src/DB/bt_iterator.c\<close> on trees without evicted rows. The chain of \<^verbatim>\<open>bt_ll_n\<close> blocks from the
  current one up to the root is a list, current block first; a block is the node with its key slot \<^verbatim>\<open>ik\<close> and
  its child slot \<^verbatim>\<open>in\<close>. \<^verbatim>\<open>num_nodes\<close> counts the blocks taken from the fixed array, so the current block has a
  \<^verbatim>\<open>child\<close> block already exactly when the chain is shorter than \<^verbatim>\<open>num_nodes\<close>. The miss flags, which only evicted
  rows set, are left out.
\<close>

type_synonym 'k bt_ll_n = "'k btn \<times> nat \<times> nat"

record 'k btIterator =
  bln :: "'k bt_ll_n list"
  finished :: bool
  num_nodes :: nat

definition MAX_BTREE_DEPTH :: nat where "MAX_BTREE_DEPTH = 16"
definition MAX_NUM_ITERS :: nat where "MAX_NUM_ITERS = 64"

definition get_new_iter_child :: "'k btIterator \<Rightarrow> 'k btIterator c_res" where
  "get_new_iter_child iter =
     (if num_nodes iter < MAX_BTREE_DEPTH then Inr (iter\<lparr>num_nodes := num_nodes iter + 1\<rparr>)
      else Inl Assert_fail)"

definition GET_NEW_CHILD :: "'k btIterator \<Rightarrow> 'k btIterator c_res" where
  "GET_NEW_CHILD iter =
     (if length (bln iter) < num_nodes iter then Inr iter else get_new_iter_child iter)"

subsection \<open>Ascending\<close>

definition to_child :: "'k btIterator \<Rightarrow> 'k btn \<Rightarrow> 'k btIterator" where
  "to_child iter self = iter\<lparr>bln := (self, 0, 0) # bln iter\<rparr>"

fun toparentrecurse :: "('k \<Rightarrow> 'k \<Rightarrow> int) \<Rightarrow> 'k bt_ll_n list \<Rightarrow> ('k bt_ll_n list \<times> bool) c_res" where
  "toparentrecurse cmp ((x, xk, xn) # (p, pk, pn) # fs) =
     c_bind (c_read (bkeys x) xk) (\<lambda>child.
     c_bind (c_read (bkeys p) pk) (\<lambda>parent.
       if cmp child parent > 0 then
         let pk' = (if pk + 1 < nkeys p then pk + 1 else pk) in
         if pn + 1 < nkeys p then Inr ((p, pk', pn + 1) # fs, False)
         else toparentrecurse cmp ((p, pk', pn) # fs)
       else Inr ((p, pk, pn) # fs, False)))"
| "toparentrecurse cmp fs = Inr (fs, True)"

definition to_parent :: "('k \<Rightarrow> 'k \<Rightarrow> int) \<Rightarrow> 'k btIterator \<Rightarrow> 'k btIterator c_res" where
  "to_parent cmp iter = c_bind (toparentrecurse cmp (bln iter)) (\<lambda>(fs, fin).
     Inr (iter\<lparr>bln := fs, finished := fin \<or> finished iter\<rparr>))"

definition iter_leaf :: "('k \<Rightarrow> 'k \<Rightarrow> int) \<Rightarrow> 'k btIterator \<Rightarrow> 'k btIterator c_res" where
  "iter_leaf cmp iter =
     (case bln iter of
        (x, xk, xn) # fs \<Rightarrow>
          if xk + 1 < nkeys x then Inr (iter\<lparr>bln := (x, xk + 1, xn) # fs\<rparr>) else to_parent cmp iter
      | [] \<Rightarrow> Inl OOB_read)"

function tochildrecurse :: "'k btIterator \<Rightarrow> 'k btn \<Rightarrow> 'k btIterator c_res" where
  "tochildrecurse iter self =
     (let iter = to_child iter self in
      if leaf self then Inr iter
      else c_bind (GET_NEW_CHILD iter) (\<lambda>iter. c_bind (kid self 0) (tochildrecurse iter)))"
  by pat_completeness auto
termination
  by (relation "measure (\<lambda>(iter, x). bheight x)") (auto dest: kid_bheight)

definition iter_node :: "'k btIterator \<Rightarrow> 'k btIterator c_res" where
  "iter_node iter =
     (case bln iter of
        (x, xk, xn) # fs \<Rightarrow>
          let xk' = (if xk + 1 < nkeys x then xk + 1 else xk);
              xn' = (if xn + 1 \<le> nkeys x then xn + 1 else xn)
          in c_bind (GET_NEW_CHILD (iter\<lparr>bln := (x, xk', xn') # fs\<rparr>)) (\<lambda>iter.
             c_bind (kid x xn') (tochildrecurse iter))
      | [] \<Rightarrow> Inl OOB_read)"

subsection \<open>Descending\<close>

definition to_child_rev :: "'k btIterator \<Rightarrow> 'k btn \<Rightarrow> 'k btIterator" where
  "to_child_rev iter self = iter\<lparr>bln := (self, nkeys self - 1, nkeys self) # bln iter\<rparr>"

function tochildrecurserev :: "'k btIterator \<Rightarrow> 'k btn \<Rightarrow> 'k btIterator c_res" where
  "tochildrecurserev iter self =
     (let iter = to_child_rev iter self in
      if leaf self then Inr iter
      else c_bind (GET_NEW_CHILD iter) (\<lambda>iter. c_bind (kid self (nkeys self)) (tochildrecurserev iter)))"
  by pat_completeness auto
termination
  by (relation "measure (\<lambda>(iter, x). bheight x)") (auto dest: kid_bheight)

declare tochildrecurse.simps [simp del] tochildrecurserev.simps [simp del]

text \<open>The last line of \<^verbatim>\<open>toparentrecurserev\<close>, run by every activation on the block that is current then.\<close>

definition in_dec :: "'k bt_ll_n list \<Rightarrow> 'k bt_ll_n list" where
  "in_dec fs = (case fs of (x, xk, xn) # fs' \<Rightarrow> (x, xk, if xn = nkeys x then xn - 1 else xn) # fs' | [] \<Rightarrow> [])"

fun toparentrecurserev :: "('k \<Rightarrow> 'k \<Rightarrow> int) \<Rightarrow> 'k bt_ll_n list \<Rightarrow> ('k bt_ll_n list \<times> bool) c_res" where
  "toparentrecurserev cmp ((x, xk, xn) # (p, pk, pn) # fs) =
     c_bind (c_read (bkeys x) xk) (\<lambda>child.
     c_bind (c_read (bkeys p) pk) (\<lambda>parent.
       if cmp child parent < 0 then
         if pn \<noteq> 0 then Inr (in_dec ((p, pk - 1, pn - 1) # fs), False)
         else c_bind (toparentrecurserev cmp ((p, pk - 1, pn) # fs)) (\<lambda>(fs', fin). Inr (in_dec fs', fin))
       else Inr (in_dec ((p, pk, pn) # fs), False)))"
| "toparentrecurserev cmp fs = Inr (fs, True)"

definition to_parent_rev :: "('k \<Rightarrow> 'k \<Rightarrow> int) \<Rightarrow> 'k btIterator \<Rightarrow> 'k btIterator c_res" where
  "to_parent_rev cmp iter = c_bind (toparentrecurserev cmp (bln iter)) (\<lambda>(fs, fin).
     Inr (iter\<lparr>bln := fs, finished := fin \<or> finished iter\<rparr>))"

definition iter_leaf_rev :: "('k \<Rightarrow> 'k \<Rightarrow> int) \<Rightarrow> 'k btIterator \<Rightarrow> 'k btIterator c_res" where
  "iter_leaf_rev cmp iter =
     (case bln iter of
        (x, xk, xn) # fs \<Rightarrow>
          if xk \<noteq> 0 then Inr (iter\<lparr>bln := (x, xk - 1, xn) # fs\<rparr>) else to_parent_rev cmp iter
      | [] \<Rightarrow> Inl OOB_read)"

definition iter_node_rev :: "'k btIterator \<Rightarrow> 'k btIterator c_res" where
  "iter_node_rev iter =
     (case bln iter of
        (x, xk, xn) # fs \<Rightarrow> c_bind (GET_NEW_CHILD iter) (\<lambda>iter. c_bind (kid x xn) (tochildrecurserev iter))
      | [] \<Rightarrow> Inl OOB_read)"

subsection \<open>One step\<close>

definition btNext :: "('k \<Rightarrow> 'k \<Rightarrow> int) \<Rightarrow> bool \<Rightarrow> 'k btIterator \<Rightarrow> ('k option \<times> 'k btIterator) c_res" where
  "btNext cmp asc iter =
     (if finished iter then Inr (None, iter)
      else case bln iter of
        (x, xk, xn) # fs \<Rightarrow>
          c_bind (c_read (bkeys x) xk) (\<lambda>curr.
          c_bind (if leaf x then (if asc then iter_leaf else iter_leaf_rev) cmp iter
                  else (if asc then iter_node else iter_node_rev) iter) (\<lambda>iter'.
            Inr (Some curr, iter')))
      | [] \<Rightarrow> Inl OOB_read)"

subsection \<open>Positioning\<close>

datatype ii_ret = II_OK | II_LEAF_EXIT | II_ONLY_RIGHT

text \<open>
  \<^verbatim>\<open>bt_init_iterator\<close> (in \<^verbatim>\<open>bt_code.c\<close>): the loop over the nodes, with \<^verbatim>\<open>r\<close> and \<^verbatim>\<open>only_right\<close> as state. \<^verbatim>\<open>findkindex\<close>
  sets both slots of the current block to the found position, or 0.
\<close>

function bt_init_iterator_loop :: "('k \<Rightarrow> 'k \<Rightarrow> int) \<Rightarrow> nat \<Rightarrow> 'k \<Rightarrow> 'k btIterator \<Rightarrow> 'k btn \<Rightarrow> int \<Rightarrow> bool \<Rightarrow>
    (ii_ret \<times> 'k btIterator) c_res" where
  "bt_init_iterator_loop cmp nbits k iter x r only_right =
     (let (i, r') = findkindex cmp nbits (bkeys x) k;
          r = (case r' of None \<Rightarrow> r | Some v \<Rightarrow> v);
          iter = (if bkeys x = [] then iter
                  else iter\<lparr>bln := (x, nat i, nat i) # tl (bln iter)\<rparr>);
          only_right = (only_right \<and> \<not> (r < 0 \<or> i \<noteq> int (nkeys x) - 1))
      in
      if 0 \<le> i \<and> r = 0 then Inr (II_OK, iter)
      else if leaf x then Inr (if only_right then II_ONLY_RIGHT else II_LEAF_EXIT, iter)
      else c_bind (get_new_iter_child iter) (\<lambda>iter.
           c_bind (kid x (nat (i + 1))) (\<lambda>y.
             bt_init_iterator_loop cmp nbits k (to_child iter y) y r only_right)))"
  by pat_completeness auto
termination
  by (relation "measure (\<lambda>(cmp, nbits, k, iter, x, r, rt). bheight x)") (auto dest: kid_bheight)

declare bt_init_iterator_loop.simps [simp del]

definition init_iter :: "'k bt \<Rightarrow> 'k btIterator" where
  "init_iter btr = \<lparr>bln = [(bt_root btr, 0, 0)], finished = False, num_nodes = 1\<rparr>"

definition bt_init_iterator :: "('k \<Rightarrow> 'k \<Rightarrow> int) \<Rightarrow> 'k bt \<Rightarrow> 'k \<Rightarrow> 'k btIterator \<Rightarrow>
    (ii_ret \<times> 'k btIterator) c_res" where
  "bt_init_iterator cmp btr k iter =
     bt_init_iterator_loop cmp (bt_nbits btr) k iter (bt_root btr) (- 1) True"

text \<open>\<^verbatim>\<open>setIter\<close>: the entry it returns (\<^verbatim>\<open>NULL\<close> as \<open>None\<close>), the flag \<^verbatim>\<open>empty\<close> and the iterator.\<close>

definition setIter :: "('k \<Rightarrow> 'k \<Rightarrow> int) \<Rightarrow> 'k bt \<Rightarrow> 'k \<Rightarrow> bool \<Rightarrow> 'k btIterator \<Rightarrow>
    ('k option \<times> bool \<times> 'k btIterator) c_res" where
  "setIter cmp btr bkey asc iter =
     c_bind (bt_init_iterator cmp btr bkey iter) (\<lambda>(ret, iter).
       case bln iter of
         (x, xk, xn) # fs \<Rightarrow>
           c_bind (c_read (bkeys x) xk) (\<lambda>cur.
             if ret \<noteq> II_OK \<and> cmp bkey cur > 0 then
               if ret = II_ONLY_RIGHT then Inr (None, True, iter)
               else c_bind (btNext cmp asc iter) (\<lambda>(e, iter). Inr (e, False, iter))
             else Inr (Some cur, False, iter))
       | [] \<Rightarrow> Inl OOB_read)"

subsection \<open>Range iterators\<close>

record 'k btSIter =
  siter_x :: "'k btIterator"
  siter_empty :: bool
  siter_high :: ulong

text \<open>
  The stack of iterators: \<^verbatim>\<open>createIterator\<close> takes the next slot of \<^verbatim>\<open>BT_Iterators\<close> and \<^verbatim>\<open>btReleaseRangeIterator\<close>
  gives it back, unless it gets \<^verbatim>\<open>NULL\<close>. The state is \<^verbatim>\<open>WhichIter\<close>.
\<close>

definition createIterator :: "nat \<Rightarrow> 'k bt \<Rightarrow> (nat \<times> 'k btSIter) c_res" where
  "createIterator which btr =
     (if which < MAX_NUM_ITERS
      then Inr (which + 1, \<lparr>siter_x = init_iter btr, siter_empty = True, siter_high = 0\<rparr>)
      else Inl Assert_fail)"

definition btReleaseRangeIterator :: "nat \<Rightarrow> 'k btSIter option \<Rightarrow> nat" where
  "btReleaseRangeIterator which siter = (case siter of None \<Rightarrow> which | Some _ \<Rightarrow> which - 1)"

text \<open>
  \<^verbatim>\<open>btGetRangeIter\<close> for INT and LONG keys; \<open>num\<close> is the number in an entry (\<^verbatim>\<open>convertStream2Key\<close>), the bounds are
  search keys made by \<^verbatim>\<open>createBTKey\<close>.
\<close>

definition btGetRangeIter :: "('k \<Rightarrow> 'k \<Rightarrow> int) \<Rightarrow> ('k \<Rightarrow> ulong) \<Rightarrow> nat \<Rightarrow> 'k bt \<Rightarrow> 'k \<Rightarrow> 'k \<Rightarrow> bool \<Rightarrow>
    (nat \<times> 'k btSIter option) c_res" where
  "btGetRangeIter cmp num which btr alow ahigh asc =
     (if bt_numkeys btr = 0 then Inr (which, None)
      else c_bind (createIterator which btr) (\<lambda>(which, siter).
        let siter = siter\<lparr>siter_high := num (if asc then ahigh else alow)\<rparr> in
        c_bind (setIter cmp btr (if asc then alow else ahigh) asc (siter_x siter)) (\<lambda>(stream, empty, iter).
          Inr (which, if stream = None then None
                      else Some (siter\<lparr>siter_x := iter, siter_empty := empty\<rparr>)))))"

definition btRangeNext :: "('k \<Rightarrow> 'k \<Rightarrow> int) \<Rightarrow> ('k \<Rightarrow> ulong) \<Rightarrow> bool \<Rightarrow> 'k btSIter \<Rightarrow>
    ('k option \<times> 'k btSIter) c_res" where
  "btRangeNext cmp num asc siter =
     (if siter_empty siter then Inr (None, siter)
      else c_bind (btNext cmp asc (siter_x siter)) (\<lambda>(stream, iter).
        case stream of
          None \<Rightarrow> Inr (None, siter\<lparr>siter_x := iter\<rparr>)
        | Some e \<Rightarrow>
            let l = num e;
                iter = (if l = siter_high siter then iter\<lparr>finished := True\<rparr> else iter);
                over = (if asc then l > siter_high siter else l < siter_high siter)
            in Inr (if over then None else Some e, siter\<lparr>siter_x := iter\<rparr>)))"

text \<open>The loop of the callers, \<^verbatim>\<open>while ((be = btRangeNext(bi, asc)))\<close>, with a bound on its turns.\<close>

fun range_loop :: "('k \<Rightarrow> 'k \<Rightarrow> int) \<Rightarrow> ('k \<Rightarrow> ulong) \<Rightarrow> bool \<Rightarrow> nat \<Rightarrow> 'k btSIter \<Rightarrow> 'k list option c_res" where
  "range_loop cmp num asc 0 siter = Inr None"
| "range_loop cmp num asc (Suc fuel) siter =
     c_bind (btRangeNext cmp num asc siter) (\<lambda>(be, siter').
       case be of
         None \<Rightarrow> Inr (Some [])
       | Some e \<Rightarrow> c_bind (range_loop cmp num asc fuel siter') (\<lambda>es. Inr (map_option ((#) e) es)))"

subsection \<open>What an ascending iterator has still to visit\<close>

text \<open>
  \<open>anc ord t h x fs rest\<close>: the blocks \<open>fs\<close> lead from a node \<open>x\<close> of height \<open>h\<close> to the root, and \<open>rest\<close> are the
  entries right of \<open>x\<close>. The slots of a block are the child slot \<open>c\<close> below it, or one less when
  \<^verbatim>\<open>bt_init_iterator\<close> set them.
\<close>

definition slot_ok :: "nat \<Rightarrow> nat \<Rightarrow> nat \<Rightarrow> nat \<Rightarrow> bool" where
  "slot_ok c n pk pn \<longleftrightarrow> (pn = c \<and> pk = min c (n - 1)) \<or> (0 < c \<and> pn = c - 1 \<and> pk = c - 1)"

fun anc :: "('k \<Rightarrow> 'o::linorder) \<Rightarrow> nat \<Rightarrow> nat \<Rightarrow> 'k btn \<Rightarrow> 'k bt_ll_n list \<Rightarrow> 'k list \<Rightarrow> bool" where
  "anc ord t h x [] rest \<longleftrightarrow> rest = []"
| "anc ord t h x ((p, pk, pn) # fs) rest \<longleftrightarrow>
     (\<exists>s kl kr cl cr rest'. p = BTN s False (kl @ kr) (cl @ x # cr) \<and> length cl = length kl \<and>
        length kr = length cr \<and> kl @ kr \<noteq> [] \<and> shape t (Suc h) p \<and> sorted_by ord (inorder p) \<and>
        slot_ok (length kl) (length (kl @ kr)) pk pn \<and>
        rest = il_post kr (map inorder cr) @ rest' \<and> anc ord t (Suc h) p fs rest')"

lemma anc_ConsI:
  "p = BTN s False (kl @ kr) (cl @ x # cr) \<Longrightarrow> length cl = length kl \<Longrightarrow> length kr = length cr \<Longrightarrow>
   kl @ kr \<noteq> [] \<Longrightarrow> shape t (Suc h) p \<Longrightarrow> sorted_by ord (inorder p) \<Longrightarrow>
   slot_ok (length kl) (length (kl @ kr)) pk pn \<Longrightarrow> anc ord t (Suc h) p fs rest \<Longrightarrow>
   anc ord t h x ((p, pk, pn) # fs) (il_post kr (map inorder cr) @ rest)"
  unfolding anc.simps by blast

text \<open>The current block: a slot of a leaf, or a key of an inner node with both slots on it.\<close>

definition on_slot :: "('k \<Rightarrow> 'o::linorder) \<Rightarrow> nat \<Rightarrow> nat \<Rightarrow> 'k bt_ll_n list \<Rightarrow> 'k list \<Rightarrow> bool" where
  "on_slot ord t h fs rest \<longleftrightarrow> (\<exists>x k xn fs' r. fs = (x, k, xn) # fs' \<and> shape t h x \<and>
     sorted_by ord (inorder x) \<and> k < nkeys x \<and> anc ord t h x fs' r \<and>
     (h = 0 \<and> rest = drop k (bkeys x) @ r \<or>
      0 < h \<and> xn = k \<and> rest = il_post (drop k (bkeys x)) (map inorder (drop (k + 1) (bkids x))) @ r))"

definition iter_at :: "('k \<Rightarrow> 'o::linorder) \<Rightarrow> nat \<Rightarrow> nat \<Rightarrow> 'k btIterator \<Rightarrow> 'k list \<Rightarrow> bool" where
  "iter_at ord t d iter rest \<longleftrightarrow> length (bln iter) \<le> num_nodes iter \<and> num_nodes iter \<le> d \<and>
     (if finished iter then rest = []
      else \<exists>h. on_slot ord t h (bln iter) rest \<and> length (bln iter) + h = d)"

lemma keys_in_inorder: "set (bkeys x) \<subseteq> set (inorder x)"
  by (cases x) (auto simp: set_interleave)

lemma get_new_child_ok:
  assumes "length (bln it1) \<le> num_nodes it1" "num_nodes it1 \<le> d" "length (bln it1) < d" "d \<le> MAX_BTREE_DEPTH"
  shows "\<exists>it2. GET_NEW_CHILD it1 = Inr it2 \<and> bln it2 = bln it1 \<and> finished it2 = finished it1 \<and>
     length (bln it1) < num_nodes it2 \<and> num_nodes it2 \<le> d"
proof (cases "length (bln it1) < num_nodes it1")
  case True
  with assms show ?thesis by (simp add: GET_NEW_CHILD_def)
next
  case False
  with assms have "num_nodes it1 < MAX_BTREE_DEPTH" "num_nodes it1 = length (bln it1)" by simp_all
  with False assms show ?thesis
    by (intro exI [of _ "it1\<lparr>num_nodes := num_nodes it1 + 1\<rparr>"])
      (simp add: GET_NEW_CHILD_def get_new_iter_child_def)
qed

context bt_order
begin

text \<open>Around a child: its keys are right of the separator before it and left of the one after it.\<close>

lemma child_between:
  assumes "sorted_by ord (inorder (BTN s l (kl @ kr) (cl @ x # cr)))" "length cl = length kl"
    "length kr = length cr" "e \<in> set (inorder x)"
  shows "a \<in> set kl \<Longrightarrow> ord a < ord e" and "b \<in> set kr \<Longrightarrow> ord e < ord b"
proof -
  have srt: "sorted_by ord (il_pre (map inorder cl) kl @ inorder x @ il_post kr (map inorder cr))"
    using assms(1) unfolding inorder_view [OF assms(2,3)] .
  have "set kl \<subseteq> set (il_pre (map inorder cl) kl)"
    using assms(2) by (induction cl kl rule: list_induct2) auto
  then show "a \<in> set kl \<Longrightarrow> ord a < ord e" using srt assms(4) by auto
  have "set kr \<subseteq> set (il_post kr (map inorder cr))"
    using assms(3) by (induction kr cr rule: list_induct2) auto
  then show "b \<in> set kr \<Longrightarrow> ord e < ord b" using srt assms(4) by auto
qed

lemma toparent_ok:
  assumes "anc ord t h x fs rest" "xk < nkeys x"
  shows "\<exists>fs' fin. toparentrecurse cmp ((x, xk, xn) # fs) = Inr (fs', fin) \<and> fs' \<noteq> [] \<and>
     length fs' \<le> Suc (length fs) \<and> (fin \<longleftrightarrow> rest = []) \<and>
     (rest \<noteq> [] \<longrightarrow> (\<exists>h'. on_slot ord t h' fs' rest \<and> length fs' + h' = Suc (length fs) + h))"
  using assms
proof (induction fs arbitrary: h x xk xn rest)
  case Nil
  then show ?case by (intro exI [of _ "[(x, xk, xn)]"] exI [of _ True]) simp
next
  case (Cons f fs)
  obtain p pk pn where f: "f = (p, pk, pn)" by (cases f)
  from Cons.prems(1) obtain s kl kr cl cr rest' where p: "p = BTN s False (kl @ kr) (cl @ x # cr)"
    and len: "length cl = length kl" "length kr = length cr" and ne: "kl @ kr \<noteq> []"
    and sh: "shape t (Suc h) p" and srt: "sorted_by ord (inorder p)"
    and sl: "slot_ok (length kl) (length (kl @ kr)) pk pn"
    and rest: "rest = il_post kr (map inorder cr) @ rest'" and an: "anc ord t (Suc h) p fs rest'"
    unfolding f anc.simps by blast
  let ?n = "length (kl @ kr)"
  have pkn: "pk < ?n" using sl ne unfolding slot_ok_def by (cases kl; cases kr) auto
  have child: "bkeys x ! xk \<in> set (inorder x)"
    using keys_in_inorder [of x] Cons.prems(2) by (auto simp: nkeys_def)
  note btw = child_between [OF srt [unfolded p] len child]
  have np: "nkeys p = ?n" "bkeys p = kl @ kr" by (simp_all add: p)
  have reads: "c_read (bkeys x) xk = Inr (bkeys x ! xk)" "c_read (bkeys p) pk = Inr ((kl @ kr) ! pk)"
    using Cons.prems(2) pkn by (simp_all add: nkeys_def np)
  have pos: "0 < cmp (bkeys x ! xk) ((kl @ kr) ! pk) \<longleftrightarrow> pk < length kl"
    using btw(1) [of "(kl @ kr) ! pk"] btw(2) [of "(kl @ kr) ! pk"] pkn
    by (cases "pk < length kl") (auto simp: cmp_pos nth_append)
  show ?case
  proof (cases "kr = []")
    case True
    then have "\<not> pk + 1 < nkeys p" "\<not> pn + 1 < nkeys p" "pk < length kl"
      using sl ne by (auto simp: slot_ok_def np)
    then have "toparentrecurse cmp ((x, xk, xn) # f # fs) = toparentrecurse cmp ((p, pk, pn) # fs)"
      using reads pos by (simp add: f Let_def)
    moreover have "rest = rest'" using rest True by simp
    ultimately show ?thesis
      using Cons.IH [OF an, of pk pn] pkn np by (auto simp: f)
  next
    case False
    then have kn: "length kl < ?n" "min (length kl) (?n - 1) = length kl" by (cases kr; simp)+
    define fs' where "fs' = (p, length kl, length kl) # fs"
    have "toparentrecurse cmp ((x, xk, xn) # f # fs) = Inr (fs', False)"
    proof (cases "pk < length kl")
      case True
      then have "Suc pn = length kl" "Suc pk = length kl"
        using sl kn unfolding slot_ok_def by auto
      with reads pos True kn(1) show ?thesis by (simp add: f np Let_def fs'_def)
    next
      case False
      with sl kn have "pn = length kl" "pk = length kl" by (auto simp: slot_ok_def)
      with reads pos False show ?thesis by (simp add: f fs'_def)
    qed
    moreover have "rest \<noteq> []" using rest False len(2) by (cases kr; cases cr) auto
    moreover have "on_slot ord t (Suc h) fs' rest"
      unfolding on_slot_def fs'_def using sh srt kn an rest len by (auto simp: np) (simp add: p)
    ultimately show ?thesis by (auto simp: fs'_def)
  qed
qed

lemma tochild_ok:
  assumes "2 \<le> t" "d \<le> MAX_BTREE_DEPTH" "shape t h x" "t - 1 \<le> nkeys x" "sorted_by ord (inorder x)"
    "anc ord t h x (bln iter) rest" "length (bln iter) + h < d" "length (bln iter) + h + 1 = d"
    "length (bln iter) < num_nodes iter" "num_nodes iter \<le> d"
  shows "\<exists>iter'. tochildrecurse iter x = Inr iter' \<and> finished iter' = finished iter \<and>
     on_slot ord t 0 (bln iter') (inorder x @ rest) \<and> length (bln iter') = d \<and>
     d \<le> num_nodes iter' \<and> num_nodes iter' \<le> d"
  using assms(3-10)
proof (induction h arbitrary: x iter rest)
  case 0
  have "tochildrecurse iter x = Inr (to_child iter x)"
    using 0(1) by (subst tochildrecurse.simps) (simp add: Let_def)
  moreover have "inorder x = bkeys x" using 0(1) by (cases x) simp
  moreover have "0 < nkeys x" using 0(2) assms(1) by simp
  ultimately show ?case
    using 0 by (auto simp: to_child_def on_slot_def)
next
  case (Suc h)
  have len: "length (bkids x) = nkeys x + 1" using Suc.prems(1) by simp
  then obtain s l kr c cr where v: "x = BTN s l kr (c # cr)" "length kr = length cr"
    "inorder x = inorder c @ il_post kr (map inorder cr)" by (rule first_view)
  have l: "l = False" using Suc.prems(1) by (simp add: v(1))
  define it1 where "it1 = to_child iter x"
  have b1: "bln it1 = (x, 0, 0) # bln iter" "num_nodes it1 = num_nodes iter" "finished it1 = finished iter"
    by (simp_all add: it1_def to_child_def)
  obtain it2 where it2: "GET_NEW_CHILD it1 = Inr it2" "bln it2 = bln it1" "finished it2 = finished it1"
    "length (bln it1) < num_nodes it2" "num_nodes it2 \<le> d"
    using get_new_child_ok [of it1 d] Suc.prems(6,7,8) assms(2) b1 by auto
  have krn: "kr \<noteq> []" using Suc.prems(2) assms(1) by (auto simp: v(1))
  have an: "anc ord t h c (bln it2) (il_post kr (map inorder cr) @ rest)"
    unfolding it2(2) b1(1)
    by (rule anc_ConsI [where kl = "[]" and cl = "[]"])
      (use Suc.prems(1,3,4) v(1,2) l krn in \<open>simp_all add: slot_ok_def del: shape.simps inorder.simps\<close>)
  have c: "shape t h c" "t - 1 \<le> nkeys c" "sorted_by ord (inorder c)"
    using Suc.prems(1,3) v(3) by (auto simp: v(1) simp del: inorder.simps)
  have "\<exists>iter'. tochildrecurse it2 c = Inr iter' \<and> finished iter' = finished it2 \<and>
     on_slot ord t 0 (bln iter') (inorder c @ il_post kr (map inorder cr) @ rest) \<and> length (bln iter') = d \<and>
     d \<le> num_nodes iter' \<and> num_nodes iter' \<le> d"
    using Suc.prems(6) it2 b1 by (intro Suc.IH [OF c an]) simp_all
  moreover have "tochildrecurse iter x = tochildrecurse it2 c"
    using it2(1) l by (subst tochildrecurse.simps) (simp add: v(1) it1_def kid_def Let_def)
  ultimately show ?case using it2(3) b1(3) v(3) by auto
qed

lemma on_slot_leaf:
  "on_slot ord t 0 ((x, k, xn) # fs) rest \<longleftrightarrow> shape t 0 x \<and> sorted_by ord (inorder x) \<and> k < nkeys x \<and>
     (\<exists>r. anc ord t 0 x fs r \<and> rest = drop k (bkeys x) @ r)"
  by (auto simp: on_slot_def)

text \<open>One ascending step returns the first entry that is left and moves to the next.\<close>

lemma btNext_asc:
  assumes t: "2 \<le> t" and d: "d \<le> MAX_BTREE_DEPTH" and at: "iter_at ord t d iter (e # es)"
  shows "\<exists>iter'. btNext cmp True iter = Inr (Some e, iter') \<and> iter_at ord t d iter' es"
proof -
  have nf: "\<not> finished iter" using at by (auto simp: iter_at_def)
  then obtain h where os: "on_slot ord t h (bln iter) (e # es)" and lh: "length (bln iter) + h = d"
    and nn: "length (bln iter) \<le> num_nodes iter" "num_nodes iter \<le> d"
    using at by (auto simp: iter_at_def)
  obtain x k xn fs r where b: "bln iter = (x, k, xn) # fs" and x: "shape t h x" "sorted_by ord (inorder x)"
    "k < nkeys x" and an: "anc ord t h x fs r"
    and rest: "h = 0 \<and> e # es = drop k (bkeys x) @ r \<or>
      0 < h \<and> xn = k \<and> e # es = il_post (drop k (bkeys x)) (map inorder (drop (k + 1) (bkids x))) @ r"
    using os by (auto simp: on_slot_def)
  have rd: "c_read (bkeys x) k = Inr (bkeys x ! k)" using x(3) by (simp add: nkeys_def)
  show ?thesis
  proof (cases h)
    case 0
    have dk: "drop k (bkeys x) = bkeys x ! k # drop (k + 1) (bkeys x)"
      using Cons_nth_drop_Suc [of k "bkeys x"] x(3) by (simp add: nkeys_def)
    have lf: "leaf x" and es: "e = bkeys x ! k" "es = drop (k + 1) (bkeys x) @ r"
      using x(1) rest 0 unfolding dk by simp_all
    show ?thesis
    proof (cases "k + 1 < nkeys x")
      case True
      then have "btNext cmp True iter = Inr (Some e, iter\<lparr>bln := (x, k + 1, xn) # fs\<rparr>)"
        using nf b rd lf es(1) by (simp add: btNext_def iter_leaf_def)
      moreover have "iter_at ord t d (iter\<lparr>bln := (x, k + 1, xn) # fs\<rparr>) es"
        using nf nn lh True x an es 0 b by (auto simp: iter_at_def on_slot_leaf intro!: exI [of _ 0])
      ultimately show ?thesis by blast
    next
      case False
      then have esr: "es = r" using es(2) by (simp add: nkeys_def)
      obtain fs' fin where tp: "toparentrecurse cmp ((x, k, xn) # fs) = Inr (fs', fin)" "fs' \<noteq> []"
        "length fs' \<le> Suc (length fs)" "fin \<longleftrightarrow> r = []"
        "r \<noteq> [] \<longrightarrow> (\<exists>h'. on_slot ord t h' fs' r \<and> length fs' + h' = Suc (length fs) + h)"
        using toparent_ok [OF an x(3), of xn] by (elim exE conjE) (rule that)
      have "btNext cmp True iter = Inr (Some e, iter\<lparr>bln := fs', finished := fin\<rparr>)"
        using nf b rd lf es(1) False tp(1) by (simp add: btNext_def iter_leaf_def to_parent_def)
      moreover have "iter_at ord t d (iter\<lparr>bln := fs', finished := fin\<rparr>) es"
        using nn lh tp esr b by (auto simp: iter_at_def)
      ultimately show ?thesis by blast
    qed
  next
    case (Suc h')
    have lf: "\<not> leaf x" and lc: "length (bkids x) = nkeys x + 1" using x(1) Suc by simp_all
    have xn: "xn = k" and es: "e # es = il_post (drop k (bkeys x)) (map inorder (drop (k + 1) (bkids x))) @ r"
      using rest Suc by auto
    have "k + 1 \<le> nkeys x" using x(3) by simp
    then obtain kl kr cl c cr where
      v: "x = BTN (scion x) (leaf x) (kl @ kr) (cl @ c # cr)" "length kl = k + 1" "length cl = k + 1"
      "length kr = length cr" by (rule node_view [OF lc])
    obtain kl0 m where kl: "kl = kl0 @ [m]" "length kl0 = k" using v(2) by (cases kl rule: rev_cases) auto
    obtain s where xe: "x = BTN s False (kl @ kr) (cl @ c # cr)" using v(1) lf by metis
    have bx: "bkeys x = kl @ kr" "bkids x = cl @ c # cr" by (simp_all add: xe)
    have e: "e = m" "es = inorder c @ il_post kr (map inorder cr) @ r" "bkeys x ! k = m"
      using es unfolding bx by (simp_all add: kl v(3) nth_append)
    define k' where "k' = (if k + 1 < nkeys x then k + 1 else k)"
    define it1 where "it1 = iter\<lparr>bln := (x, k', k + 1) # fs\<rparr>"
    have b1: "bln it1 = (x, k', k + 1) # fs" "num_nodes it1 = num_nodes iter" "finished it1 = finished iter"
      by (simp_all add: it1_def)
    obtain it2 where it2: "GET_NEW_CHILD it1 = Inr it2" "bln it2 = bln it1" "finished it2 = finished it1"
      "length (bln it1) < num_nodes it2" "num_nodes it2 \<le> d"
      using get_new_child_ok [of it1 d] d nn lh Suc b b1 by auto
    have c: "shape t h' c" "t - 1 \<le> nkeys c" "sorted_by ord (inorder c)"
      using x(1,2) v(2-4) unfolding xe Suc
      by (simp_all add: inorder_view del: inorder.simps)
    have sl: "slot_ok (length kl) (length (kl @ kr)) k' (k + 1)"
      using v(2) by (cases kr) (auto simp: slot_ok_def k'_def nkeys_def bx)
    have an2: "anc ord t h' c (bln it2) (il_post kr (map inorder cr) @ r)"
      unfolding it2(2) b1(1)
      by (rule anc_ConsI [where kl = kl and cl = cl])
        (use xe v(2-4) x(1,2) an Suc kl sl in \<open>simp_all del: shape.simps inorder.simps\<close>)
    obtain it3 where it3: "tochildrecurse it2 c = Inr it3" "finished it3 = finished it2"
      "on_slot ord t 0 (bln it3) (inorder c @ il_post kr (map inorder cr) @ r)" "length (bln it3) = d"
      "d \<le> num_nodes it3" "num_nodes it3 \<le> d"
      using tochild_ok [OF t d c an2] it2 b1 lh Suc b by auto
    have "kid x (k + 1) = Inr c" using v(3) by (simp add: kid_def bx nth_append)
    then have "btNext cmp True iter = Inr (Some e, it3)"
      using nf b rd lf xn e(1,3) it2(1) it3(1) x(3) by (simp add: btNext_def iter_node_def k'_def it1_def)
    moreover have "iter_at ord t d it3 es"
      using it3 it2(3) b1(3) nf e(2) by (auto simp: iter_at_def intro!: exI [of _ 0])
    ultimately show ?thesis by blast
  qed
qed

end

subsection \<open>The depth of a tree\<close>

lemma sum_list_ge: "(\<And>c. c \<in> set cs \<Longrightarrow> m \<le> f c) \<Longrightarrow> length cs * m \<le> sum_list (map f cs)"
  for m :: nat
  by (induction cs) (auto intro: add_mono)

lemma inorder_size:
  assumes "1 \<le> t" "shape t h x"
  shows "(nkeys x + 1) * t ^ h \<le> length (inorder x) + 1"
  using assms(2)
proof (induction h arbitrary: x)
  case 0
  then show ?case by (cases x) simp
next
  case (Suc h)
  have "t ^ Suc h - 1 \<le> (length \<circ> inorder) c" if "c \<in> set (bkids x)" for c
  proof -
    have c: "shape t h c" "t \<le> nkeys c + 1" using Suc.prems that by auto
    then have "t * t ^ h \<le> (nkeys c + 1) * t ^ h" by (intro mult_le_mono1)
    with Suc.IH [OF c(1)] show ?thesis by simp
  qed
  from sum_list_ge [of "bkids x" "t ^ Suc h - 1" "length \<circ> inorder", OF this] have "(nkeys x + 1) * (t ^ Suc h - 1) \<le> sum_list (map (length \<circ> inorder) (bkids x))"
    using Suc.prems by simp
  then have "nkeys x + (nkeys x + 1) * (t ^ Suc h - 1) \<le> length (inorder x)"
    using length_inorder [of x] by simp
  moreover have "0 < t ^ Suc h" using assms(1) by simp
  ultimately show ?case by (cases "t ^ Suc h") simp_all
qed

text \<open>
  The block array never runs out: a well-formed tree has at most \<^verbatim>\<open>MAX_BTREE_DEPTH\<close> levels.
\<close>

lemma bt_wf_depth:
  assumes "bt_wf ord b"
  shows "bheight (bt_root b) \<le> MAX_BTREE_DEPTH"
proof (rule ccontr)
  assume "\<not> bheight (bt_root b) \<le> MAX_BTREE_DEPTH"
  obtain h where h: "2 \<le> bt_t b" "shape (bt_t b) h (bt_root b)" "bheight (bt_root b) = Suc h"
    "leaf (bt_root b) \<or> 0 < nkeys (bt_root b)"
    using bt_wf_dest [OF assms] by metis
  then have "16 \<le> h" using \<open>\<not> bheight (bt_root b) \<le> MAX_BTREE_DEPTH\<close> by (simp add: MAX_BTREE_DEPTH_def)
  then have "\<not> leaf (bt_root b)" using h(2) by (cases h) auto
  have t4: "4 \<le> bt_t b" using assms by (auto simp: bt_wf_def bt_geometry_def)
  have "(4::nat) ^ 16 \<le> 4 ^ h" using \<open>16 \<le> h\<close> by (intro power_increasing) simp_all
  also have "\<dots> \<le> bt_t b ^ h" using t4 by (intro power_mono) simp_all
  also have "\<dots> \<le> (nkeys (bt_root b) + 1) * bt_t b ^ h" by simp
  also have "\<dots> \<le> length (inorder (bt_root b)) + 1" using h(1,2) by (intro inorder_size) simp_all
  also have "\<dots> \<le> 2 ^ 32" using assms by (simp add: bt_wf_def)
  finally have "(4::nat) ^ 16 \<le> 2 ^ 32" .
  moreover have "(4::nat) ^ 16 * 2 \<le> (nkeys (bt_root b) + 1) * bt_t b ^ h"
  proof -
    have "(4::nat) ^ 16 \<le> bt_t b ^ h"
      using power_increasing [OF \<open>16 \<le> h\<close>, of "4::nat"] power_mono [OF t4, of h] by linarith
    moreover have "2 \<le> nkeys (bt_root b) + 1" using h(4) \<open>\<not> leaf (bt_root b)\<close> by simp
    ultimately show ?thesis using mult_le_mono [of 2 "nkeys (bt_root b) + 1" "4 ^ 16" "bt_t b ^ h"] by simp
  qed
  ultimately show False
    using inorder_size [of "bt_t b" h "bt_root b"] h(1,2) assms by (simp add: bt_wf_def)
qed

subsection \<open>Positioning an iterator\<close>

lemma dropWhile_mid:
  assumes "\<And>e. e \<in> set us \<Longrightarrow> ord e < ord k" and "\<And>e. e \<in> set vs \<Longrightarrow> \<not> ord e < (ord k :: 'o::linorder)"
  shows "dropWhile (\<lambda>e. ord e < ord k) (us @ ms @ vs) = dropWhile (\<lambda>e. ord e < ord k) ms @ vs"
proof -
  have "dropWhile (\<lambda>e. ord e < ord k) (ms @ vs) = dropWhile (\<lambda>e. ord e < ord k) ms @ vs"
    using assms(2) by (induction ms) (auto simp: dropWhile_eq_self_iff)
  moreover have "dropWhile (\<lambda>e. ord e < ord k) (us @ ms @ vs) = dropWhile (\<lambda>e. ord e < ord k) (ms @ vs)"
    using assms(1) by (intro dropWhile_append2) simp
  ultimately show ?thesis by simp
qed

lemma key_pos_sides:
  assumes "sorted_by ord ks"
  shows "e \<in> set (take (key_pos ord ks k) ks) \<Longrightarrow> ord e \<le> ord k"
    and "e \<in> set (drop (key_pos ord ks k) ks) \<Longrightarrow> ord k < ord e"
proof -
  let ?P = "\<lambda>e. ord e \<le> ord k"
  show "e \<in> set (take (key_pos ord ks k) ks) \<Longrightarrow> ord e \<le> ord k"
    unfolding takeWhile_key_pos(1) [symmetric] by (auto dest: set_takeWhileD)
  assume "e \<in> set (drop (key_pos ord ks k) ks)"
  then have e: "e \<in> set (dropWhile ?P ks)" unfolding takeWhile_key_pos(2) .
  then have "dropWhile ?P ks \<noteq> []"
    by (cases "dropWhile ?P ks") (simp_all del: dropWhile_eq_Nil_conv)
  then have "\<not> ?P (hd (dropWhile ?P ks))" by (rule hd_dropWhile)
  moreover have "sorted_by ord (dropWhile ?P ks)"
    using assms takeWhile_dropWhile_id [of ?P ks] by (metis sorted_by_simps(3))
  then have "ord (hd (dropWhile ?P ks)) \<le> ord e"
    using e by (cases "dropWhile ?P ks") (auto intro: less_imp_le)
  ultimately show "ord k < ord e" by simp
qed

lemma dropWhile_pos_found:
  assumes "sorted_by ord ks" "p = key_pos ord ks k" "0 < p" "ord (ks ! (p - 1)) = ord k"
  shows "dropWhile (\<lambda>e. ord e < ord k) ks = drop (p - 1) ks"
proof -
  have p: "p - 1 < length ks" using assms(2,3) key_pos_le [of ord ks k] by simp
  have ks: "ks = take (p - 1) ks @ [ks ! (p - 1)] @ drop p ks"
    using id_take_nth_drop [OF p] assms(3) by simp
  have srt: "sorted_by ord (take (p - 1) ks @ [ks ! (p - 1)] @ drop p ks)" using assms(1) ks by simp
  have "dropWhile (\<lambda>e. ord e < ord k) (take (p - 1) ks @ [ks ! (p - 1)] @ drop p ks) =
      dropWhile (\<lambda>e. ord e < ord k) [ks ! (p - 1)] @ drop p ks"
    by (rule dropWhile_mid) (use srt assms(4) in \<open>auto dest: order_less_asym\<close>)
  also have "\<dots> = drop (p - 1) ks" using assms(3,4) Cons_nth_drop_Suc [OF p] by simp
  finally show ?thesis using ks by simp
qed

lemma dropWhile_pos_absent:
  assumes "sorted_by ord ks" "p = key_pos ord ks k" "\<And>e. e \<in> set ks \<Longrightarrow> ord e \<noteq> ord k"
  shows "dropWhile (\<lambda>e. ord e < ord k) ks = drop p ks"
proof -
  have "dropWhile (\<lambda>e. ord e < ord k) (take p ks @ [] @ drop p ks) = dropWhile (\<lambda>e. ord e < ord k) [] @ drop p ks"
  proof (rule dropWhile_mid)
    fix e
    assume e: "e \<in> set (take p ks)"
    then have "ord e \<le> ord k" unfolding assms(2) by (rule key_pos_sides(1) [OF assms(1)])
    moreover have "ord e \<noteq> ord k" using assms(3) e by (blast dest: in_set_takeD)
    ultimately show "ord e < ord k" by simp
  next
    fix e
    assume "e \<in> set (drop p ks)"
    then have "ord k < ord e" unfolding assms(2) by (rule key_pos_sides(2) [OF assms(1)])
    then show "\<not> ord e < ord k" by simp
  qed
  then show ?thesis by simp
qed

text \<open>
  Where an iterator stands after \<^verbatim>\<open>bt_init_iterator\<close>: at the first entry not below the search key, or at the entry
  just before it.
\<close>

definition init_post :: "('k \<Rightarrow> 'o::linorder) \<Rightarrow> nat \<Rightarrow> nat \<Rightarrow> 'k \<Rightarrow> 'k list \<Rightarrow> 'k list \<Rightarrow> bool \<Rightarrow>
    ii_ret \<times> 'k btIterator \<Rightarrow> bool" where
  "init_post ord t d k xs rest onr r \<longleftrightarrow> (case r of (ret, iter) \<Rightarrow> \<exists>c.
     (c = [] \<or> (\<exists>e. c = [e] \<and> ord e < ord k \<and> ret \<noteq> II_OK)) \<and>
     c @ dropWhile (\<lambda>e. ord e < ord k) xs @ rest \<noteq> [] \<and> \<not> finished iter \<and>
     iter_at ord t d iter (c @ dropWhile (\<lambda>e. ord e < ord k) xs @ rest) \<and>
     (ret = II_ONLY_RIGHT \<longrightarrow> onr \<and> dropWhile (\<lambda>e. ord e < ord k) xs = []))"

lemma iter_at_read:
  assumes "iter_at ord t d iter (e # es)"
  shows "\<exists>x xk xn fs. bln iter = (x, xk, xn) # fs \<and> c_read (bkeys x) xk = Inr e"
proof -
  obtain h where "on_slot ord t h (bln iter) (e # es)"
    using assms by (auto simp: iter_at_def split: if_splits)
  then obtain x k xn fs r where b: "bln iter = (x, k, xn) # fs" "shape t h x" "k < nkeys x"
    and rest: "h = 0 \<and> e # es = drop k (bkeys x) @ r \<or>
      0 < h \<and> e # es = il_post (drop k (bkeys x)) (map inorder (drop (k + 1) (bkids x))) @ r"
    by (auto simp: on_slot_def)
  have dk: "drop k (bkeys x) = bkeys x ! k # drop (k + 1) (bkeys x)"
    using Cons_nth_drop_Suc [of k "bkeys x"] b(3) by (simp add: nkeys_def)
  have "e = bkeys x ! k"
  proof (cases h)
    case 0
    with rest show ?thesis unfolding dk by simp
  next
    case (Suc h')
    then have "k + 1 < length (bkids x)" using b(2,3) by simp
    then have "drop (k + 1) (bkids x) = bkids x ! (k + 1) # drop (k + 2) (bkids x)"
      using Cons_nth_drop_Suc [of "k + 1" "bkids x"] by simp
    with rest Suc show ?thesis unfolding dk by simp
  qed
  with b show ?thesis by (auto simp: nkeys_def)
qed

context bt_order
begin

lemma findkindex_some:
  assumes "sorted_by ord ks" "nbits = 2 ^ Suc m'" "length ks \<le> 2 ^ nbits" "ks \<noteq> []"
  shows "\<exists>r. findkindex cmp nbits ks k = (int (key_pos ord ks k) - 1, Some r) \<and>
    (r = 0 \<longleftrightarrow> 0 < key_pos ord ks k \<and> ord (ks ! (key_pos ord ks k - 1)) = ord k)"
proof -
  obtain r where "snd (findkindex cmp nbits ks k) = Some r"
    using assms(4) by (auto simp: findkindex_def Let_def)
  with findkindex_pos [OF assms(1-3), of k] show ?thesis by (metis option.inject prod.collapse)
qed

lemma init_leaf:
  assumes w: "nbits = 2 ^ Suc m'" and b: "nkeys x \<le> 2 ^ nbits" and d: "length (bln iter) = d"
    and nn: "num_nodes iter = length (bln iter)" "\<not> finished iter"
    and x: "shape t 0 x" "0 < nkeys x" "sorted_by ord (inorder x)"
    and bl: "bln iter = (x, k0, n0) # fs" and an: "anc ord t 0 x fs rest"
  shows "\<exists>r. bt_init_iterator_loop cmp nbits k iter x r0 onr = Inr r \<and>
     init_post ord t d k (inorder x) rest onr r"
proof -
  obtain s ks where xe: "x = BTN s True ks []" using x(1) by (cases x) auto
  have ks: "sorted_by ord ks" "length ks \<le> 2 ^ nbits" "ks \<noteq> []" using x b by (auto simp: xe)
  define p where "p = key_pos ord ks k"
  obtain r where r: "findkindex cmp nbits ks k = (int p - 1, Some r)"
    "r = 0 \<longleftrightarrow> 0 < p \<and> ord (ks ! (p - 1)) = ord k"
    using findkindex_some [OF ks(1) w ks(2,3), of k] unfolding p_def by blast
  have p1: "p - 1 < length ks" using ks(3) key_pos_le [of ord ks k] by (cases p) (auto simp: p_def)
  define it where "it = iter\<lparr>bln := (x, p - 1, p - 1) # fs\<rparr>"
  have at: "iter_at ord t d it (drop (p - 1) ks @ rest)"
    using nn d bl x p1 an by (auto simp: iter_at_def it_def on_slot_leaf xe intro!: exI [of _ 0])
  have fin: "\<not> finished it" using nn by (simp add: it_def)
  have ne: "drop (p - 1) ks \<noteq> []" using p1 by simp
  define ret where "ret = (if r = 0 \<and> 0 < p then II_OK
     else if onr \<and> \<not> (r < 0 \<or> p \<noteq> length ks) then II_ONLY_RIGHT else II_LEAF_EXIT)"
  have run: "bt_init_iterator_loop cmp nbits k iter x r0 onr = Inr (ret, it)"
    using r(1) ks(3) bl by (subst bt_init_iterator_loop.simps)
      (auto simp: xe it_def ret_def Let_def nat_diff_distrib)
  show ?thesis
  proof (cases "r = 0")
    case True
    then have "dropWhile (\<lambda>e. ord e < ord k) ks = drop (p - 1) ks"
      using dropWhile_pos_found [OF ks(1) p_def] r(2) by simp
    with True at fin ne r(2) run show ?thesis
      by (auto simp: init_post_def ret_def xe intro!: exI [of _ "[]"])
  next
    case False
    then have dw: "dropWhile (\<lambda>e. ord e < ord k) ks = drop p ks"
      using dropWhile_pos_absent [OF ks(1) p_def] r(2) leaf_search(1) [OF ks(1), of k]
      unfolding p_def by blast
    show ?thesis
    proof (cases "p = 0")
      case True
      with at fin ne dw run False show ?thesis
        by (auto simp: init_post_def ret_def xe intro!: exI [of _ "[]"])
    next
      case pos: False
      have dp: "drop (p - 1) ks = ks ! (p - 1) # drop p ks"
        using Cons_nth_drop_Suc [OF p1] pos by simp
      have "ks ! (p - 1) \<in> set (take p ks)"
        using pos p1 by (auto simp: in_set_conv_nth intro!: exI [of _ "p - 1"])
      then have "ord (ks ! (p - 1)) \<le> ord k"
        unfolding p_def by (rule key_pos_sides(1) [OF ks(1)])
      then have "ord (ks ! (p - 1)) < ord k" using r(2) pos False by auto
      with at fin dp dw run False show ?thesis
        by (auto simp: init_post_def ret_def xe intro!: exI [of _ "[ks ! (p - 1)]"])
    qed
  qed
qed

lemma init_ok:
  assumes w: "nbits = 2 ^ Suc m'" and b: "GETN t \<le> 2 ^ nbits" and t: "2 \<le> t" and dd: "d \<le> MAX_BTREE_DEPTH"
    and "nkeys x \<le> GETN t" "length (bln iter) + h = d" "num_nodes iter = length (bln iter)" "\<not> finished iter"
    and "shape t h x" "0 < nkeys x" "sorted_by ord (inorder x)"
    and "bln iter = (x, k0, n0) # fs" "anc ord t h x fs rest" "\<And>e. e \<in> set rest \<Longrightarrow> ord k < ord e"
  shows "\<exists>r. bt_init_iterator_loop cmp nbits k iter x r0 onr = Inr r \<and>
     init_post ord t d k (inorder x) rest onr r"
  using assms(5-14)
proof (induction h arbitrary: x iter k0 n0 fs rest r0 onr)
  case 0
  then show ?case using b by (intro init_leaf [OF w]) auto
next
  case (Suc h)
  have nk: "nkeys x \<le> 2 ^ nbits" using Suc.prems(1) b by simp
  obtain s kl kr cl c cr r' where v: "x = BTN s False (kl @ kr) (cl @ c # cr)"
    "length cl = length kl" "length kr = length cr"
    "findkindex cmp nbits (kl @ kr) k = (int (length kl) - 1, r')"
    "r' = Some 0 \<longleftrightarrow> kl \<noteq> [] \<and> ord (last kl) = ord k"
    "\<And>e. r' \<noteq> Some 0 \<Longrightarrow> e \<in> set (il_pre (map inorder cl) kl) \<Longrightarrow> ord e < ord k"
    "\<And>e. e \<in> set (il_post kr (map inorder cr)) \<Longrightarrow> ord k < ord e"
    using descend_view [OF w Suc.prems(5) nk Suc.prems(7), of k] by blast
  have io: "inorder x = il_pre (map inorder cl) kl @ inorder c @ il_post kr (map inorder cr)"
    unfolding v(1) by (rule inorder_view [OF v(2,3)])
  have ne: "kl @ kr \<noteq> []" using Suc.prems(6) by (auto simp: v(1))
  obtain r where r': "r' = Some r"
    using v(4) ne by (auto simp: findkindex_def Let_def)
  define k1 where "k1 = length kl - 1"
  have k1: "nat (int (length kl) - 1) = k1" by (simp add: k1_def)
  define it1 where "it1 = iter\<lparr>bln := (x, k1, k1) # fs\<rparr>"
  show ?case
  proof (cases "r = 0")
    case True
    then have kl: "kl \<noteq> []" "ord (last kl) = ord k" using v(5) r' by auto
    then obtain kl0 m where klm: "kl = kl0 @ [m]" by (cases kl rule: rev_cases) auto
    obtain cl0 y where cly: "cl = cl0 @ [y]" using v(2) klm by (cases cl rule: rev_cases) auto
    have l0: "length cl0 = length kl0" using v(2) klm cly by simp
    have mk: "ord m = ord k" using kl(2) klm by simp
    have io2: "inorder x = (il_pre (map inorder cl0) kl0 @ inorder y) @ [m] @ (inorder c @ il_post kr (map inorder cr))"
      unfolding io klm cly using l0 by simp
    have dw: "dropWhile (\<lambda>e. ord e < ord k) (inorder x) = m # inorder c @ il_post kr (map inorder cr)"
      unfolding io2 by (subst dropWhile_mid)
        (use Suc.prems(7) mk in \<open>auto simp: io2 dest: order_less_asym\<close>)
    have "on_slot ord t (Suc h) (bln it1) (m # inorder c @ il_post kr (map inorder cr) @ rest)"
      unfolding on_slot_def using Suc.prems(5,7,9) l0 klm cly v(3)
      by (auto simp: it1_def k1_def v(1) simp del: inorder.simps shape.simps)
    then have at: "iter_at ord t d it1 (dropWhile (\<lambda>e. ord e < ord k) (inorder x) @ rest)"
      using Suc.prems(2-4,8) unfolding dw by (auto simp: iter_at_def it1_def)
    have "bt_init_iterator_loop cmp nbits k iter x r0 onr = Inr (II_OK, it1)"
      using v(4) r' True ne kl(1) Suc.prems(8) k1
      by (subst bt_init_iterator_loop.simps) (auto simp: v(1) it1_def Let_def Suc_le_eq)
    with at Suc.prems(4) dw show ?thesis by (auto simp: init_post_def it1_def intro!: exI [of _ "[]"])
  next
    case False
    then have r0: "r' \<noteq> Some 0" using r' by simp
    have sl: "slot_ok (length kl) (length (kl @ kr)) k1 k1"
      by (cases kl) (simp_all add: slot_ok_def k1_def)
    have c: "shape t h c" "nkeys c \<le> GETN t" "0 < nkeys c" "sorted_by ord (inorder c)"
      using Suc.prems(5,7) t unfolding io by (auto simp: v(1))
    define it2 where "it2 = iter\<lparr>num_nodes := num_nodes iter + 1, bln := (c, 0, 0) # (x, k1, k1) # fs\<rparr>"
    have an: "anc ord t h c ((x, k1, k1) # fs) (il_post kr (map inorder cr) @ rest)"
      by (rule anc_ConsI [where kl = kl and cl = cl])
        (use v(1-3) ne sl Suc.prems(5,7,9) in \<open>simp_all del: shape.simps inorder.simps\<close>)
    define onr' where "onr' = (onr \<and> \<not> (r < 0 \<or> kr \<noteq> []))"
    have gt: "ord k < ord e" if "e \<in> set (il_post kr (map inorder cr) @ rest)" for e
      using that v(7) Suc.prems(10) by auto
    have "\<exists>q. bt_init_iterator_loop cmp nbits k it2 c r onr' = Inr q \<and>
        init_post ord t d k (inorder c) (il_post kr (map inorder cr) @ rest) onr' q"
      by (rule Suc.IH [OF c(2) _ _ _ c(1,3,4) _ an gt]) (use Suc.prems(2-4,8) in \<open>simp_all add: it2_def\<close>)
    then obtain q where q: "bt_init_iterator_loop cmp nbits k it2 c r onr' = Inr q"
      "init_post ord t d k (inorder c) (il_post kr (map inorder cr) @ rest) onr' q" by blast
    have "dropWhile (\<lambda>e. ord e < ord k) (inorder x) =
        dropWhile (\<lambda>e. ord e < ord k) (inorder c) @ il_post kr (map inorder cr)"
      unfolding io by (rule dropWhile_mid) (use v(6) [OF r0] v(7) in \<open>auto dest: order_less_asym\<close>)
    with q(2) have post: "init_post ord t d k (inorder x) rest onr q"
      by (auto simp: init_post_def onr'_def split: prod.splits)
    have lt: "num_nodes iter < MAX_BTREE_DEPTH" using Suc.prems(2,3) dd by simp
    have "(kl = [] \<and> kr = []) = False" using ne by simp
    then have "bt_init_iterator_loop cmp nbits k iter x r0 onr = bt_init_iterator_loop cmp nbits k it2 c r onr'"
      using v(2,4) r' False Suc.prems(8) k1 lt
      by (subst bt_init_iterator_loop.simps)
        (auto simp: v(1) it2_def onr'_def Let_def get_new_iter_child_def to_child_def)
    with q(1) post show ?thesis by simp
  qed
qed

text \<open>\<^verbatim>\<open>setIter\<close> of an ascending iterator: the first entry not below the bound comes next.\<close>

lemma setIter_asc:
  fixes k
  assumes wf: "bt_wf ord b" and ne: "inorder (bt_root b) \<noteq> []"
  defines "ys \<equiv> dropWhile (\<lambda>e. ord e < ord k) (inorder (bt_root b))"
  shows "\<exists>e empty iter. setIter cmp b k True (init_iter b) = Inr (e, empty, iter) \<and>
     (ys = [] \<longrightarrow> e = None \<and> empty \<or> e \<noteq> None \<and> \<not> empty \<and> iter_at ord (bt_t b) (bheight (bt_root b)) iter []) \<and>
     (ys \<noteq> [] \<longrightarrow> e \<noteq> None \<and> \<not> empty \<and> iter_at ord (bt_t b) (bheight (bt_root b)) iter ys)"
proof -
  obtain h m where d: "bt_nbits b = 2 ^ Suc m" "2 \<le> bt_t b" "GETN (bt_t b) \<le> 2 ^ bt_nbits b"
    "shape (bt_t b) h (bt_root b)" "nkeys (bt_root b) \<le> GETN (bt_t b)"
    "sorted_by ord (inorder (bt_root b))" "bheight (bt_root b) = Suc h" "leaf (bt_root b) \<or> 0 < nkeys (bt_root b)"
    using bt_wf_dest [OF wf] by metis
  have nz: "0 < nkeys (bt_root b)"
    using d(4,8) ne by (cases h; cases "bt_root b") auto
  have dd: "Suc h \<le> MAX_BTREE_DEPTH" using bt_wf_depth [OF wf] d(7) by simp
  obtain r where r: "bt_init_iterator cmp b k (init_iter b) = Inr r"
    "init_post ord (bt_t b) (Suc h) k (inorder (bt_root b)) [] True r"
    using init_ok [OF d(1,3,2) dd d(5), of "init_iter b" h 0 0 "[]" "[]" k "- 1" True] d(4,6) nz
    by (auto simp: bt_init_iterator_def init_iter_def)
  obtain ret it where rr: "r = (ret, it)" by (cases r)
  obtain c where c: "c = [] \<or> (\<exists>e. c = [e] \<and> ord e < ord k \<and> ret \<noteq> II_OK)" "c @ ys \<noteq> []"
    "iter_at ord (bt_t b) (Suc h) it (c @ ys)" "ret = II_ONLY_RIGHT \<longrightarrow> ys = []"
    using r(2) by (auto simp: init_post_def rr ys_def)
  obtain e es where ces: "c @ ys = e # es" using c(2) by (cases "c @ ys") auto
  obtain x xk xn fs where top: "bln it = (x, xk, xn) # fs" "c_read (bkeys x) xk = Inr e"
    using iter_at_read [OF c(3) [unfolded ces]] by blast
  have set: "setIter cmp b k True (init_iter b) =
      (if ret \<noteq> II_OK \<and> cmp k e > 0 then
         if ret = II_ONLY_RIGHT then Inr (None, True, it)
         else c_bind (btNext cmp True it) (\<lambda>(e, iter). Inr (e, False, iter))
       else Inr (Some e, False, it))"
    using r(1) top by (simp add: setIter_def rr)
  show ?thesis
  proof (cases c)
    case Nil
    then have "ys = e # es" using ces by simp
    then have "\<not> ord e < ord k" unfolding ys_def by (metis dropWhile_eq_Cons_conv)
    then have "setIter cmp b k True (init_iter b) = Inr (Some e, False, it)"
      using set by (simp add: cmp_pos)
    with c(3) Nil \<open>ys = e # es\<close> d(7) show ?thesis by auto
  next
    case (Cons e' c')
    then have ee: "c = [e]" "ord e < ord k" "ret \<noteq> II_OK" "es = ys" using c(1) ces by auto
    then have gt: "cmp k e > 0" by (simp add: cmp_pos)
    obtain it' where it': "btNext cmp True it = Inr (Some e, it')" "iter_at ord (bt_t b) (Suc h) it' ys"
      using btNext_asc [OF d(2) dd, of it e ys] c(3) ces ee(4) by auto
    show ?thesis
    proof (cases "ret = II_ONLY_RIGHT")
      case True
      with set gt c(4) show ?thesis by auto
    next
      case False
      with set gt ee(3) it' d(7) show ?thesis by auto
    qed
  qed
qed

lemma on_slot_nonempty: "on_slot ord t h fs rest \<Longrightarrow> rest \<noteq> []"
proof -
  assume "on_slot ord t h fs rest"
  then obtain x k r where x: "shape t h x" "k < nkeys x"
    and rest: "h = 0 \<and> rest = drop k (bkeys x) @ r \<or>
      0 < h \<and> rest = il_post (drop k (bkeys x)) (map inorder (drop (k + 1) (bkids x))) @ r"
    by (auto simp: on_slot_def)
  have "drop k (bkeys x) \<noteq> []" using x(2) by (simp add: nkeys_def)
  moreover have "0 < h \<Longrightarrow> drop (k + 1) (bkids x) \<noteq> []" using x by (cases h) auto
  ultimately show ?thesis
    using rest by (cases "drop k (bkeys x)"; cases "drop (k + 1) (bkids x)") auto
qed

lemma range_loop_finished:
  "finished (siter_x si) \<Longrightarrow> 0 < fuel \<Longrightarrow> range_loop cmp num asc fuel si = Inr (Some [])"
  by (cases fuel) (simp_all add: btRangeNext_def btNext_def)

lemma range_loop_asc:
  assumes t: "2 \<le> t" and d: "d \<le> MAX_BTREE_DEPTH"
    and num: "\<And>a b. num a < num b \<longleftrightarrow> ord a < ord b"
    and "iter_at ord t d (siter_x si) ys" "\<not> siter_empty si" "sorted_by ord ys" "length ys < fuel"
  shows "range_loop cmp num True fuel si = Inr (Some (takeWhile (\<lambda>e. num e \<le> siter_high si) ys))"
  using assms(4-7)
proof (induction ys arbitrary: si fuel)
  case Nil
  then have "finished (siter_x si)"
    using on_slot_nonempty by (auto simp: iter_at_def split: if_splits)
  with Nil show ?case by (simp add: range_loop_finished)
next
  case (Cons e ys)
  obtain f where f: "fuel = Suc f" "length ys < f" "0 < f" using Cons.prems(4) by (cases fuel) auto
  obtain it' where it': "btNext cmp True (siter_x si) = Inr (Some e, it')" "iter_at ord t d it' ys"
    using btNext_asc [OF t d Cons.prems(1)] by blast
  have gt: "num e < num a" if "a \<in> set ys" for a using Cons.prems(3) that num by auto
  consider "num e > siter_high si" | "num e = siter_high si" | "num e < siter_high si" by fastforce
  then show ?case
  proof cases
    case 1
    with it'(1) Cons.prems(2) show ?thesis by (simp add: f(1) btRangeNext_def)
  next
    case 2
    let ?si = "si\<lparr>siter_x := it'\<lparr>finished := True\<rparr>\<rparr>"
    have "range_loop cmp num True f ?si = Inr (Some [])" using f(3) by (intro range_loop_finished) simp_all
    moreover have "takeWhile (\<lambda>e. num e \<le> siter_high si) ys = []"
      using gt [of "hd ys"] 2 by (cases ys) (auto simp: not_le)
    ultimately show ?thesis
      using it'(1) Cons.prems(2) 2 by (simp add: f(1) btRangeNext_def)
  next
    case 3
    let ?si = "si\<lparr>siter_x := it'\<rparr>"
    have "range_loop cmp num True f ?si = Inr (Some (takeWhile (\<lambda>e. num e \<le> siter_high si) ys))"
      using Cons.IH [of ?si f] it'(2) Cons.prems(2,3) f(2) by simp
    moreover have "\<not> siter_high si < num e" "num e \<noteq> siter_high si" using 3 by auto
    ultimately show ?thesis using it'(1) Cons.prems(2) 3
      by (simp add: f(1) btRangeNext_def order_less_imp_le Let_def)
  qed
qed

lemma bt_range_asc:
  fixes lo hi :: 'e
  assumes wf: "bt_wf ord b" and num: "\<And>a b. num a < num b \<longleftrightarrow> ord a < ord b"
    and which: "which < MAX_NUM_ITERS"
  defines "ys \<equiv> dropWhile (\<lambda>e. ord e < ord lo) (inorder (bt_root b))"
  shows "\<exists>w si. btGetRangeIter cmp num which b lo hi True = Inr (w, si) \<and>
     (case si of None \<Rightarrow> ys = []
      | Some s \<Rightarrow> \<forall>fuel > length ys. range_loop cmp num True fuel s = Inr (Some (takeWhile (\<lambda>e. num e \<le> num hi) ys)))"
proof (cases "inorder (bt_root b) = []")
  case True
  then have "bt_numkeys b = 0" using wf by (simp add: bt_wf_def)
  with True show ?thesis by (simp add: btGetRangeIter_def ys_def)
next
  case False
  have srt: "sorted_by ord ys"
    using wf takeWhile_dropWhile_id [of "\<lambda>e. ord e < ord lo" "inorder (bt_root b)"]
    unfolding bt_wf_def ys_def by (metis sorted_by_simps(3))
  have "unat (of_nat (length (inorder (bt_root b))) :: uint32) = length (inorder (bt_root b))"
    using wf by (simp add: bt_wf_def unat_of_nat)
  then have nz: "bt_numkeys b \<noteq> 0" using wf False by (metis bt_wf_def length_0_conv unat_eq_zero)
  have t: "2 \<le> bt_t b" "bheight (bt_root b) \<le> MAX_BTREE_DEPTH"
    using bt_wf_dest [OF wf] bt_wf_depth [OF wf] by metis+
  obtain e empty iter where st: "setIter cmp b lo True (init_iter b) = Inr (e, empty, iter)"
    "ys = [] \<longrightarrow> e = None \<and> empty \<or> e \<noteq> None \<and> \<not> empty \<and> iter_at ord (bt_t b) (bheight (bt_root b)) iter []"
    "ys \<noteq> [] \<longrightarrow> e \<noteq> None \<and> \<not> empty \<and> iter_at ord (bt_t b) (bheight (bt_root b)) iter ys"
    using setIter_asc [OF wf False, of lo] unfolding ys_def by blast
  have run: "btGetRangeIter cmp num which b lo hi True = Inr (which + 1, if e = None then None
      else Some \<lparr>siter_x = iter, siter_empty = empty, siter_high = num hi\<rparr>)"
    using nz which st(1) by (simp add: btGetRangeIter_def createIterator_def Let_def)
  show ?thesis
  proof (cases e)
    case None
    with st run show ?thesis by auto
  next
    case (Some x)
    then have "\<not> empty" "iter_at ord (bt_t b) (bheight (bt_root b)) iter ys" using st by auto
    then have "range_loop cmp num True fuel \<lparr>siter_x = iter, siter_empty = empty, siter_high = num hi\<rparr> =
        Inr (Some (takeWhile (\<lambda>e. num e \<le> num hi) ys))" if "length ys < fuel" for fuel
      using range_loop_asc [OF t num, of "\<lparr>siter_x = iter, siter_empty = empty, siter_high = num hi\<rparr>" ys fuel]
        srt that by simp
    with run Some show ?thesis by simp
  qed
qed

end

subsection \<open>Properties of the range iterators\<close>

definition int_num :: "byte list \<Rightarrow> ulong" where
  "int_num s = ucast (key_or_0 (streamIntToUInt s))"

lemma int_num_less: "int_num a < int_num b \<longleftrightarrow> key_or_0 (streamIntToUInt a) < key_or_0 (streamIntToUInt b)"
  by (simp add: int_num_def word_less_nat_alt unat_ucast_uint32)

text \<open>
  C11. An ascending range query over a well-formed index whose keys are numbers. \<^verbatim>\<open>btGetRangeIter\<close> returns, taking
  at most one iterator slot; without an iterator no entry of the tree reaches the lower bound, and with one the
  loop of \<^verbatim>\<open>btRangeNext\<close> ends and has visited, in order, exactly the entries from the first one not below the
  lower bound up to the last one not above the upper bound.
\<close>

theorem bt_range_correct:
  fixes lo hi :: 'k
  assumes "bt_order cmp ord" and "bt_wf ord b" and "\<And>a b. num a < num b \<longleftrightarrow> ord a < ord b"
    and "which < MAX_NUM_ITERS"
  shows "\<exists>w si. btGetRangeIter cmp num which b lo hi True = Inr (w, si) \<and>
     (case si of
        None \<Rightarrow> \<forall>e \<in> set (inorder (bt_root b)). ord e < ord lo
      | Some s \<Rightarrow> \<forall>fuel > length (inorder (bt_root b)). range_loop cmp num True fuel s =
          Inr (Some (takeWhile (\<lambda>e. num e \<le> num hi) (dropWhile (\<lambda>e. ord e < ord lo) (inorder (bt_root b))))))"
proof -
  let ?ys = "dropWhile (\<lambda>e. ord e < ord lo) (inorder (bt_root b))"
  obtain w si where q: "btGetRangeIter cmp num which b lo hi True = Inr (w, si)"
    "case si of None \<Rightarrow> ?ys = [] | Some s \<Rightarrow> \<forall>fuel > length ?ys. range_loop cmp num True fuel s =
       Inr (Some (takeWhile (\<lambda>e. num e \<le> num hi) ?ys))"
    using bt_order.bt_range_asc [OF assms(1,2) _ assms(4), of num lo hi] assms(3) by blast
  have "length ?ys \<le> length (inorder (bt_root b))" by (rule length_dropWhile_le)
  with q show ?thesis by (cases si) (auto simp: dropWhile_eq_Nil_conv)
qed


theorem bt_range_correct_witness:
  "\<exists>w si. btGetRangeIter btIntCmp int_num 0 demo_rows [7] [13] True = Inr (w, si) \<and>
     (case si of
        None \<Rightarrow> \<forall>e \<in> set (inorder (bt_root demo_rows)). key_or_0 (streamIntToUInt e) < key_or_0 (streamIntToUInt [7])
      | Some s \<Rightarrow> \<forall>fuel > length (inorder (bt_root demo_rows)). range_loop btIntCmp int_num True fuel s =
          Inr (Some (takeWhile (\<lambda>e. int_num e \<le> int_num [13])
            (dropWhile (\<lambda>e. key_or_0 (streamIntToUInt e) < key_or_0 (streamIntToUInt [7])) (inorder (bt_root demo_rows))))))"
  by (rule bt_range_correct [OF int_stream_order.bt_order_axioms demo_rows_wf(1) int_num_less])
    (simp add: MAX_NUM_ITERS_def)

text \<open>
  The fixed array of iterator blocks is long enough: a well-formed tree, whose entries a 32-bit counter
  counts, has at most \<^verbatim>\<open>MAX_BTREE_DEPTH\<close> levels.
\<close>

theorem bt_depth_bound: "bt_wf ord b \<Longrightarrow> bheight (bt_root b) \<le> MAX_BTREE_DEPTH"
  by (rule bt_wf_depth)

theorem bt_depth_bound_witness: "bheight (bt_root demo_tree) \<le> MAX_BTREE_DEPTH"
  by (rule bt_depth_bound [OF demo_tree_wf(1)])


text \<open>A query that finds nothing at or above its lower bound keeps the slot it took.\<close>

definition lost_query :: "nat \<Rightarrow> nat" where
  "lost_query w = (case btGetRangeIter btIntCmp int_num w demo_rows [19] [23] True of
     Inl _ \<Rightarrow> w | Inr (w', si) \<Rightarrow> btReleaseRangeIterator w' si)"

lemma setIter_beyond:
  "setIter btIntCmp demo_rows [19] True (init_iter demo_rows) =
     Inr (None, True, \<lparr>bln = [(bt_root demo_rows, 1, 1)], finished = False, num_nodes = 1\<rparr>)"
  by code_simp

lemma lost_query_leaks: "w < 64 \<Longrightarrow> lost_query w = Suc w"
  using setIter_beyond by (simp add: lost_query_def btGetRangeIter_def createIterator_def MAX_NUM_ITERS_def
    Let_def btReleaseRangeIterator_def demo_rows_def)

lemma lost_queries: "n \<le> 64 \<Longrightarrow> (lost_query ^^ n) 0 = n"
  by (induction n) (simp_all add: lost_query_leaks)

text \<open>
  C12. Two defects of \<^verbatim>\<open>btGetRangeIter\<close> on an index with the keys 3 and 7. The descending range from 9 down to 1
  gets no iterator, while the ascending range from 1 to 9 visits both rows; and a query above 7, like the failed
  descending one, keeps an iterator slot, since its caller has only \<^verbatim>\<open>NULL\<close> to give to
  \<^verbatim>\<open>btReleaseRangeIterator\<close>: after 64 such queries every range query fails the assertion.
\<close>

theorem bt_range_defects:
  "btGetRangeIter btIntCmp int_num 0 demo_rows [3] [19] False = Inr (1, None) \<and>
   c_bind (btGetRangeIter btIntCmp int_num 0 demo_rows [3] [19] True)
     (\<lambda>(w, si). range_loop btIntCmp int_num True 3 (the si)) = Inr (Some [[7, 1], [15, 2]]) \<and>
   btGetRangeIter btIntCmp int_num ((lost_query ^^ 64) 0) demo_rows [3] [19] True = Inl Assert_fail"
proof (intro conjI)
  show "btGetRangeIter btIntCmp int_num 0 demo_rows [3] [19] False = Inr (1, None)" by code_simp
  show "c_bind (btGetRangeIter btIntCmp int_num 0 demo_rows [3] [19] True)
     (\<lambda>(w, si). range_loop btIntCmp int_num True 3 (the si)) = Inr (Some [[7, 1], [15, 2]])" by code_simp
  show "btGetRangeIter btIntCmp int_num ((lost_query ^^ 64) 0) demo_rows [3] [19] True = Inl Assert_fail"
    unfolding lost_queries [OF order_refl] by code_simp
qed

end
