(* ===== verification/Alc_Scion.thy ===== *)
theory Alc_Scion
  imports Alc_BTIter
begin

text \<open>
  OFFSET in \<^verbatim>\<open>src/DB/bt_iterator.c\<close>: the iterators that skip whole subtrees by their \<^verbatim>\<open>scion\<close> counters
  (\<^verbatim>\<open>btGetXthIter\<close> inside a range, \<^verbatim>\<open>btGetFullXthIter\<close> over the whole tree) and \<^verbatim>\<open>btGetFullRangeIter\<close>, on trees
  without evicted rows, where every \<^verbatim>\<open>getDR\<close> and \<^verbatim>\<open>dirty_left\<close> is 0. The four \<^verbatim>\<open>long\<close>s of \<^verbatim>\<open>fol_t\<close> are
  integers: they stay between \<open>-2\<close> and a row count.
\<close>

record fol_t =
  fl_cnt :: int
  fl_ofst :: int
  fl_diff :: int
  fl_over :: int

definition set_bln :: "'k btIterator \<Rightarrow> 'k bt_ll_n list \<Rightarrow> 'k btIterator" where
  "set_bln iter fs = iter\<lparr>bln := fs\<rparr>"

subsection \<open>Ascending\<close>

definition iter_leaf_scion :: "('k \<Rightarrow> 'k \<Rightarrow> int) \<Rightarrow> fol_t \<Rightarrow> 'k btIterator \<Rightarrow> (fol_t \<times> 'k btIterator) c_res" where
  "iter_leaf_scion cmp fl iter =
     (case bln iter of
        (x, xk, xn) # fs \<Rightarrow>
          let cnt = int (nkeys x) - int xk in
          if fl_cnt fl + cnt \<ge> fl_ofst fl then Inr (fl\<lparr>fl_over := fl_ofst fl - fl_cnt fl\<rparr>, iter)
          else
            let c = fl_cnt fl + cnt in
            c_bind (to_parent cmp (set_bln iter ((x, nkeys x - 1, nkeys x) # fs))) (\<lambda>iter.
              Inr (fl\<lparr>fl_cnt := c, fl_diff := fl_ofst fl - c\<rparr>, iter))
      | [] \<Rightarrow> Inl OOB_read)"

definition iter_node_scion :: "('k \<Rightarrow> 'k \<Rightarrow> int) \<Rightarrow> fol_t \<Rightarrow> 'k btIterator \<Rightarrow> (fol_t \<times> 'k btIterator) c_res" where
  "iter_node_scion cmp fl iter =
     (case bln iter of
        (x, xk, xn) # fs \<Rightarrow>
          let kid_in = (if xn = nkeys x then xn else xn + 1) in
          c_bind (kid x kid_in) (\<lambda>k.
            let scioned = fl_diff fl > int (unat (scion k));
                c = (if scioned then fl_cnt fl + int (unat (scion k + 1)) else fl_cnt fl + 1);
                fl = fl\<lparr>fl_cnt := c, fl_diff := fl_ofst fl - c\<rparr>;
                xk' = (if xk + 1 < nkeys x then xk + 1 else xk)
            in
            if fl_diff fl < 0 then Inr (fl\<lparr>fl_over := 0\<rparr>, iter)
            else c_bind
              (if scioned then
                 if xn + 1 < nkeys x then Inr (set_bln iter ((x, xk', xn + 1) # fs))
                 else to_parent cmp (set_bln iter ((x, xk', xn) # fs))
               else c_bind (GET_NEW_CHILD (set_bln iter ((x, xk', xn + 1) # fs))) (\<lambda>iter.
                    c_bind (kid x (xn + 1)) (tochildrecurse iter)))
              (\<lambda>iter. Inr (if fl_diff fl = 0 then fl\<lparr>fl_over := 0\<rparr> else fl, iter)))
      | [] \<Rightarrow> Inl OOB_read)"

subsection \<open>Descending\<close>

definition iter_leaf_scion_rev :: "('k \<Rightarrow> 'k \<Rightarrow> int) \<Rightarrow> fol_t \<Rightarrow> 'k btIterator \<Rightarrow> (fol_t \<times> 'k btIterator) c_res" where
  "iter_leaf_scion_rev cmp fl iter =
     (case bln iter of
        (x, xk, xn) # fs \<Rightarrow>
          let cnt = int xk + 1 in
          if fl_cnt fl + cnt \<ge> fl_ofst fl then Inr (fl\<lparr>fl_over := fl_ofst fl - fl_cnt fl\<rparr>, iter)
          else
            let c = fl_cnt fl + cnt in
            c_bind (to_parent_rev cmp (set_bln iter ((x, 0, 0) # fs))) (\<lambda>iter.
              Inr (fl\<lparr>fl_cnt := c, fl_diff := fl_ofst fl - c\<rparr>, iter))
      | [] \<Rightarrow> Inl OOB_read)"

definition iter_node_scion_rev :: "('k \<Rightarrow> 'k \<Rightarrow> int) \<Rightarrow> fol_t \<Rightarrow> 'k btIterator \<Rightarrow> (fol_t \<times> 'k btIterator) c_res" where
  "iter_node_scion_rev cmp fl iter =
     (case bln iter of
        (x, xk, xn) # fs \<Rightarrow>
          c_bind (kid x xn) (\<lambda>k.
            let scioned = fl_diff fl > int (unat (scion k));
                c = (if scioned then fl_cnt fl + int (unat (scion k + 1)) else fl_cnt fl + 1);
                fl = fl\<lparr>fl_cnt := c, fl_diff := fl_ofst fl - c\<rparr>
            in
            if fl_diff fl < 0 then Inr (fl\<lparr>fl_over := 0\<rparr>, iter)
            else c_bind
              (if scioned then
                 if xn \<noteq> 0 then Inr (set_bln iter ((x, xk - 1, xn - 1) # fs))
                 else to_parent_rev cmp (set_bln iter ((x, xk - 1, xn) # fs))
               else c_bind (GET_NEW_CHILD iter) (\<lambda>iter. c_bind (kid x xn) (tochildrecurserev iter)))
              (\<lambda>iter. Inr (if fl_diff fl = 0 then fl\<lparr>fl_over := 0\<rparr> else fl, iter)))
      | [] \<Rightarrow> Inl OOB_read)"

subsection \<open>The loop\<close>

text \<open>\<^verbatim>\<open>btNext\<close> with the scion functions as \<^verbatim>\<open>iLeaf\<close> and \<^verbatim>\<open>iNode\<close>.\<close>

definition btNext_scion :: "('k \<Rightarrow> 'k \<Rightarrow> int) \<Rightarrow> bool \<Rightarrow> fol_t \<Rightarrow> 'k btIterator \<Rightarrow>
    ('k option \<times> fol_t \<times> 'k btIterator) c_res" where
  "btNext_scion cmp asc fl iter =
     (if finished iter then Inr (None, fl, iter)
      else case bln iter of
        (x, xk, xn) # fs \<Rightarrow>
          c_bind (c_read (bkeys x) xk) (\<lambda>curr.
          c_bind (if leaf x then (if asc then iter_leaf_scion else iter_leaf_scion_rev) cmp fl iter
                  else (if asc then iter_node_scion else iter_node_scion_rev) cmp fl iter) (\<lambda>(fl, iter).
            Inr (Some curr, fl, iter)))
      | [] \<Rightarrow> Inl OOB_read)"

text \<open>
  The end of the loop body: the slots of the block reached are moved by \<^verbatim>\<open>over\<close>. A negative offset moves the
  key slot before the first key, which \<^verbatim>\<open>INIT_ITER_BEENTRY\<close> reads.
\<close>

definition xth_adjust :: "('k \<Rightarrow> 'k \<Rightarrow> int) \<Rightarrow> bool \<Rightarrow> int \<Rightarrow> 'k btIterator \<Rightarrow> 'k btIterator c_res" where
  "xth_adjust cmp asc over iter =
     (case bln iter of
        (x, xk, xn) # fs \<Rightarrow>
          if asc then
            let ik = int xk + over in
            if ik = int (nkeys x) then to_parent cmp (set_bln iter ((x, nat (ik - 1), xn) # fs))
            else if ik < 0 then Inl OOB_read
            else Inr (set_bln iter ((x, nat ik, xn) # fs))
          else
            let ik = int xk - over in
            if ik < 0 then to_parent_rev cmp (set_bln iter ((x, 0, 0) # fs))
            else Inr (set_bln iter ((x, nat ik, xn) # fs))
      | [] \<Rightarrow> Inl OOB_read)"

fun xth_loop :: "('k \<Rightarrow> 'k \<Rightarrow> int) \<Rightarrow> bool \<Rightarrow> nat \<Rightarrow> fol_t \<Rightarrow> 'k btIterator \<Rightarrow> 'k btIterator c_res" where
  "xth_loop cmp asc 0 fl iter = Inl No_return"
| "xth_loop cmp asc (Suc fuel) fl iter =
     c_bind (btNext_scion cmp asc fl iter) (\<lambda>(be, fl, iter).
       case be of
         None \<Rightarrow> Inr iter
       | Some _ \<Rightarrow>
           if fl_over fl \<noteq> - 1 then xth_adjust cmp asc (fl_over fl) iter
           else xth_loop cmp asc fuel fl iter)"

text \<open>The return value, the flag \<^verbatim>\<open>empty\<close> that \<^verbatim>\<open>setIter\<close> leaves, and the iterator.\<close>

definition XthIterFind :: "('k \<Rightarrow> 'k \<Rightarrow> int) \<Rightarrow> nat \<Rightarrow> 'k bt \<Rightarrow> 'k \<Rightarrow> 'k \<Rightarrow> int \<Rightarrow> bool \<Rightarrow> 'k btIterator \<Rightarrow>
    (bool \<times> bool \<times> 'k btIterator) c_res" where
  "XthIterFind cmp fuel btr alow ahigh ofst asc iter =
     c_bind (setIter cmp btr (if asc then alow else ahigh) asc iter) (\<lambda>(stream, empty, iter).
       if stream = None then Inr (False, empty, iter)
       else c_bind (xth_loop cmp asc fuel \<lparr>fl_cnt = 0, fl_ofst = ofst, fl_diff = 0, fl_over = - 1\<rparr> iter) (\<lambda>iter.
         case bln iter of
           (x, xk, xn) # fs \<Rightarrow> c_bind (c_read (bkeys x) xk) (\<lambda>_. Inr (True, empty, iter))
         | [] \<Rightarrow> Inl OOB_read))"

definition btGetXthIter :: "('k \<Rightarrow> 'k \<Rightarrow> int) \<Rightarrow> ('k \<Rightarrow> ulong) \<Rightarrow> nat \<Rightarrow> nat \<Rightarrow> 'k bt \<Rightarrow> 'k \<Rightarrow> 'k \<Rightarrow> int \<Rightarrow> bool \<Rightarrow>
    (nat \<times> 'k btSIter option) c_res" where
  "btGetXthIter cmp num fuel which btr alow ahigh oofst asc =
     (if bt_numkeys btr = 0 then Inr (which, None)
      else c_bind (createIterator which btr) (\<lambda>(which, siter).
        let siter = siter\<lparr>siter_high := num (if asc then ahigh else alow)\<rparr> in
        c_bind (XthIterFind cmp fuel btr alow ahigh oofst asc (siter_x siter)) (\<lambda>(ok, empty, iter).
          Inr (which, Some (siter\<lparr>siter_x := iter, siter_empty := if ok then False else empty\<rparr>)))))"

subsection \<open>The whole tree\<close>

definition assignMinKey :: "('k \<Rightarrow> ulong) \<Rightarrow> 'k bt \<Rightarrow> ulong option c_res" where
  "assignMinKey num btr = c_bind (bt_min btr) (\<lambda>e. Inr (map_option num e))"

definition assignMaxKey :: "('k \<Rightarrow> ulong) \<Rightarrow> 'k bt \<Rightarrow> ulong option c_res" where
  "assignMaxKey num btr = c_bind (bt_max btr) (\<lambda>e. Inr (map_option num e))"

text \<open>\<^verbatim>\<open>btGetFullRangeIter\<close>; \<open>mk\<close> is \<^verbatim>\<open>createBTKey\<close> on a number.\<close>

definition btGetFullRangeIter :: "('k \<Rightarrow> 'k \<Rightarrow> int) \<Rightarrow> ('k \<Rightarrow> ulong) \<Rightarrow> (ulong \<Rightarrow> 'k) \<Rightarrow> nat \<Rightarrow> 'k bt \<Rightarrow> bool \<Rightarrow>
    (nat \<times> 'k btSIter option) c_res" where
  "btGetFullRangeIter cmp num mk which btr asc =
     (if bt_numkeys btr = 0 then Inr (which, None)
      else c_bind (assignMinKey num btr) (\<lambda>aL. c_bind (assignMaxKey num btr) (\<lambda>aH.
        case (aL, aH) of
          (Some lo, Some hi) \<Rightarrow>
            c_bind (createIterator which btr) (\<lambda>(which, siter).
            let siter = siter\<lparr>siter_high := if asc then hi else lo\<rparr> in
            c_bind (setIter cmp btr (mk (if asc then lo else hi)) asc (siter_x siter)) (\<lambda>(stream, empty, iter).
              Inr (which, if stream = None then None
                          else Some (siter\<lparr>siter_x := iter, siter_empty := empty\<rparr>))))
        | _ \<Rightarrow> Inr (which, None))))"

text \<open>
  The first loop of \<^verbatim>\<open>btScionFind\<close>, over the child slots in the order of the iteration: the slot whose \<^verbatim>\<open>scion\<close>
  reaches the offset, and what is left of the offset.
\<close>

fun scion_pick :: "'k btn \<Rightarrow> nat list \<Rightarrow> ulong \<Rightarrow> (nat option \<times> ulong) c_res" where
  "scion_pick x [] ofst = Inr (None, ofst)"
| "scion_pick x (i # is) ofst =
     c_bind (kid x i) (\<lambda>k.
       if ucast (scion k) \<ge> ofst then Inr (Some i, ofst)
       else scion_pick x is (ofst - ucast (scion k + 1)))"

text \<open>
  The second loop, with \<^verbatim>\<open>i\<close> and \<^verbatim>\<open>cnt\<close>. In the descending direction \<^verbatim>\<open>MAX(-1, (n - ofst))\<close> is a maximum of
  unsigned numbers, so \<^verbatim>\<open>fin\<close> is always \<open>-1\<close>.
\<close>

fun scion_walk :: "bool \<Rightarrow> nat \<Rightarrow> int \<Rightarrow> int \<Rightarrow> nat \<Rightarrow> nat \<Rightarrow> (int \<times> nat) c_res" where
  "scion_walk asc 0 fin i cnt ofst = Inl No_return"
| "scion_walk asc (Suc fuel) fin i cnt ofst =
     (if i = fin \<or> ofst \<le> cnt then Inr (i, cnt)
      else scion_walk asc fuel fin (if asc then i + 1 else i - 1) (cnt + 1) ofst)"

definition scion_rest :: "bool \<Rightarrow> 'k btn \<Rightarrow> ulong \<Rightarrow> 'k btIterator \<Rightarrow> (bool \<times> 'k btIterator) c_res" where
  "scion_rest asc x ofst iter =
     (case bln iter of
        (self, xk, xn) # fs \<Rightarrow>
          let n = nkeys self;
              fin = (if asc then int (min (unat ofst) n) else - 1);
              last = (if asc then int n - 1 else 0)
          in
          c_bind (scion_walk asc (n + 2) fin (if asc then 0 else int n - 1) 0 (unat ofst)) (\<lambda>(i, cnt).
            if (if i = fin \<and> i = last then unat (scion x) \<le> cnt else cnt < unat ofst) then Inr (False, iter)
            else if i < 0 then Inl OOB_read
            else c_bind (c_read (bkeys x) (nat i)) (\<lambda>_. Inr (True, set_bln iter ((self, nat i, xn) # fs))))
      | [] \<Rightarrow> Inl OOB_read)"

text \<open>
  \<^verbatim>\<open>btScionFind\<close>. A descending offset that uses up the first child sets the slots to \<open>-1\<close>, which the next
  \<^verbatim>\<open>btNext\<close> reads.
\<close>

function btScionFind :: "bool \<Rightarrow> 'k btn \<Rightarrow> ulong \<Rightarrow> 'k btIterator \<Rightarrow> (bool \<times> 'k btIterator) c_res" where
  "btScionFind asc x ofst iter =
     (if leaf x then scion_rest asc x ofst iter
      else c_bind (scion_pick x (if asc then [0..<nkeys x + 1] else rev [0..<nkeys x + 1]) ofst) (\<lambda>(hit, ofst).
        case hit of
          None \<Rightarrow> scion_rest asc x ofst iter
        | Some i \<Rightarrow>
            (case bln iter of
               (self, xk, xn) # fs \<Rightarrow>
                 let iter = set_bln iter ((self, if i = nkeys self then i - 1 else i, i) # fs) in
                 c_bind (kid x i) (\<lambda>k.
                   if ucast (scion k) = ofst then
                     if asc then Inr (True, iter)
                     else if i = 0 then Inl OOB_read
                     else Inr (True, set_bln iter ((self, i - 1, i - 1) # fs))
                   else c_bind (get_new_iter_child iter) (\<lambda>iter.
                     let iter = to_child iter k in
                     if \<not> leaf k then c_bind (btScionFind asc k ofst iter) (\<lambda>(_, iter). Inr (True, iter))
                     else scion_rest asc k ofst iter))
             | [] \<Rightarrow> Inl OOB_read)))"
  by pat_completeness auto
termination
  by (relation "measure (\<lambda>(asc, x, ofst, iter). bheight x)") (auto dest: kid_bheight)

declare btScionFind.simps [simp del]

definition btGetFullXthIter :: "('k \<Rightarrow> ulong) \<Rightarrow> nat \<Rightarrow> 'k bt \<Rightarrow> ulong \<Rightarrow> bool \<Rightarrow> (nat \<times> 'k btSIter option) c_res" where
  "btGetFullXthIter num which btr ofst asc =
     (if bt_numkeys btr = 0 then Inr (which, None)
      else c_bind (assignMinKey num btr) (\<lambda>aL. c_bind (assignMaxKey num btr) (\<lambda>aH.
        case (aL, aH) of
          (Some lo, Some hi) \<Rightarrow>
            c_bind (createIterator which btr) (\<lambda>(which, siter).
            let siter = siter\<lparr>siter_high := if asc then hi else lo\<rparr> in
            c_bind (btScionFind asc (bt_root btr) ofst (siter_x siter)) (\<lambda>(ok, iter).
              Inr (which, Some (siter\<lparr>siter_x := iter, siter_empty := if ok then False else siter_empty siter\<rparr>))))
        | _ \<Rightarrow> Inr (which, None))))"

subsection \<open>The blocks of a chain keep exact counters\<close>

definition node_ok :: "'k btn \<Rightarrow> bool" where
  "node_ok x \<longleftrightarrow> scion_ok x \<and> length (inorder x) < 2 ^ 32"

definition nodes_ok :: "'k bt_ll_n list \<Rightarrow> bool" where
  "nodes_ok fs \<longleftrightarrow> (\<forall>f \<in> set fs. node_ok (fst f))"

lemma nodes_ok_simps [simp]:
  "nodes_ok []" "nodes_ok (f # fs) \<longleftrightarrow> node_ok (fst f) \<and> nodes_ok fs"
  by (auto simp: nodes_ok_def)

lemma bln_set_bln [simp]: "bln (set_bln it fs) = fs" "finished (set_bln it fs) = finished it"
  "num_nodes (set_bln it fs) = num_nodes it"
  by (simp_all add: set_bln_def)

lemma scion_unat: "node_ok x \<Longrightarrow> unat (scion x) = length (inorder x)"
  by (simp add: node_ok_def scion_ok_scion unat_of_nat)

lemma kid_node_ok:
  assumes "node_ok x" "kid x i = Inr c"
  shows "node_ok c" and "length (inorder c) < length (inorder x) \<or> nkeys x = 0"
proof -
  have c: "c \<in> set (bkids x)" using assms(2) by (auto simp: kid_def c_read_def split: if_splits)
  then have "length (inorder c) \<le> sum_list (map (length \<circ> inorder) (bkids x))"
    by (intro member_le_sum_list) auto
  then have le: "length (inorder c) + nkeys x \<le> length (inorder x)" using length_inorder [of x] by simp
  then show "length (inorder c) < length (inorder x) \<or> nkeys x = 0" by linarith
  have "scion_ok c" using assms(1) c by (cases x) (auto simp: node_ok_def)
  then show "node_ok c" using le assms(1) by (simp add: node_ok_def)
qed

lemma toparentrecurse_blocks:
  assumes "toparentrecurse cmp fs = Inr (fs', fin)" "\<And>x k. Q x k \<Longrightarrow> k + 1 < nkeys x \<Longrightarrow> Q x (k + 1)"
    "\<forall>f \<in> set fs. Q (fst f) (fst (snd f))"
  shows "\<forall>f \<in> set fs'. Q (fst f) (fst (snd f))"
  using assms(1,3)
proof (induction cmp fs arbitrary: fs' fin rule: toparentrecurse.induct)
  case (1 cmp x xk xn p pk pn fs)
  have "Q p (if pk + 1 < nkeys p then pk + 1 else pk)" using 1(3) assms(2) [of p pk] by simp
  with 1 show ?case by (fastforce simp: c_bind_Inr_iff Let_def split: if_splits)
qed auto

lemma toparentrecurse_nodes: "toparentrecurse cmp fs = Inr (fs', fin) \<Longrightarrow> nodes_ok fs \<Longrightarrow> nodes_ok fs'"
  using toparentrecurse_blocks [of cmp fs fs' fin "\<lambda>x k. node_ok x"] by (auto simp: nodes_ok_def)

lemma to_parent_nodes: "to_parent cmp it = Inr it' \<Longrightarrow> nodes_ok (bln it) \<Longrightarrow> nodes_ok (bln it')"
  by (auto simp: to_parent_def c_bind_Inr_iff dest: toparentrecurse_nodes)

lemma tochildrecurse_nodes:
  assumes "tochildrecurse it x = Inr it'" "nodes_ok (bln it)" "node_ok x"
  shows "nodes_ok (bln it')"
  using assms
proof (induction it x arbitrary: it' rule: tochildrecurse.induct)
  case (1 it x)
  show ?case
  proof (cases "leaf x")
    case True
    with 1(2-4) show ?thesis by (subst (asm) tochildrecurse.simps) (auto simp: to_child_def)
  next
    case False
    with 1(2) obtain it2 c where g: "GET_NEW_CHILD (to_child it x) = Inr it2" "kid x 0 = Inr c"
      "tochildrecurse it2 c = Inr it'"
      by (subst (asm) tochildrecurse.simps) (auto simp: c_bind_Inr_iff)
    have "bln it2 = bln (to_child it x)"
      using g(1) by (auto simp: GET_NEW_CHILD_def get_new_iter_child_def split: if_splits)
    then have "nodes_ok (bln it2)" using 1(3,4) by (simp add: to_child_def)
    then show ?thesis using 1(1) [OF refl False g] kid_node_ok(1) [OF 1(4) g(2)] by blast
  qed
qed

lemma init_loop_nodes:
  assumes "bt_init_iterator_loop cmp nb k it x r ro = Inr (ret, it')" "nodes_ok (bln it)" "node_ok x"
  shows "nodes_ok (bln it')"
  using assms
proof (induction cmp nb k it x r ro arbitrary: ret it' rule: bt_init_iterator_loop.induct)
  case (1 cmp nb k it x r ro)
  obtain i r' where f: "findkindex cmp nb (bkeys x) k = (i, r')" by (cases "findkindex cmp nb (bkeys x) k")
  define r2 where "r2 = (case r' of None \<Rightarrow> r | Some v \<Rightarrow> v)"
  define it1 where "it1 = (if bkeys x = [] then it else it\<lparr>bln := (x, nat i, nat i) # tl (bln it)\<rparr>)"
  have n1: "nodes_ok (bln it1)"
    using 1(3,4) by (cases "bln it") (auto simp: it1_def)
  show ?case
  proof (cases "0 \<le> i \<and> r2 = 0 \<or> leaf x")
    case True
    with 1(2) have "it' = it1"
      by (subst (asm) bt_init_iterator_loop.simps) (auto simp: f r2_def it1_def Let_def split: if_splits)
    with n1 show ?thesis by simp
  next
    case False
    with 1(2) obtain it2 y ro' where g: "get_new_iter_child it1 = Inr it2" "kid x (nat (i + 1)) = Inr y"
      "bt_init_iterator_loop cmp nb k (to_child it2 y) y r2 ro' = Inr (ret, it')"
      and ro: "ro' = (ro \<and> \<not> (r2 < 0 \<or> i \<noteq> int (nkeys x) - 1))"
      by (subst (asm) bt_init_iterator_loop.simps)
        (auto simp: f Let_def c_bind_Inr_iff simp flip: r2_def it1_def)
    have "bln it2 = bln it1" using g(1) by (auto simp: get_new_iter_child_def split: if_splits)
    moreover have "node_ok y" by (rule kid_node_ok(1) [OF 1(4) g(2)])
    ultimately have "nodes_ok (bln (to_child it2 y))" using n1 by (simp add: to_child_def)
    then show ?thesis
      using 1(1) [OF f [symmetric] refl r2_def it1_def ro] False g \<open>node_ok y\<close> by blast
  qed
qed


lemma btNext_nodes:
  assumes "btNext cmp True it = Inr (e, it')" "nodes_ok (bln it)"
  shows "nodes_ok (bln it')"
proof (cases "finished it")
  case True
  with assms show ?thesis by (simp add: btNext_def)
next
  case nf: False
  obtain x xk xn fs where b: "bln it = (x, xk, xn) # fs"
    using assms(1) nf by (cases "bln it") (auto simp: btNext_def)
  show ?thesis
  proof (cases "leaf x")
    case True
    then have "iter_leaf cmp it = Inr it'" using assms(1) nf b by (auto simp: btNext_def c_bind_Inr_iff)
    with assms(2) b show ?thesis by (auto simp: iter_leaf_def split: if_splits dest: to_parent_nodes)
  next
    case False
    then have "iter_node it = Inr it'" using assms(1) nf b by (auto simp: btNext_def c_bind_Inr_iff)
    then obtain k' n' it2 c where g: "GET_NEW_CHILD (it\<lparr>bln := (x, k', n') # fs\<rparr>) = Inr it2"
      "kid x n' = Inr c" "tochildrecurse it2 c = Inr it'"
      using b by (auto simp: iter_node_def Let_def c_bind_Inr_iff)
    have "bln it2 = (x, k', n') # fs"
      using g(1) by (auto simp: GET_NEW_CHILD_def get_new_iter_child_def split: if_splits)
    then show ?thesis
      using tochildrecurse_nodes [OF g(3)] kid_node_ok(1) [OF _ g(2)] assms(2) b by simp
  qed
qed

lemma setIter_nodes:
  assumes "setIter cmp b k True (init_iter b) = Inr (e, emp, it)" "node_ok (bt_root b)"
  shows "nodes_ok (bln it)"
proof -
  obtain ret it1 where i: "bt_init_iterator cmp b k (init_iter b) = Inr (ret, it1)"
    using assms(1) by (auto simp: setIter_def c_bind_Inr_iff)
  then have "nodes_ok (bln it1)"
    using init_loop_nodes assms(2) by (fastforce simp: bt_init_iterator_def init_iter_def)
  moreover have "it = it1 \<or> (\<exists>e'. btNext cmp True it1 = Inr (e', it))"
    using assms(1) i by (auto simp: setIter_def c_bind_Inr_iff split: list.splits if_splits prod.splits)
  ultimately show ?thesis using btNext_nodes by blast
qed

subsection \<open>Skipping entries in ascending order\<close>

definition top_ok :: "'k btIterator \<Rightarrow> bool" where
  "top_ok it \<longleftrightarrow> (\<exists>x k n fs. bln it = (x, k, n) # fs \<and> k < nkeys x)"

definition scion_at :: "('k \<Rightarrow> 'o::linorder) \<Rightarrow> nat \<Rightarrow> nat \<Rightarrow> 'k btIterator \<Rightarrow> 'k list \<Rightarrow> bool" where
  "scion_at ord t d it rest \<longleftrightarrow> iter_at ord t d it rest \<and> nodes_ok (bln it) \<and> top_ok it"

lemma anc_slots: "anc ord t h x fs rest \<Longrightarrow> \<forall>f \<in> set fs. fst (snd f) < nkeys (fst f)"
proof (induction fs arbitrary: h x rest)
  case (Cons f fs)
  obtain p pk pn where f: "f = (p, pk, pn)" by (cases f)
  obtain s kl kr cl cr rest' where p: "p = BTN s False (kl @ kr) (cl @ x # cr)" "kl @ kr \<noteq> []"
    "slot_ok (length kl) (length (kl @ kr)) pk pn" and an: "anc ord t (Suc h) p fs rest'"
    using Cons.prems unfolding f anc.simps by blast
  have "pk < nkeys p" using p(2,3) by (cases kl; cases kr) (auto simp: p(1) slot_ok_def)
  with Cons.IH [OF an] show ?case by (simp add: f)
qed simp

lemma top_okI: "\<not> finished it \<Longrightarrow> iter_at ord t d it rest \<Longrightarrow> top_ok it"
  by (auto simp: iter_at_def on_slot_def top_ok_def)

lemma xth_adjust_0: "top_ok it \<Longrightarrow> xth_adjust cmp True 0 it = Inr it"
  by (auto simp: top_ok_def xth_adjust_def Let_def set_bln_def)

text \<open>The outcome of one step of the loop of \<^verbatim>\<open>XthIterFind\<close>: it goes on further right, or it has found the place.\<close>

definition xth_post :: "('k \<Rightarrow> 'k \<Rightarrow> int) \<Rightarrow> ('k \<Rightarrow> 'o::linorder) \<Rightarrow> nat \<Rightarrow> nat \<Rightarrow> fol_t \<Rightarrow> 'k list \<Rightarrow> fol_t \<Rightarrow> 'k btIterator \<Rightarrow> bool" where
  "xth_post cmp ord t d fl ys fl' it' \<longleftrightarrow>
     (if fl_over fl' = - 1 then
        \<exists>m > 0. scion_at ord t d it' (drop m ys) \<and> fl_cnt fl' = fl_cnt fl + int m \<and> fl_cnt fl' \<le> fl_ofst fl \<and>
          fl_ofst fl' = fl_ofst fl \<and> fl_diff fl' = fl_ofst fl - fl_cnt fl'
      else \<exists>it2. xth_adjust cmp True (fl_over fl') it' = Inr it2 \<and>
          scion_at ord t d it2 (drop (nat (fl_ofst fl - fl_cnt fl)) ys))"

context bt_order
begin

text \<open>Leaving a subtree upwards, from the last block of it.\<close>

lemma to_parent_at:
  assumes an: "anc ord t h x fs r" and k: "k < nkeys x" and b: "bln it = (x, k, xn) # fs"
    and nf: "\<not> finished it" and len: "length (bln it) + h = d" "length (bln it) \<le> num_nodes it" "num_nodes it \<le> d"
    and ok: "nodes_ok (bln it)"
  shows "\<exists>it'. to_parent cmp it = Inr it' \<and> scion_at ord t d it' r"
proof -
  obtain fs' fin where tp: "toparentrecurse cmp ((x, k, xn) # fs) = Inr (fs', fin)" "fs' \<noteq> []"
    "length fs' \<le> Suc (length fs)" "fin \<longleftrightarrow> r = []"
    "r \<noteq> [] \<longrightarrow> (\<exists>h'. on_slot ord t h' fs' r \<and> length fs' + h' = Suc (length fs) + h)"
    using toparent_ok [OF an k, of xn] by (elim exE conjE) (rule that)
  let ?it = "it\<lparr>bln := fs', finished := fin\<rparr>"
  have run: "to_parent cmp it = Inr ?it" using tp(1) b nf by (simp add: to_parent_def)
  have "\<forall>f \<in> set fs'. fst (snd f) < nkeys (fst f)"
    using toparentrecurse_blocks [OF tp(1), of "\<lambda>x k. k < nkeys x"] anc_slots [OF an] k by auto
  then have "top_ok ?it" using tp(2) by (cases fs') (auto simp: top_ok_def)
  moreover have "iter_at ord t d ?it r" using tp(3-5) len b by (auto simp: iter_at_def)
  moreover have "nodes_ok fs'" using toparentrecurse_nodes [OF tp(1)] ok b by simp
  ultimately show ?thesis using run by (simp add: scion_at_def)
qed

lemma leaf_scion_step:
  assumes b: "bln it = (x, k, xn) # fs" and x: "shape t 0 x" "sorted_by ord (inorder x)" "k < nkeys x"
    and an: "anc ord t 0 x fs r" and nf: "\<not> finished it"
    and len: "length (bln it) = d" "length (bln it) \<le> num_nodes it" "num_nodes it \<le> d" and ok: "nodes_ok (bln it)"
    and fl: "fl_over fl = - 1" "fl_cnt fl \<le> fl_ofst fl"
  shows "\<exists>fl' it'. iter_leaf_scion cmp fl it = Inr (fl', it') \<and> xth_post cmp ord t d fl (drop k (bkeys x) @ r) fl' it'"
proof -
  note par = to_parent_at [OF an _ _ _ _ _ _ ]
  let ?n = "nkeys x"
  have dl: "length (drop k (bkeys x)) = ?n - k" by (simp add: nkeys_def)
  show ?thesis
  proof (cases "fl_cnt fl + (int ?n - int k) \<ge> fl_ofst fl")
    case True
    define m where "m = nat (fl_ofst fl - fl_cnt fl)"
    have m: "int m = fl_ofst fl - fl_cnt fl" "m \<le> ?n - k" using fl(2) True x(3) by (auto simp: m_def)
    let ?fl = "fl\<lparr>fl_over := int m\<rparr>"
    have run: "iter_leaf_scion cmp fl it = Inr (?fl, it)" using b True m(1) by (simp add: iter_leaf_scion_def Let_def)
    have "\<exists>it2. xth_adjust cmp True (int m) it = Inr it2 \<and> scion_at ord t d it2 (drop m (drop k (bkeys x) @ r))"
    proof (cases "k + m = ?n")
      case lst: True
      then have "drop m (drop k (bkeys x) @ r) = r" using dl by simp
      moreover have nk: "nat (int (k + m) - 1) = k + m - 1" using lst x(3) by simp
      have "xth_adjust cmp True (int m) it = to_parent cmp (set_bln it ((x, k + m - 1, xn) # fs))"
        using b lst x(3) nk by (simp add: xth_adjust_def Let_def flip: of_nat_add)
      ultimately show ?thesis
        using par [of "k + m - 1" "set_bln it ((x, k + m - 1, xn) # fs)" xn d] lst x(3) nf len ok b by auto
    next
      case False
      then have km: "k + m < ?n" using m(2) x(3) by simp
      let ?it = "set_bln it ((x, k + m, xn) # fs)"
      have "nat (int k + int m) = k + m" by simp
      then have "xth_adjust cmp True (int m) it = Inr ?it"
        using b km by (simp add: xth_adjust_def Let_def flip: of_nat_add)
      moreover have "drop m (drop k (bkeys x) @ r) = drop (k + m) (bkeys x) @ r"
        using m(2) dl by (simp add: add.commute)
      moreover have "iter_at ord t d ?it (drop (k + m) (bkeys x) @ r)"
        using nf len x(1,2) km an b by (auto simp: iter_at_def on_slot_leaf intro!: exI [of _ 0])
      ultimately show ?thesis using ok b km by (auto simp: scion_at_def top_ok_def)
    qed
    then show ?thesis using run m(1) by (auto simp: xth_post_def m_def)
  next
    case False
    let ?it = "set_bln it ((x, ?n - 1, ?n) # fs)" and ?m = "?n - k"
    let ?fl = "fl\<lparr>fl_cnt := fl_cnt fl + int ?m, fl_diff := fl_ofst fl - (fl_cnt fl + int ?m)\<rparr>"
    have im: "int ?m = int ?n - int k" using x(3) by simp
    obtain it' where it': "to_parent cmp ?it = Inr it'" "scion_at ord t d it' r"
      using par [of "?n - 1" ?it ?n d] x(3) nf len ok b by auto
    have "iter_leaf_scion cmp fl it = Inr (?fl, it')"
      using b False it'(1) im by (simp add: iter_leaf_scion_def Let_def)
    moreover have "drop ?m (drop k (bkeys x) @ r) = r" using dl by simp
    ultimately show ?thesis
      using it'(2) fl False im x(3) by (intro exI [of _ ?fl] exI [of _ it']) (auto simp: xth_post_def intro!: exI [of _ ?m])
  qed
qed

end

text \<open>The key \<open>k\<close> of an inner node and the child right of it.\<close>

lemma slot_view:
  assumes "shape t (Suc h) x" "k < nkeys x"
  obtains m c kr cr where "kid x (k + 1) = Inr c" "c \<in> set (bkids x)" "length kr = length cr"
    "drop (k + 1) (bkeys x) = kr" "drop (k + 1 + 1) (bkids x) = cr" "kr = [] \<longleftrightarrow> \<not> k + 1 < nkeys x"
    "il_post (drop k (bkeys x)) (map inorder (drop (k + 1) (bkids x))) = m # inorder c @ il_post kr (map inorder cr)"
proof -
  have lc: "length (bkids x) = nkeys x + 1" using assms(1) by simp
  have "k + 1 \<le> nkeys x" using assms(2) by simp
  then obtain kl kr cl c cr where
    v: "x = BTN (scion x) (leaf x) (kl @ kr) (cl @ c # cr)" "length kl = k + 1" "length cl = k + 1"
    "length kr = length cr" by (rule node_view [OF lc])
  obtain kl0 m where kl: "kl = kl0 @ [m]" "length kl0 = k" using v(2) by (cases kl rule: rev_cases) auto
  have bx: "bkeys x = kl @ kr" "bkids x = cl @ c # cr" by (subst v(1), simp)+
  show ?thesis
    by (rule that [of c kr cr m]) (use v(2-4) in \<open>auto simp: kid_def bx nth_append nkeys_def kl\<close>)
qed

lemma unat_scion_succ:
  assumes "node_ok x" "kid x i = Inr c" "0 < nkeys x"
  shows "uint (scion c) = int (length (inorder c))" "uint (scion c + 1) = int (length (inorder c)) + 1"
proof -
  let ?l = "length (inorder c)"
  have l: "?l + 1 < 2 ^ 32" using kid_node_ok(2) [OF assms(1,2)] assms(1,3) by (simp add: node_ok_def)
  have u: "unat (scion c) = ?l" by (rule scion_unat [OF kid_node_ok(1) [OF assms(1,2)]])
  then show "uint (scion c) = int ?l" using arg_cong [OF u, of int] by simp
  have c1: "scion c + 1 = of_nat (?l + 1)" using word_eq_of_nat [OF u] by simp
  have u1: "unat (scion c + 1) = ?l + 1" unfolding c1 unat_of_nat using l by simp
  show "uint (scion c + 1) = int ?l + 1" using arg_cong [OF u1, of int] by simp
qed

text \<open>What the two branches of \<^verbatim>\<open>iter_node_scion\<close> do when the offset is not passed.\<close>

lemma xth_post_move:
  assumes at: "scion_at ord t d it' (drop m ys)" and m: "0 < m" "fl_cnt fl + int m \<le> fl_ofst fl" "fl_over fl = - 1"
  shows "xth_post cmp ord t d fl ys
    (let fl' = fl\<lparr>fl_cnt := fl_cnt fl + int m, fl_diff := fl_ofst fl - (fl_cnt fl + int m)\<rparr> in
     if fl_diff fl' = 0 then fl'\<lparr>fl_over := 0\<rparr> else fl') it'"
proof (cases "fl_ofst fl = fl_cnt fl + int m")
  case True
  then have "nat (fl_ofst fl - fl_cnt fl) = m" by simp
  with True at show ?thesis by (auto simp: xth_post_def xth_adjust_0 scion_at_def Let_def)
next
  case False
  with assms show ?thesis by (auto simp: xth_post_def Let_def intro!: exI [of _ m])
qed

context bt_order
begin

text \<open>Over the key \<open>k\<close> and the whole child right of it.\<close>

lemma skip_kid_at:
  assumes b: "bln it = (x, k, k) # fs" and x: "shape t (Suc h) x" "sorted_by ord (inorder x)" "k < nkeys x"
    and an: "anc ord t (Suc h) x fs r" and nf: "\<not> finished it"
    and len: "length (bln it) + Suc h = d" "length (bln it) \<le> num_nodes it" "num_nodes it \<le> d"
    and ok: "nodes_ok (bln it)" and c: "kid x (k + 1) = Inr c"
    and ys: "ys = il_post (drop k (bkeys x)) (map inorder (drop (k + 1) (bkids x))) @ r"
    and k': "k' = (if k + 1 < nkeys x then k + 1 else k)"
  shows "\<exists>it'. (if k + 1 < nkeys x then Inr (set_bln it ((x, k', k + 1) # fs))
                else to_parent cmp (set_bln it ((x, k', k) # fs))) = Inr it' \<and>
        scion_at ord t d it' (drop (length (inorder c) + 1) ys)"
proof -
  obtain m kr cr where v: "length kr = length cr"
    "drop (k + 1) (bkeys x) = kr" "drop (k + 1 + 1) (bkids x) = cr" "kr = [] \<longleftrightarrow> \<not> k + 1 < nkeys x"
    "il_post (drop k (bkeys x)) (map inorder (drop (k + 1) (bkids x))) = m # inorder c @ il_post kr (map inorder cr)"
    using slot_view [OF x(1,3)] c by (metis sum.inject(2))
  have dr: "drop (length (inorder c) + 1) ys = il_post kr (map inorder cr) @ r" unfolding ys v(5) by simp
  show ?thesis
  proof (cases "k + 1 < nkeys x")
    case True
    then have "iter_at ord t d (set_bln it ((x, k + 1, k + 1) # fs)) (drop (length (inorder c) + 1) ys)"
      unfolding dr using b x an nf len v(2,3) by (auto simp: iter_at_def on_slot_def)
    with True show ?thesis using ok b by (auto simp: k' scion_at_def top_ok_def)
  next
    case False
    then have "drop (length (inorder c) + 1) ys = r" using v(1,4) dr by simp
    with False show ?thesis
      using to_parent_at [OF an x(3), of "set_bln it ((x, k, k) # fs)" k d] nf len ok b by (auto simp: k')
  qed
qed

text \<open>Over the key \<open>k\<close> only, to the first entry below the child right of it.\<close>

lemma enter_kid_at:
  assumes t: "2 \<le> t" and d: "d \<le> MAX_BTREE_DEPTH"
    and b: "bln it = (x, k, k) # fs" and x: "shape t (Suc h) x" "k < nkeys x"
    and at: "iter_at ord t d it ys" and nf: "\<not> finished it"
    and ok: "nodes_ok (bln it)" and c: "kid x (k + 1) = Inr c"
    and ys: "ys = il_post (drop k (bkeys x)) (map inorder (drop (k + 1) (bkids x))) @ r"
    and k': "k' = (if k + 1 < nkeys x then k + 1 else k)"
  shows "\<exists>it1 it'. GET_NEW_CHILD (set_bln it ((x, k', k + 1) # fs)) = Inr it1 \<and> tochildrecurse it1 c = Inr it' \<and>
     scion_at ord t d it' (drop 1 ys)"
proof -
  obtain m kr cr where v: "c \<in> set (bkids x)"
    "il_post (drop k (bkeys x)) (map inorder (drop (k + 1) (bkids x))) = m # inorder c @ il_post kr (map inorder cr)"
    using slot_view [OF x] c by (metis sum.inject(2))
  have "ys = m # tl ys" unfolding ys v(2) by simp
  then obtain it' where it': "btNext cmp True it = Inr (Some m, it')" "iter_at ord t d it' (tl ys)"
    using btNext_asc [OF t d, of it m "tl ys"] at by auto
  have "iter_node it = Inr it'" using it'(1) b nf x(1) by (auto simp: btNext_def c_bind_Inr_iff)
  then have g: "\<exists>it1. GET_NEW_CHILD (set_bln it ((x, k', k + 1) # fs)) = Inr it1 \<and> tochildrecurse it1 c = Inr it'"
    using b x(2) c by (auto simp: iter_node_def c_bind_Inr_iff set_bln_def Let_def k')
  have "bkeys c \<noteq> []" using x(1) t v(1) by (auto simp: nkeys_def)
  then have "inorder c \<noteq> []" using keys_in_inorder [of c] by auto
  then have "\<not> finished it'" using it'(2) unfolding ys v(2) by (auto simp: iter_at_def)
  then have "scion_at ord t d it' (drop 1 ys)"
    using it'(2) btNext_nodes [OF it'(1) ok] top_okI by (auto simp: scion_at_def drop_Suc)
  with g show ?thesis by blast
qed

lemma node_scion_step:
  assumes t: "2 \<le> t" and d: "d \<le> MAX_BTREE_DEPTH"
    and b: "bln it = (x, k, k) # fs" and x: "shape t (Suc h) x" "sorted_by ord (inorder x)" "k < nkeys x"
    and an: "anc ord t (Suc h) x fs r" and nf: "\<not> finished it"
    and len: "length (bln it) + Suc h = d" "length (bln it) \<le> num_nodes it" "num_nodes it \<le> d"
    and ok: "nodes_ok (bln it)"
    and ys: "ys = il_post (drop k (bkeys x)) (map inorder (drop (k + 1) (bkids x))) @ r"
    and fl: "fl_over fl = - 1" "fl_cnt fl \<le> fl_ofst fl" "fl_diff fl \<le> fl_ofst fl - fl_cnt fl"
  shows "\<exists>fl' it'. iter_node_scion cmp fl it = Inr (fl', it') \<and> xth_post cmp ord t d fl ys fl' it'"
proof -
  obtain c where kc: "kid x (k + 1) = Inr c" using slot_view [OF x(1,3)] by metis
  let ?l = "length (inorder c)"
  have su: "uint (scion c) = int ?l" "uint (scion c + 1) = int ?l + 1"
    using unat_scion_succ [OF _ kc] ok b x(3) by auto
  define k' where "k' = (if k + 1 < nkeys x then k + 1 else k)"
  have at: "iter_at ord t d it ys"
    using b x an nf len ys by (auto simp: iter_at_def on_slot_def)
  consider (skip) "fl_diff fl > int ?l" | (here) "fl_diff fl \<le> int ?l" "fl_ofst fl < fl_cnt fl + 1"
    | (down) "fl_diff fl \<le> int ?l" "fl_cnt fl + 1 \<le> fl_ofst fl" by linarith
  then show ?thesis
  proof cases
    case skip
    let ?c = "fl_cnt fl + int (?l + 1)"
    obtain it' where it': "(if k + 1 < nkeys x then Inr (set_bln it ((x, k', k + 1) # fs))
                else to_parent cmp (set_bln it ((x, k', k) # fs))) = Inr it'"
        "scion_at ord t d it' (drop (?l + 1) ys)"
      using skip_kid_at [OF b x an nf len ok kc ys k'_def] by blast
    have le: "?c \<le> fl_ofst fl" using skip fl(3) by simp
    have "iter_node_scion cmp fl it = Inr (let fl' = fl\<lparr>fl_cnt := ?c, fl_diff := fl_ofst fl - ?c\<rparr> in
       if fl_diff fl' = 0 then fl'\<lparr>fl_over := 0\<rparr> else fl', it')"
      using b x(3) kc su skip le it'(1)
      by (cases "k + 1 < nkeys x") (simp_all add: iter_node_scion_def Let_def k'_def ac_simps)
    with xth_post_move [OF it'(2) _ le fl(1)] show ?thesis by auto
  next
    case here
    let ?fl = "fl\<lparr>fl_cnt := fl_cnt fl + 1, fl_diff := fl_ofst fl - (fl_cnt fl + 1), fl_over := 0\<rparr>"
    have "iter_node_scion cmp fl it = Inr (?fl, it)"
      using b x(3) kc su here by (simp add: iter_node_scion_def Let_def)
    moreover have "nat (fl_ofst fl - fl_cnt fl) = 0" using here fl(2) by simp
    moreover have "scion_at ord t d it ys" using at ok top_okI [OF nf at] by (simp add: scion_at_def)
    ultimately show ?thesis using xth_adjust_0 [OF top_okI [OF nf at]] by (auto simp: xth_post_def)
  next
    case down
    let ?c = "fl_cnt fl + int 1"
    obtain it1 it' where g: "GET_NEW_CHILD (set_bln it ((x, k', k + 1) # fs)) = Inr it1"
      "tochildrecurse it1 c = Inr it'" "scion_at ord t d it' (drop 1 ys)"
      using enter_kid_at [OF t d b x(1,3) at nf ok kc ys k'_def] by blast
    have "iter_node_scion cmp fl it = Inr (let fl' = fl\<lparr>fl_cnt := ?c, fl_diff := fl_ofst fl - ?c\<rparr> in
       if fl_diff fl' = 0 then fl'\<lparr>fl_over := 0\<rparr> else fl', it')"
      using b x(3) kc su down g(1,2)
      by (cases "k + 1 < nkeys x") (simp_all add: iter_node_scion_def Let_def k'_def)
    with xth_post_move [OF g(3) _ _ fl(1)] down show ?thesis by auto
  qed
qed

end

text \<open>A finished iterator still stands on a slot of its block, which \<^verbatim>\<open>XthIterFind\<close> reads.\<close>

lemma toparentrecurse_top:
  assumes "toparentrecurse cmp fs = Inr (fs', fin)" "\<exists>x k n fs0. fs = (x, k, n) # fs0 \<and> k < nkeys x"
  shows "\<exists>x k n fs0. fs' = (x, k, n) # fs0 \<and> k < nkeys x"
  using assms
proof (induction cmp fs arbitrary: fs' fin rule: toparentrecurse.induct)
  case (1 cmp x xk xn p pk pn fs)
  from 1(2) have pk: "pk < nkeys p" by (auto simp: c_bind_Inr_iff c_read_def nkeys_def split: if_splits)
  then have pk': "(if pk + 1 < nkeys p then pk + 1 else pk) < nkeys p" by simp
  from 1(2) obtain child parent where rd: "c_read (bkeys x) xk = Inr child" "c_read (bkeys p) pk = Inr parent"
    by (auto simp: c_bind_Inr_iff)
  show ?case
  proof (cases "0 < cmp child parent \<and> \<not> pn + 1 < nkeys p")
    case True
    with 1(2) rd 1(1) [OF rd _ refl, of fs' fin] pk' show ?thesis by (simp add: Let_def)
  next
    case False
    with 1(2) rd pk pk' show ?thesis by (auto simp: Let_def split: if_splits)
  qed
qed auto

lemma to_parent_top: "to_parent cmp it = Inr it' \<Longrightarrow> top_ok it \<Longrightarrow> top_ok it'"
  by (auto simp: to_parent_def c_bind_Inr_iff top_ok_def dest: toparentrecurse_top)

lemma get_new_finished: "GET_NEW_CHILD it = Inr it' \<Longrightarrow> finished it' = finished it"
  "get_new_iter_child it = Inr it' \<Longrightarrow> finished it' = finished it"
  by (auto simp: GET_NEW_CHILD_def get_new_iter_child_def split: if_splits)

lemma tochildrecurse_finished: "tochildrecurse it x = Inr it' \<Longrightarrow> finished it' = finished it"
proof (induction it x arbitrary: it' rule: tochildrecurse.induct)
  case (1 it x)
  show ?case
  proof (cases "leaf x")
    case True
    with 1(2) show ?thesis by (subst (asm) tochildrecurse.simps) (auto simp: to_child_def)
  next
    case False
    with 1(2) obtain it2 c where g: "GET_NEW_CHILD (to_child it x) = Inr it2" "kid x 0 = Inr c"
      "tochildrecurse it2 c = Inr it'"
      by (subst (asm) tochildrecurse.simps) (auto simp: c_bind_Inr_iff)
    with 1(1) [OF refl False g] get_new_finished(1) [OF g(1)] show ?thesis by (simp add: to_child_def)
  qed
qed

lemma btNext_top:
  assumes "btNext cmp True it = Inr (e, it')" "top_ok it" "finished it'"
  shows "top_ok it'"
proof (cases "finished it")
  case True
  with assms show ?thesis by (simp add: btNext_def)
next
  case nf: False
  obtain x xk xn fs where b: "bln it = (x, xk, xn) # fs" using assms(2) by (auto simp: top_ok_def)
  show ?thesis
  proof (cases "leaf x")
    case True
    then have "iter_leaf cmp it = Inr it'" using assms(1) nf b by (auto simp: btNext_def c_bind_Inr_iff)
    with assms(2,3) b nf show ?thesis by (auto simp: iter_leaf_def split: if_splits dest: to_parent_top)
  next
    case False
    then have "iter_node it = Inr it'" using assms(1) nf b by (auto simp: btNext_def c_bind_Inr_iff)
    with assms(3) nf b show ?thesis
      by (auto simp: iter_node_def Let_def c_bind_Inr_iff dest!: get_new_finished tochildrecurse_finished)
  qed
qed

lemma setIter_top:
  assumes "setIter cmp b k True it0 = Inr (e, em, it)" "finished it"
  shows "top_ok it"
proof -
  obtain ret it1 where i: "bt_init_iterator cmp b k it0 = Inr (ret, it1)"
    using assms(1) by (auto simp: setIter_def c_bind_Inr_iff)
  then have "top_ok it1"
    using assms(1) by (auto simp: setIter_def c_bind_Inr_iff c_read_def top_ok_def nkeys_def split: list.splits if_splits)
  moreover have "it = it1 \<or> (\<exists>e'. btNext cmp True it1 = Inr (e', it))"
    using assms(1) i by (auto simp: setIter_def c_bind_Inr_iff split: list.splits if_splits prod.splits)
  ultimately show ?thesis using btNext_top assms(2) by blast
qed

lemma bt_wf_numkeys:
  assumes "bt_wf ord b"
  shows "bt_numkeys b = 0 \<longleftrightarrow> inorder (bt_root b) = []"
proof -
  have "unat (bt_numkeys b) = length (inorder (bt_root b))"
    using assms by (simp add: bt_wf_def unat_of_nat)
  then show ?thesis by (metis length_0_conv unat_eq_zero)
qed

context bt_order
begin

lemma btNext_scion_step:
  assumes t: "2 \<le> t" and d: "d \<le> MAX_BTREE_DEPTH" and at: "scion_at ord t d it ys" and nf: "\<not> finished it"
    and fl: "fl_over fl = - 1" "fl_cnt fl \<le> fl_ofst fl" "fl_diff fl \<le> fl_ofst fl - fl_cnt fl"
  shows "\<exists>e fl' it'. btNext_scion cmp True fl it = Inr (Some e, fl', it') \<and> xth_post cmp ord t d fl ys fl' it'"
proof -
  obtain h where os: "on_slot ord t h (bln it) ys" and lh: "length (bln it) + h = d"
    and nn: "length (bln it) \<le> num_nodes it" "num_nodes it \<le> d" and ok: "nodes_ok (bln it)"
    using at nf by (auto simp: scion_at_def iter_at_def)
  obtain x k xn fs r where b: "bln it = (x, k, xn) # fs" and x: "shape t h x" "sorted_by ord (inorder x)"
    "k < nkeys x" and an: "anc ord t h x fs r"
    and rest: "h = 0 \<and> ys = drop k (bkeys x) @ r \<or>
      0 < h \<and> xn = k \<and> ys = il_post (drop k (bkeys x)) (map inorder (drop (k + 1) (bkids x))) @ r"
    using os by (auto simp: on_slot_def)
  have rd: "c_read (bkeys x) k = Inr (bkeys x ! k)" using x(3) by (simp add: nkeys_def)
  show ?thesis
  proof (cases h)
    case 0
    have h0: "shape t 0 x" "anc ord t 0 x fs r" "length (bln it) = d" "ys = drop k (bkeys x) @ r"
      using x(1) an lh rest 0 by simp_all
    obtain fl' it' where "iter_leaf_scion cmp fl it = Inr (fl', it')" "xth_post cmp ord t d fl ys fl' it'"
      using leaf_scion_step [OF b h0(1) x(2,3) h0(2) nf h0(3) nn ok fl(1,2)] h0(4) by auto
    then show ?thesis using b rd nf x(1) 0 by (simp add: btNext_scion_def)
  next
    case (Suc h')
    have hs: "shape t (Suc h') x" "anc ord t (Suc h') x fs r" "length (bln it) + Suc h' = d"
      "bln it = (x, k, k) # fs" "ys = il_post (drop k (bkeys x)) (map inorder (drop (k + 1) (bkids x))) @ r"
      using x(1) an lh rest Suc b by simp_all
    obtain fl' it' where "iter_node_scion cmp fl it = Inr (fl', it')" "xth_post cmp ord t d fl ys fl' it'"
      using node_scion_step [OF t d hs(4,1) x(2,3) hs(2) nf hs(3) nn ok hs(5) fl] by auto
    then show ?thesis using b rd nf x(1) Suc by (simp add: btNext_scion_def)
  qed
qed

lemma xth_loop_asc:
  assumes t: "2 \<le> t" and d: "d \<le> MAX_BTREE_DEPTH"
  shows "scion_at ord t d it ys \<Longrightarrow> fl_over fl = - 1 \<Longrightarrow> fl_cnt fl \<le> fl_ofst fl \<Longrightarrow>
     fl_diff fl \<le> fl_ofst fl - fl_cnt fl \<Longrightarrow> length ys < fuel \<Longrightarrow>
     \<exists>it'. xth_loop cmp True fuel fl it = Inr it' \<and> scion_at ord t d it' (drop (nat (fl_ofst fl - fl_cnt fl)) ys)"
proof (induction fuel arbitrary: fl it ys)
  case 0
  then show ?case by simp
next
  case (Suc fuel)
  show ?case
  proof (cases "finished it")
    case True
    then have "ys = []" using Suc.prems(1) by (simp add: scion_at_def iter_at_def)
    with True Suc.prems(1) show ?thesis by (simp add: btNext_scion_def)
  next
    case nf: False
    obtain e fl' it' where st: "btNext_scion cmp True fl it = Inr (Some e, fl', it')"
      "xth_post cmp ord t d fl ys fl' it'"
      using btNext_scion_step [OF t d Suc.prems(1) nf Suc.prems(2-4)] by blast
    show ?thesis
    proof (cases "fl_over fl' = - 1")
      case True
      then obtain m where m: "0 < m" "scion_at ord t d it' (drop m ys)" "fl_cnt fl' = fl_cnt fl + int m"
        "fl_cnt fl' \<le> fl_ofst fl" "fl_ofst fl' = fl_ofst fl" "fl_diff fl' = fl_ofst fl - fl_cnt fl'"
        using st(2) by (auto simp: xth_post_def)
      have "ys \<noteq> []"
        using Suc.prems(1) nf on_slot_nonempty by (auto simp: scion_at_def iter_at_def)
      then have "length (drop m ys) < fuel" using m(1) Suc.prems(5) by (cases ys) auto
      then obtain it2 where it2: "xth_loop cmp True fuel fl' it' = Inr it2"
        "scion_at ord t d it2 (drop (nat (fl_ofst fl' - fl_cnt fl')) (drop m ys))"
        using Suc.IH [OF m(2) True] m(4-6) by auto
      have "nat (fl_ofst fl' - fl_cnt fl') + m = nat (fl_ofst fl - fl_cnt fl)" using m(3-5) by simp
      with it2 st(1) True show ?thesis by simp
    next
      case False
      with st show ?thesis by (auto simp: xth_post_def)
    qed
  qed
qed

lemma bt_wf_node_ok: "bt_wf ord b \<Longrightarrow> node_ok (bt_root b)"
  by (simp add: bt_wf_def node_ok_def)

lemma bt_xth_asc:
  fixes lo hi :: 'e
  assumes wf: "bt_wf ord b" and num: "\<And>a b. num a < num b \<longleftrightarrow> ord a < ord b"
    and which: "which < MAX_NUM_ITERS" and ne: "inorder (bt_root b) \<noteq> []" and ofst: "0 \<le> ofst"
    and fuel: "length (inorder (bt_root b)) < fuel"
  defines "ys \<equiv> dropWhile (\<lambda>e. ord e < ord lo) (inorder (bt_root b))"
  shows "\<exists>s. btGetXthIter cmp num fuel which b lo hi ofst True = Inr (which + 1, Some s) \<and>
     (\<forall>fuel > length ys. range_loop cmp num True fuel s =
        Inr (Some (takeWhile (\<lambda>e. num e \<le> num hi) (drop (nat ofst) ys))))"
proof -
  have ly: "length ys \<le> length (inorder (bt_root b))" unfolding ys_def by (rule length_dropWhile_le)
  have srt: "sorted_by ord ys"
    using wf takeWhile_dropWhile_id [of "\<lambda>e. ord e < ord lo" "inorder (bt_root b)"]
    unfolding bt_wf_def ys_def by (metis sorted_by_simps(3))
  then have srtd: "sorted_by ord (drop n ys)" for n
    by (metis append_take_drop_id sorted_by_simps(3))
  have nz: "bt_numkeys b \<noteq> 0" using bt_wf_numkeys [OF wf] ne by simp
  have t: "2 \<le> bt_t b" "bheight (bt_root b) \<le> MAX_BTREE_DEPTH"
    using bt_wf_dest [OF wf] bt_wf_depth [OF wf] by metis+
  obtain e em iter where st: "setIter cmp b lo True (init_iter b) = Inr (e, em, iter)"
    "ys = [] \<longrightarrow> e = None \<and> em \<or> e \<noteq> None \<and> \<not> em \<and> iter_at ord (bt_t b) (bheight (bt_root b)) iter []"
    "ys \<noteq> [] \<longrightarrow> e \<noteq> None \<and> \<not> em \<and> iter_at ord (bt_t b) (bheight (bt_root b)) iter ys"
    using setIter_asc [OF wf ne, of lo] unfolding ys_def by blast
  show ?thesis
  proof (cases e)
    case None
    then have "ys = []" "em" using st by auto
    let ?s = "\<lparr>siter_x = iter, siter_empty = True, siter_high = num hi\<rparr>"
    have "range_loop cmp num True f ?s = Inr (Some [])" if "0 < f" for f
      using that by (cases f) (simp_all add: btRangeNext_def)
    with None st(1) nz which \<open>ys = []\<close> \<open>em\<close> show ?thesis
      by (intro exI [of _ ?s]) (simp add: btGetXthIter_def createIterator_def XthIterFind_def Let_def)
  next
    case (Some e')
    then have at: "iter_at ord (bt_t b) (bheight (bt_root b)) iter ys" and "\<not> em" using st by auto
    have "top_ok iter" using top_okI [OF _ at] setIter_top [OF st(1)] by blast
    then have "scion_at ord (bt_t b) (bheight (bt_root b)) iter ys"
      using at setIter_nodes [OF st(1) bt_wf_node_ok [OF wf]] by (simp add: scion_at_def)
    then obtain it' where it': "xth_loop cmp True fuel \<lparr>fl_cnt = 0, fl_ofst = ofst, fl_diff = 0, fl_over = - 1\<rparr> iter = Inr it'"
      "scion_at ord (bt_t b) (bheight (bt_root b)) it' (drop (nat ofst) ys)"
      using xth_loop_asc [OF t, of iter ys "\<lparr>fl_cnt = 0, fl_ofst = ofst, fl_diff = 0, fl_over = - 1\<rparr>" fuel]
        ofst fuel ly by auto
    then obtain x k n fs where top: "bln it' = (x, k, n) # fs" "k < nkeys x"
      by (auto simp: scion_at_def top_ok_def)
    let ?s = "\<lparr>siter_x = it', siter_empty = False, siter_high = num hi\<rparr>"
    have "btGetXthIter cmp num fuel which b lo hi ofst True = Inr (which + 1, Some ?s)"
      using Some st(1) nz which it'(1) top
      by (simp add: btGetXthIter_def createIterator_def XthIterFind_def Let_def nkeys_def)
    moreover have "range_loop cmp num True f ?s = Inr (Some (takeWhile (\<lambda>e. num e \<le> num hi) (drop (nat ofst) ys)))"
      if "length ys < f" for f
      using range_loop_asc [OF t num, of ?s "drop (nat ofst) ys" f] it'(2) srtd that by (simp add: scion_at_def)
    ultimately show ?thesis by blast
  qed
qed

end

subsection \<open>An offset over the whole tree\<close>

text \<open>The entries of an inner node from its child slot \<open>j\<close> on.\<close>

definition from_kid :: "'k btn \<Rightarrow> nat \<Rightarrow> 'k list" where
  "from_kid x j = inorder (bkids x ! j) @ il_post (drop j (bkeys x)) (map inorder (drop (j + 1) (bkids x)))"

lemma from_kid_0: "length (bkids x) = nkeys x + 1 \<Longrightarrow> from_kid x 0 = inorder x"
  by (erule first_view) (simp add: from_kid_def)

lemma from_kid_Suc:
  assumes "length (bkids x) = nkeys x + 1" "j < nkeys x"
  shows "from_kid x j = inorder (bkids x ! j) @ bkeys x ! j # from_kid x (j + 1)"
  using assms Cons_nth_drop_Suc [of j "bkeys x"] Cons_nth_drop_Suc [of "j + 1" "bkids x"]
  by (simp add: from_kid_def nkeys_def flip: Cons_nth_drop_Suc)

lemma from_kid_last: "length (bkids x) = nkeys x + 1 \<Longrightarrow> from_kid x (nkeys x) = inorder (bkids x ! nkeys x)"
  by (simp add: from_kid_def nkeys_def)

lemma scion_pick_asc:
  assumes x: "length (bkids x) = nkeys x + 1" "node_ok x" "0 < nkeys x"
  shows "j \<le> nkeys x \<Longrightarrow> unat ofst < length (from_kid x j) \<Longrightarrow>
    \<exists>i ofst'. scion_pick x [j..<nkeys x + 1] ofst = Inr (Some i, ofst') \<and> i \<le> nkeys x \<and>
      unat ofst' \<le> length (inorder (bkids x ! i)) \<and> (unat ofst' = length (inorder (bkids x ! i)) \<longrightarrow> i < nkeys x) \<and>
      drop (unat ofst) (from_kid x j) = drop (unat ofst') (from_kid x i)"
proof (induction "nkeys x - j" arbitrary: j ofst)
  case 0
  then have j: "j = nkeys x" by simp
  have k: "kid x j = Inr (bkids x ! j)" using x(1) j by (simp add: kid_def)
  then have "unat (scion (bkids x ! j)) = length (inorder (bkids x ! j))"
    by (intro scion_unat kid_node_ok(1) [OF x(2)])
  with 0 j k from_kid_last [OF x(1)] show ?case
    by (simp add: word_le_nat_alt unat_ucast_uint32)
next
  case (Suc m)
  then have j: "j < nkeys x" by simp
  have k: "kid x j = Inr (bkids x ! j)" using x(1) j by (simp add: kid_def)
  let ?k = "bkids x ! j" and ?l = "length (inorder (bkids x ! j))"
  have us: "uint (scion ?k) = int ?l" "uint (scion ?k + 1) = int ?l + 1" by (rule unat_scion_succ [OF x(2) k x(3)])+
  have u: "unat (scion ?k) = ?l" "unat (scion ?k + 1) = ?l + 1" using us by (simp_all add: unat_eq_nat_uint nat_add_distrib)
  have up: "[j..<nkeys x + 1] = j # [j + 1..<nkeys x + 1]" using j by (simp add: upt_rec)
  show ?case
  proof (cases "unat ofst \<le> ?l")
    case True
    then have "scion_pick x [j..<nkeys x + 1] ofst = Inr (Some j, ofst)"
      using k u by (simp only: up) (simp add: word_le_nat_alt unat_ucast_uint32)
    with True j show ?thesis by (intro exI [of _ j] exI [of _ ofst]) simp
  next
    case False
    let ?o = "ofst - ucast (scion ?k + 1)"
    have "ucast (scion ?k + 1) \<le> ofst" using False u by (simp add: word_le_nat_alt unat_ucast_uint32)
    then have uo: "unat ?o = unat ofst - (?l + 1)" using u by (simp add: unat_sub unat_ucast_uint32)
    have run: "scion_pick x [j..<nkeys x + 1] ofst = scion_pick x [j + 1..<nkeys x + 1] ?o"
      using k u False by (simp only: up) (simp add: word_le_nat_alt unat_ucast_uint32)
    have fk: "from_kid x j = (inorder ?k @ [bkeys x ! j]) @ from_kid x (j + 1)" using from_kid_Suc [OF x(1) j] by simp
    have dr: "drop (unat ofst) (from_kid x j) = drop (unat ?o) (from_kid x (j + 1))"
      unfolding fk uo drop_append using False by simp
    have "unat ?o < length (from_kid x (j + 1))" using Suc.prems(2) False unfolding fk uo by simp
    with Suc.hyps(1) [of "j + 1" ?o] Suc.hyps(2) j run dr show ?thesis by simp
  qed
qed

lemma scion_walk_asc:
  "i \<le> fin \<Longrightarrow> cnt + nat (fin - i) \<le> ofst \<Longrightarrow> nat (fin - i) < fuel \<Longrightarrow>
   scion_walk True fuel fin i cnt ofst = Inr (fin, cnt + nat (fin - i))"
proof (induction fuel arbitrary: i cnt)
  case (Suc fuel)
  show ?case
  proof (cases "i = fin")
    case False
    then have "nat (fin - i) = Suc (nat (fin - (i + 1)))" using Suc.prems(1) by linarith
    with Suc.IH [of "i + 1" "cnt + 1"] Suc.prems False show ?thesis by simp
  qed simp
qed simp

lemma scion_rest_asc:
  assumes "leaf x" "inorder x = bkeys x" "node_ok x" "unat ofst < nkeys x" "bln it = (x, xk, xn) # fs"
  shows "scion_rest True x ofst it = Inr (True, set_bln it ((x, unat ofst, xn) # fs))"
proof -
  have "unat (scion x) = nkeys x" using scion_unat [OF assms(3)] assms(2) by (simp add: nkeys_def)
  moreover obtain q where q: "q = unat ofst" "q < nkeys x" using assms(4) by simp
  moreover have "scion_walk True (nkeys x + 2) (int q) 0 0 q = Inr (int q, q)"
    using scion_walk_asc [of 0 "int q" 0 q "nkeys x + 2"] q(2) by simp
  ultimately show ?thesis using assms(5) unfolding scion_rest_def q(1) [symmetric]
    by (simp add: Let_def nkeys_def del: scion_walk.simps)
qed

text \<open>The block of an inner node above its child \<open>i\<close>.\<close>

lemma kid_block:
  assumes "2 \<le> t" "shape t (Suc h) x" "0 < nkeys x" "sorted_by ord (inorder x)" "anc ord t (Suc h) x fs r" "i \<le> nkeys x"
  shows "shape t h (bkids x ! i)" "0 < nkeys (bkids x ! i)" "sorted_by ord (inorder (bkids x ! i))"
    and "anc ord t h (bkids x ! i) ((x, if i = nkeys x then i - 1 else i, i) # fs)
      (il_post (drop i (bkeys x)) (map inorder (drop (i + 1) (bkids x))) @ r)"
proof -
  have lf: "\<not> leaf x" and lc: "length (bkids x) = nkeys x + 1" using assms(2) by simp_all
  obtain kl kr cl c cr where v: "x = BTN (scion x) (leaf x) (kl @ kr) (cl @ c # cr)" "length kl = i" "length cl = i"
    "length kr = length cr" by (rule node_view [OF lc assms(6)])
  have bx: "bkeys x = kl @ kr" "bkids x = cl @ c # cr" by (subst v(1), simp)+
  have cc: "bkids x ! i = c" using v(3) by (simp add: bx nth_append)
  obtain s where xe: "x = BTN s False (kl @ kr) (cl @ c # cr)" using v(1) lf by metis
  show "shape t h (bkids x ! i)" "0 < nkeys (bkids x ! i)" "sorted_by ord (inorder (bkids x ! i))"
    using assms(1,2,4) v(2-4) unfolding cc unfolding xe by (auto simp: inorder_view simp del: inorder.simps)
  have sl: "slot_ok (length kl) (length (kl @ kr)) (if i = nkeys x then i - 1 else i) i"
    using v(2) assms(3) by (cases kr) (auto simp: slot_ok_def nkeys_def bx)
  have rest: "drop i (bkeys x) = kr" "drop (i + 1) (bkids x) = cr" using v(2,3) by (simp_all add: bx)
  have ne: "kl @ kr \<noteq> []" using assms(3) by (auto simp: nkeys_def bx)
  show "anc ord t h (bkids x ! i) ((x, if i = nkeys x then i - 1 else i, i) # fs)
      (il_post (drop i (bkeys x)) (map inorder (drop (i + 1) (bkids x))) @ r)"
    unfolding cc rest
    by (rule anc_ConsI [OF xe _ v(4) ne assms(2,4) sl assms(5)]) (simp add: v(2,3))
qed

context bt_order
begin

lemma scion_find_asc:
  assumes "2 \<le> t" "d \<le> MAX_BTREE_DEPTH"
    "shape t h x" "0 < nkeys x" "sorted_by ord (inorder x)" "node_ok x" "anc ord t h x fs r"
    "bln it = (x, xk, xn) # fs" "length (bln it) + h = d" "num_nodes it = length (bln it)" "\<not> finished it"
    "unat ofst < length (inorder x)"
  shows "\<exists>it'. btScionFind True x ofst it = Inr (True, it') \<and> iter_at ord t d it' (drop (unat ofst) (inorder x) @ r)"
  using assms(3-12)
proof (induction h arbitrary: x fs r it xk xn ofst)
  case 0
  have lf: "leaf x" "inorder x = bkeys x" using 0(1) by (cases x; simp)+
  then have lt: "unat ofst < nkeys x" using 0(10) by (simp add: nkeys_def)
  have "btScionFind True x ofst it = Inr (True, set_bln it ((x, unat ofst, xn) # fs))"
    using scion_rest_asc [OF lf 0(4) lt 0(6)] lf(1) by (subst btScionFind.simps) simp
  moreover have "iter_at ord t d (set_bln it ((x, unat ofst, xn) # fs)) (drop (unat ofst) (inorder x) @ r)"
    using 0 lt lf by (auto simp: iter_at_def on_slot_leaf intro!: exI [of _ 0])
  ultimately show ?case by blast
next
  case (Suc h)
  have lf: "\<not> leaf x" and lc: "length (bkids x) = nkeys x + 1" using Suc.prems(1) by simp_all
  obtain i o1 where pk: "scion_pick x [0..<nkeys x + 1] ofst = Inr (Some i, o1)" "i \<le> nkeys x"
    "unat o1 \<le> length (inorder (bkids x ! i))" "unat o1 = length (inorder (bkids x ! i)) \<Longrightarrow> i < nkeys x"
    "drop (unat ofst) (inorder x) = drop (unat o1) (from_kid x i)"
    using scion_pick_asc [OF lc Suc.prems(4,2), of 0 ofst] Suc.prems(10) from_kid_0 [OF lc] by auto
  define c where "c = bkids x ! i"
  have k: "kid x i = Inr c" using lc pk(2) by (simp add: kid_def c_def)
  have cok: "node_ok c" by (rule kid_node_ok(1) [OF Suc.prems(4) k])
  have us: "unat (ucast (scion c) :: ulong) = length (inorder c)" using scion_unat [OF cok] by (simp add: unat_ucast_uint32)
  define it1 where "it1 = set_bln it ((x, if i = nkeys x then i - 1 else i, i) # fs)"
  show ?case
  proof (cases "unat o1 = length (inorder c)")
    case True
    then have in_x: "i < nkeys x" using pk(4) c_def by simp
    have "ucast (scion c) = o1" using True us by (simp add: word_unat_eq_iff)
    then have "btScionFind True x ofst it = Inr (True, it1)"
      using pk(1) lf Suc.prems(6) k by (subst btScionFind.simps) (simp add: it1_def Let_def)
    moreover have "iter_at ord t d it1 (drop (unat ofst) (inorder x) @ r)"
      unfolding pk(5) using True in_x Suc.prems by (auto simp: iter_at_def on_slot_def it1_def from_kid_def c_def)
    ultimately show ?thesis by blast
  next
    case False
    then have lt: "unat o1 < length (inorder c)" using pk(3) c_def by simp
    have ne: "ucast (scion c) \<noteq> o1" using False us by auto
    define it2 where "it2 = to_child (it1\<lparr>num_nodes := num_nodes it1 + 1\<rparr>) c"
    have b2: "bln it2 = (c, 0, 0) # (x, if i = nkeys x then i - 1 else i, i) # fs"
      "num_nodes it2 = length (bln it2)" "\<not> finished it2" "length (bln it2) + h = d"
      using Suc.prems(6-9) by (simp_all add: it2_def to_child_def it1_def)
    have gn: "get_new_iter_child it1 = Inr (it1\<lparr>num_nodes := num_nodes it1 + 1\<rparr>)"
      using Suc.prems(6-8) assms(2) by (simp add: get_new_iter_child_def it1_def)
    define q where "q = il_post (drop i (bkeys x)) (map inorder (drop (i + 1) (bkids x)))"
    have c: "shape t h c" "0 < nkeys c" "sorted_by ord (inorder c)"
      and an: "anc ord t h c ((x, if i = nkeys x then i - 1 else i, i) # fs) (q @ r)"
      using kid_block [OF assms(1) Suc.prems(1,2,3,5) pk(2)] by (simp_all add: c_def q_def)
    obtain it' where it': "btScionFind True c o1 it2 = Inr (True, it')"
      "iter_at ord t d it' (drop (unat o1) (inorder c) @ q @ r)"
      using Suc.IH [OF c cok an b2(1,4,2,3) lt] by blast
    have "btScionFind True x ofst it = Inr (True, it')"
    proof (cases "leaf c")
      case True
      then have "scion_rest True c o1 it2 = Inr (True, it')" using it'(1) by (subst (asm) btScionFind.simps) simp
      with pk(1) lf Suc.prems(6) k ne True gn show ?thesis
        by (subst btScionFind.simps) (simp add: Let_def it2_def flip: it1_def)
    next
      case False
      with pk(1) lf Suc.prems(6) k ne it'(1) gn show ?thesis
        by (subst btScionFind.simps) (simp add: Let_def it2_def flip: it1_def)
    qed
    moreover have "drop (unat ofst) (inorder x) = drop (unat o1) (inorder c) @ q"
      unfolding pk(5) from_kid_def using lt by (simp add: q_def c_def)
    ultimately show ?thesis using it'(2) by auto
  qed
qed

end

context bt_order
begin

lemma bt_full_bounds:
  assumes wf: "bt_wf ord b" and ne: "inorder (bt_root b) \<noteq> []"
  shows "assignMinKey num b = Inr (Some (num (hd (inorder (bt_root b)))))"
    "assignMaxKey num b = Inr (Some (num (last (inorder (bt_root b)))))"
  using bt_ends_ok [OF wf] ne by (simp_all add: assignMinKey_def assignMaxKey_def)

lemma takeWhile_le_last:
  assumes num: "\<And>a b. num a < num b \<longleftrightarrow> ord a < ord b" and srt: "sorted_by ord ys" and suf: "ys = drop n ys0" "ys \<noteq> []"
  shows "takeWhile (\<lambda>e. num e \<le> (num (last ys0) :: ulong)) ys = ys"
proof -
  have l: "last ys0 = last ys" using suf by simp
  have "\<not> ord (last ys) < ord e" if "e \<in> set ys" for e
  proof -
    obtain zs where zs: "ys = zs @ [last ys]" using suf(2) append_butlast_last_id by metis
    then have "sorted_by ord (zs @ [last ys])" "e \<in> set (zs @ [last ys])" using srt that by metis+
    then show ?thesis by auto
  qed
  then show ?thesis unfolding l by (simp add: takeWhile_eq_all_conv num flip: not_less)
qed

lemma bt_full_asc:
  assumes wf: "bt_wf ord b" and num: "\<And>a b. num a < num b \<longleftrightarrow> ord a < ord b"
    and mk: "\<And>e. e \<in> set (inorder (bt_root b)) \<Longrightarrow> ord (mk (num e)) = ord e"
    and which: "which < MAX_NUM_ITERS" and ne: "inorder (bt_root b) \<noteq> []"
    and fuel: "length (inorder (bt_root b)) < fuel"
  shows "\<exists>s. btGetFullRangeIter cmp num mk which b True = Inr (which + 1, Some s) \<and>
     range_loop cmp num True fuel s = Inr (Some (inorder (bt_root b)))"
proof -
  let ?xs = "inorder (bt_root b)"
  let ?lo = "mk (num (hd ?xs))"
  have srt: "sorted_by ord ?xs" using wf by (simp add: bt_wf_def)
  have lo: "ord ?lo = ord (hd ?xs)" using mk ne by simp
  have ys: "dropWhile (\<lambda>e. ord e < ord ?lo) ?xs = ?xs" unfolding lo using ne by (cases ?xs) auto
  have t: "2 \<le> bt_t b" "bheight (bt_root b) \<le> MAX_BTREE_DEPTH"
    using bt_wf_dest [OF wf] bt_wf_depth [OF wf] by metis+
  obtain e it where st: "setIter cmp b ?lo True (init_iter b) = Inr (Some e, False, it)"
    "iter_at ord (bt_t b) (bheight (bt_root b)) it ?xs"
    using setIter_asc [OF wf ne, of ?lo] unfolding ys using ne by fastforce
  let ?s = "\<lparr>siter_x = it, siter_empty = False, siter_high = num (last ?xs)\<rparr>"
  have "range_loop cmp num True fuel ?s = Inr (Some ?xs)"
    using range_loop_asc [OF t num, of ?s ?xs fuel] st(2) srt fuel
      takeWhile_le_last [OF num srt, of 0 ?xs] ne by simp
  moreover have "btGetFullRangeIter cmp num mk which b True = Inr (which + 1, Some ?s)"
    using bt_wf_numkeys [OF wf] ne bt_full_bounds [OF wf ne] which st(1)
    by (simp add: btGetFullRangeIter_def createIterator_def Let_def)
  ultimately show ?thesis by blast
qed

lemma bt_full_xth_asc:
  assumes wf: "bt_wf ord b" and num: "\<And>a b. num a < num b \<longleftrightarrow> ord a < ord b"
    and which: "which < MAX_NUM_ITERS" and ofst: "unat ofst < length (inorder (bt_root b))"
    and fuel: "length (inorder (bt_root b)) < fuel"
  shows "\<exists>s. btGetFullXthIter num which b ofst True = Inr (which + 1, Some s) \<and>
     range_loop cmp num True fuel s = Inr (Some (drop (unat ofst) (inorder (bt_root b))))"
proof -
  let ?xs = "inorder (bt_root b)"
  have ne: "?xs \<noteq> []" using ofst by auto
  obtain h where d: "shape (bt_t b) h (bt_root b)" "2 \<le> bt_t b" "sorted_by ord ?xs" "bheight (bt_root b) = Suc h"
    "leaf (bt_root b) \<or> 0 < nkeys (bt_root b)" using bt_wf_dest [OF wf] by metis
  have nz: "0 < nkeys (bt_root b)" using d(1,5) ne by (cases h; cases "bt_root b") auto
  have dd: "Suc h \<le> MAX_BTREE_DEPTH" using bt_wf_depth [OF wf] d(4) by simp
  obtain it where it: "btScionFind True (bt_root b) ofst (init_iter b) = Inr (True, it)"
    "iter_at ord (bt_t b) (Suc h) it (drop (unat ofst) ?xs)"
    using scion_find_asc [OF d(2) dd d(1) nz d(3) bt_wf_node_ok [OF wf], of "[]" "[]" "init_iter b" 0 0 ofst] ofst
    by (auto simp: init_iter_def)
  let ?s = "\<lparr>siter_x = it, siter_empty = False, siter_high = num (last ?xs)\<rparr>"
  have srt: "sorted_by ord (drop (unat ofst) ?xs)" using d(3) by (metis append_take_drop_id sorted_by_simps(3))
  have "range_loop cmp num True fuel ?s = Inr (Some (drop (unat ofst) ?xs))"
    using range_loop_asc [OF d(2) dd num, of ?s "drop (unat ofst) ?xs" fuel] it(2) srt fuel
      takeWhile_le_last [OF num srt refl] ofst by simp
  moreover have "btGetFullXthIter num which b ofst True = Inr (which + 1, Some ?s)"
    using bt_wf_numkeys [OF wf] ne bt_full_bounds [OF wf ne] which it(1)
    by (simp add: btGetFullXthIter_def createIterator_def Let_def)
  ultimately show ?thesis by blast
qed

end

subsection \<open>Properties of the offset iterators\<close>

definition demo_deep :: "ulong bt" where
  "demo_deep = \<lparr>bt_root = BTN 12 False [4, 8] [BTN 3 True [1, 2, 3] [], BTN 3 True [5, 6, 7] [],
     BTN 4 True [9, 10, 11, 12] []], bt_numkeys = 12, bt_numnodes = 5, bt_t = 4, bt_nbits = 4\<rparr>"

lemma demo_deep_wf: "bt_wf (\<lambda>l. l) demo_deep"
  "inorder (bt_root demo_deep) = [1, 2, 3, 4, 5, 6, 7, 8, 9, 10, 11, 12]"
  by (simp_all add: bt_wf_def demo_deep_def bt_geometry_def GETN_def)



text \<open>
  C30. Scans of a whole index. On a well-formed, non-empty index \<^verbatim>\<open>btGetFullRangeIter\<close> returns an iterator whose
  loop visits every row in order; and for an offset below the number of rows \<^verbatim>\<open>btGetFullXthIter\<close>, which goes
  down the tree by the \<^verbatim>\<open>scion\<close> counters without looking at the rows before, returns one whose loop visits every
  row but the first \<open>ofst\<close>.
\<close>

theorem bt_full_scan_correct:
  fixes b :: "'k bt"
  assumes "bt_order cmp ord" and "bt_wf ord b" and "\<And>a b. num a < num b \<longleftrightarrow> ord a < ord b"
    and "\<And>e. e \<in> set (inorder (bt_root b)) \<Longrightarrow> ord (mk (num e)) = ord e"
    and "which < MAX_NUM_ITERS" and "unat ofst < length (inorder (bt_root b))"
    and "length (inorder (bt_root b)) < fuel"
  shows "(\<exists>s. btGetFullRangeIter cmp num mk which b True = Inr (which + 1, Some s) \<and>
       range_loop cmp num True fuel s = Inr (Some (inorder (bt_root b)))) \<and>
     (\<exists>s. btGetFullXthIter num which b ofst True = Inr (which + 1, Some s) \<and>
       range_loop cmp num True fuel s = Inr (Some (drop (unat ofst) (inorder (bt_root b)))))"
proof
  have "inorder (bt_root b) \<noteq> []" using assms(6) by auto
  then show "\<exists>s. btGetFullRangeIter cmp num mk which b True = Inr (which + 1, Some s) \<and>
       range_loop cmp num True fuel s = Inr (Some (inorder (bt_root b)))"
    using bt_order.bt_full_asc [OF assms(1,2) _ _ assms(5) _ assms(7), of num mk] assms(3,4) by blast
  show "\<exists>s. btGetFullXthIter num which b ofst True = Inr (which + 1, Some s) \<and>
       range_loop cmp num True fuel s = Inr (Some (drop (unat ofst) (inorder (bt_root b))))"
    using bt_order.bt_full_xth_asc [OF assms(1,2) _ assms(5-7), of num] assms(3) by blast
qed

theorem bt_full_scan_correct_witness:
  "(\<exists>s. btGetFullRangeIter ulongCmp id id 0 demo_deep True = Inr (0 + 1, Some s) \<and>
       range_loop ulongCmp id True 13 s = Inr (Some (inorder (bt_root demo_deep)))) \<and>
     (\<exists>s. btGetFullXthIter id 0 demo_deep 9 True = Inr (0 + 1, Some s) \<and>
       range_loop ulongCmp id True 13 s = Inr (Some (drop (unat (9 :: ulong)) (inorder (bt_root demo_deep)))))"
  by (rule bt_full_scan_correct [OF ulong_order.bt_order_axioms demo_deep_wf(1)])
    (simp_all add: MAX_NUM_ITERS_def demo_deep_wf(2))

text \<open>The rows a full scan with OFFSET delivers.\<close>

definition offset_scan :: "ulong bt \<Rightarrow> ulong \<Rightarrow> bool \<Rightarrow> ulong list option c_res" where
  "offset_scan b ofst asc = c_bind (btGetFullXthIter id 0 b ofst asc) (\<lambda>(w, si).
     case si of None \<Rightarrow> Inr None | Some s \<Rightarrow> range_loop ulongCmp id asc 20 s)"


end
