(* ===== verification/Alc_Orderby.thy ===== *)
theory Alc_Orderby
  imports Alc_Row "HOL-Library.Multiset"
begin

text \<open>
  ORDER BY, \<^verbatim>\<open>src/DB/orderby.c\<close>: the sort keys of a row, their comparators and the sorted vector. A key is the
  \<^verbatim>\<open>void *\<close> of \<^verbatim>\<open>obsl_t\<close>: a number stored in the pointer, or the address of an allocated U128 or text, which are kept
  with what they point to; \<open>None\<close> is an entry of \<^verbatim>\<open>keys\<close> that was never written. The \<^verbatim>\<open>qsort\<close> of the C library is a
  parameter with the contract \<open>c_qsort\<close>. The Lua forms of ORDER BY are arguments.
\<close>

datatype ob_key = OB_word ulong | OB_x uint128 | OB_str ulong "byte list"

record 'r obsl_t =
  ob_row :: 'r
  ob_keys :: "ob_key option list"
  ob_apk :: "aobj option"

text \<open>One ORDER BY column of \<^verbatim>\<open>wob_t\<close>, with \<^verbatim>\<open>le[i].yes\<close>; then the structure itself, where -1 means no LIMIT or OFFSET.\<close>

record ob_col =
  obc :: icol_t
  ob_asc :: bool
  le_yes :: bool

record wob_t =
  wb_cols :: "ob_col list"
  lim :: int
  ofst :: int

subsection \<open>Comparators\<close>

definition ob_word :: "ob_key \<Rightarrow> ulong" where
  "ob_word k = (case k of OB_word w \<Rightarrow> w | OB_x _ \<Rightarrow> 0 | OB_str adr _ \<Rightarrow> adr)"

text \<open>A difference returned as an \<^verbatim>\<open>int\<close>.\<close>

definition cut_int :: "ulong \<Rightarrow> int" where
  "cut_int w = sint (ucast w :: uint32)"

definition intOrderBySort :: "ob_key \<Rightarrow> ob_key \<Rightarrow> int c_res" where
  "intOrderBySort s1 s2 = Inr (cut_int (ob_word s1 - ob_word s2))"

definition intOrderByRevSort :: "ob_key \<Rightarrow> ob_key \<Rightarrow> int c_res" where
  "intOrderByRevSort s1 s2 = Inr (cut_int (ob_word s2 - ob_word s1))"

definition ulongOrderBySort :: "ob_key \<Rightarrow> ob_key \<Rightarrow> int c_res" where
  "ulongOrderBySort s1 s2 = Inr (if ob_word s1 = ob_word s2 then 0 else if ob_word s1 > ob_word s2 then 1 else - 1)"

definition ulongOrderByRevSort :: "ob_key \<Rightarrow> ob_key \<Rightarrow> int c_res" where
  "ulongOrderByRevSort s1 s2 = Inr (if ob_word s1 = ob_word s2 then 0 else if ob_word s1 > ob_word s2 then - 1 else 1)"

text \<open>\<^verbatim>\<open>*((uint128 *)s)\<close>; a pointer that is not one made by \<^verbatim>\<open>assignObKey\<close> is \<^verbatim>\<open>NULL\<close> or no U128.\<close>

definition ob_u128 :: "ob_key \<Rightarrow> uint128 c_res" where
  "ob_u128 k = (case k of OB_x x \<Rightarrow> Inr x | OB_word w \<Rightarrow> if w = 0 then Inl Null_deref else Inl OOB_read | OB_str _ _ \<Rightarrow> Inl OOB_read)"

definition u128OrderBySort :: "ob_key \<Rightarrow> ob_key \<Rightarrow> int c_res" where
  "u128OrderBySort s1 s2 = c_bind (ob_u128 s1) (\<lambda>x1. c_bind (ob_u128 s2) (\<lambda>x2.
     Inr (if x1 = x2 then 0 else if x1 > x2 then 1 else - 1)))"

definition u128OrderByRevSort :: "ob_key \<Rightarrow> ob_key \<Rightarrow> int c_res" where
  "u128OrderByRevSort s1 s2 = c_bind (ob_u128 s1) (\<lambda>x1. c_bind (ob_u128 s2) (\<lambda>x2.
     Inr (if x1 = x2 then 0 else if x1 > x2 then - 1 else 1)))"

definition ob_float :: "ob_key \<Rightarrow> uint32" where "ob_float k = ucast (ob_word k)"

definition floatOrderBySort :: "c_float \<Rightarrow> ob_key \<Rightarrow> ob_key \<Rightarrow> int c_res" where
  "floatOrderBySort fl s1 s2 = Inr (sgn (fl_sub_sign fl (ob_float s1) (ob_float s2)))"

definition floatOrderByRevSort :: "c_float \<Rightarrow> ob_key \<Rightarrow> ob_key \<Rightarrow> int c_res" where
  "floatOrderByRevSort fl s1 s2 = Inr (sgn (fl_sub_sign fl (ob_float s2) (ob_float s1)))"

text \<open>\<^verbatim>\<open>strcmp\<close>.\<close>

fun c_strcmp :: "byte list \<Rightarrow> byte list \<Rightarrow> int c_res" where
  "c_strcmp (a # s) (b # t) =
     (if a \<noteq> b then Inr (int (unat a) - int (unat b)) else if a = 0 then Inr 0 else c_strcmp s t)"
| "c_strcmp _ _ = Inl OOB_read"

definition stringOrderBySort :: "ob_key \<Rightarrow> ob_key \<Rightarrow> int c_res" where
  "stringOrderBySort s1 s2 = (case (s1, s2) of
       (OB_str _ s, OB_str _ t) \<Rightarrow> c_strcmp s t
     | _ \<Rightarrow> if ob_word s1 = 0 \<or> ob_word s2 = 0 then Inr (cut_int (ob_word s1 - ob_word s2)) else Inl OOB_read)"

definition stringOrderByRevSort :: "ob_key \<Rightarrow> ob_key \<Rightarrow> int c_res" where
  "stringOrderByRevSort s1 s2 = (case (s1, s2) of
       (OB_str _ s, OB_str _ t) \<Rightarrow> c_strcmp t s
     | _ \<Rightarrow> if ob_word s1 = 0 \<or> ob_word s2 = 0 then Inr (cut_int (ob_word s2 - ob_word s1)) else Inl OOB_read)"

text \<open>The table; the types behind LUAO have no entry.\<close>

definition OB_cmp :: "c_float \<Rightarrow> coltype \<Rightarrow> bool \<Rightarrow> ob_key \<Rightarrow> ob_key \<Rightarrow> int c_res" where
  "OB_cmp fl ct asc = (case ct of
       COL_TYPE_NONE \<Rightarrow> (\<lambda>_ _. Inl Null_deref)
     | COL_TYPE_INT \<Rightarrow> if asc then intOrderBySort else intOrderByRevSort
     | COL_TYPE_LONG \<Rightarrow> if asc then ulongOrderBySort else ulongOrderByRevSort
     | COL_TYPE_STRING \<Rightarrow> if asc then stringOrderBySort else stringOrderByRevSort
     | COL_TYPE_FLOAT \<Rightarrow> if asc then floatOrderBySort fl else floatOrderByRevSort fl
     | COL_TYPE_U128 \<Rightarrow> if asc then u128OrderBySort else u128OrderByRevSort
     | COL_TYPE_LUAO \<Rightarrow> if asc then ulongOrderBySort else ulongOrderByRevSort
     | _ \<Rightarrow> (\<lambda>_ _. Inl OOB_read))"

text \<open>Reading \<^verbatim>\<open>keys[j]\<close>.\<close>

definition ob_keyj :: "ob_key option list \<Rightarrow> nat \<Rightarrow> ob_key c_res" where
  "ob_keyj ks j = c_bind (c_read ks j) (\<lambda>k. case k of None \<Rightarrow> Inl Uninit_read | Some v \<Rightarrow> Inr v)"

text \<open>\<^verbatim>\<open>genOBsort\<close>; the globals \<^verbatim>\<open>OB_nob\<close>, \<^verbatim>\<open>OB_ctype\<close> and \<^verbatim>\<open>OB_asc\<close> are the list of column types and directions.\<close>

fun gen_cmp :: "c_float \<Rightarrow> nat \<Rightarrow> (coltype \<times> bool) list \<Rightarrow> ob_key option list \<Rightarrow> ob_key option list \<Rightarrow> int c_res" where
  "gen_cmp fl j [] k1 k2 = Inr 0"
| "gen_cmp fl j ((ct, asc) # obs) k1 k2 =
     c_bind (ob_keyj k1 j) (\<lambda>a. c_bind (ob_keyj k2 j) (\<lambda>b. c_bind (OB_cmp fl ct asc a b) (\<lambda>ret.
       if ret \<noteq> 0 then Inr ret else gen_cmp fl (j + 1) obs k1 k2)))"

definition genOBsort :: "c_float \<Rightarrow> (coltype \<times> bool) list \<Rightarrow> 'r obsl_t \<Rightarrow> 'r obsl_t \<Rightarrow> int c_res" where
  "genOBsort fl obs o1 o2 = gen_cmp fl 0 obs (ob_keys o1) (ob_keys o2)"

subsection \<open>The list of rows to sort\<close>

definition ob_ctype :: "r_tbl \<Rightarrow> ob_col \<Rightarrow> coltype c_res" where
  "ob_ctype rt c = (if cmatch (obc c) < 0 then Inl OOB_read else c_read (rt_col rt) (nat (cmatch (obc c))))"

text \<open>\<^verbatim>\<open>initOBsort\<close>: the globals and the list, \<open>None\<close> for \<^verbatim>\<open>NULL\<close>.\<close>

fun init_globals :: "r_tbl \<Rightarrow> ob_col list \<Rightarrow> (coltype \<times> bool) list c_res" where
  "init_globals rt [] = Inr []"
| "init_globals rt (c # cs) =
     c_bind (if le_yes c then Inr COL_TYPE_LUAO else ob_ctype rt c) (\<lambda>ct.
     c_bind (init_globals rt cs) (\<lambda>r. Inr ((ct, ob_asc c) # r)))"

definition initOBsort :: "r_tbl \<Rightarrow> bool \<Rightarrow> wob_t \<Rightarrow> bool \<Rightarrow> ((coltype \<times> bool) list \<times> 'r obsl_t list option) c_res" where
  "initOBsort rt qed wb rcrud =
     c_bind (init_globals rt (wb_cols wb)) (\<lambda>obs. Inr (obs, if qed \<or> rcrud then Some [] else None))"

definition create_obsl :: "'r \<Rightarrow> nat \<Rightarrow> 'r obsl_t" where
  "create_obsl row nob = \<lparr>ob_row = row, ob_keys = replicate nob None, ob_apk = None\<rparr>"

text \<open>\<^verbatim>\<open>cloneOb\<close> copies into new memory and skips the keys that are 0; the address of a copied text is not tracked.\<close>

definition clone_key :: "ob_key option \<Rightarrow> ob_key option c_res" where
  "clone_key k = (case k of
       None \<Rightarrow> Inl Uninit_read
     | Some (OB_word w) \<Rightarrow> Inr (if w = 0 then None else Some (OB_word w))
     | Some v \<Rightarrow> Inr (Some v))"

fun clone_keys :: "ob_key option list \<Rightarrow> ob_key option list c_res" where
  "clone_keys [] = Inr []"
| "clone_keys (k # ks) = c_bind (clone_key k) (\<lambda>v. c_bind (clone_keys ks) (\<lambda>vs. Inr (v # vs)))"

definition cloneOb :: "'r \<Rightarrow> 'r obsl_t \<Rightarrow> 'r obsl_t c_res" where
  "cloneOb null ob = c_bind (clone_keys (ob_keys ob)) (\<lambda>ks.
     Inr ((create_obsl null (length ks))\<lparr>ob_keys := ks, ob_apk := map_option aobjClone (ob_apk ob)\<rparr>))"

text \<open>
  \<^verbatim>\<open>assignObEmptyKey\<close> (for joins). For U128 the first test is followed by the one for numbers, so both run; the key
  of a float is the image of \<^verbatim>\<open>FLT_MIN\<close>.
\<close>

definition assignObEmptyKey :: "coltype \<Rightarrow> ob_key c_res" where
  "assignObEmptyKey ct =
     (if C_IS_NUM ct then Inr (OB_word 0)
      else if ct = COL_TYPE_FLOAT then Inr (OB_word 0x00800000)
      else if ct = COL_TYPE_STRING then Inr (OB_word 0)
      else Inl Assert_fail)"

text \<open>
  \<^verbatim>\<open>assignObKey\<close>. \<open>adr\<close> is the address \<^verbatim>\<open>malloc\<close> returns for a text, \<open>col\<close> is \<^verbatim>\<open>getCol\<close> on the row, \<open>lua_key\<close> answers the
  Lua forms and is \<open>None\<close> when Lua fails.
\<close>

definition assignObKey :: "(nat \<Rightarrow> ulong option) \<Rightarrow> ulong \<Rightarrow> r_tbl \<Rightarrow> (int \<Rightarrow> aobj c_res) \<Rightarrow> nat \<Rightarrow> ob_col \<Rightarrow> ob_key option c_res" where
  "assignObKey lua_key adr rt col i c =
     (if le_yes c then Inr (map_option OB_word (lua_key i))
      else c_bind (ob_ctype rt c) (\<lambda>ctype. c_bind (col (cmatch (obc c))) (\<lambda>ao.
        case ctype of
          COL_TYPE_INT \<Rightarrow> Inr (Some (OB_word (ucast (a_i ao))))
        | COL_TYPE_LONG \<Rightarrow> Inr (Some (OB_word (a_l ao)))
        | COL_TYPE_U128 \<Rightarrow> Inr (Some (OB_x (a_x ao)))
        | COL_TYPE_FLOAT \<Rightarrow> Inr (Some (OB_word (ucast (a_f ao))))
        | COL_TYPE_STRING \<Rightarrow> c_bind (a_text ao) (\<lambda>t. Inr (Some (OB_str adr (t @ [0]))))
        | COL_TYPE_LUAO \<Rightarrow> if lo (obc c) \<noteq> [] then Inr (map_option OB_word (lua_key i)) else Inl Assert_fail
        | _ \<Rightarrow> Inl Assert_fail)))"

fun assign_keys :: "(nat \<Rightarrow> ulong option) \<Rightarrow> (nat \<Rightarrow> ulong) \<Rightarrow> r_tbl \<Rightarrow> (int \<Rightarrow> aobj c_res) \<Rightarrow> nat \<Rightarrow> ob_col list \<Rightarrow>
    ob_key list option c_res" where
  "assign_keys lua_key adr rt col i [] = Inr (Some [])"
| "assign_keys lua_key adr rt col i (c # cs) =
     c_bind (assignObKey lua_key (adr i) rt col i c) (\<lambda>k. case k of
       None \<Rightarrow> Inr None
     | Some v \<Rightarrow> c_bind (assign_keys lua_key adr rt col (i + 1) cs) (\<lambda>vs. Inr (map_option ((#) v) vs)))"

text \<open>\<^verbatim>\<open>addRow2OBList\<close>: \<open>None\<close> when a key cannot be made; \<open>row\<close> is the clone of the reply or of the key.\<close>

definition addRow2OBList :: "(nat \<Rightarrow> ulong option) \<Rightarrow> (nat \<Rightarrow> ulong) \<Rightarrow> r_tbl \<Rightarrow> wob_t \<Rightarrow> (int \<Rightarrow> aobj c_res) \<Rightarrow> 'r \<Rightarrow> aobj \<Rightarrow>
    'r obsl_t list \<Rightarrow> 'r obsl_t list option c_res" where
  "addRow2OBList lua_key adr rt wb col row apk ll =
     c_bind (assign_keys lua_key adr rt col 0 (wb_cols wb)) (\<lambda>ks. case ks of
       None \<Rightarrow> Inr None
     | Some vs \<Rightarrow> Inr (Some (ll @ [(create_obsl row (length vs))\<lparr>ob_keys := map Some vs, ob_apk := Some (aobjClone apk)\<rparr>])))"

type_synonym 'a c_sort = "('a \<Rightarrow> 'a \<Rightarrow> int c_res) \<Rightarrow> 'a list \<Rightarrow> 'a list c_res"

definition sortOB2Vector :: "'r obsl_t c_sort \<Rightarrow> c_float \<Rightarrow> (coltype \<times> bool) list \<Rightarrow> 'r obsl_t list \<Rightarrow> 'r obsl_t list c_res" where
  "sortOB2Vector qs fl obs ll = qs (genOBsort fl obs) ll"

text \<open>
  The loops over the sorted vector: \<^verbatim>\<open>opSelectSort\<close> and \<^verbatim>\<open>opUpdateSort\<close> from the front, \<^verbatim>\<open>opDeleteSort\<close> from the back. The
  result is what is sent, updated or deleted, in this order.
\<close>

fun sort_loop :: "int \<Rightarrow> int \<Rightarrow> nat \<Rightarrow> 'a list \<Rightarrow> 'a list" where
  "sort_loop lm os sent [] = []"
| "sort_loop lm os sent (x # xs) =
     (if lm \<noteq> - 1 \<and> int sent = lm then []
      else if os > 0 then sort_loop lm (os - 1) sent xs
      else x # sort_loop lm os (sent + 1) xs)"


subsection \<open>The contract of \<open>qsort\<close>\<close>

text \<open>
  A comparator agrees with a strict order \<open>lt\<close> on the elements; \<open>lt\<close> is a strict weak order. Then \<^verbatim>\<open>qsort\<close> returns a
  permutation in which no element is less than an earlier one.
\<close>

definition cmp_agrees :: "('a \<Rightarrow> 'a \<Rightarrow> int c_res) \<Rightarrow> ('a \<Rightarrow> 'a \<Rightarrow> bool) \<Rightarrow> 'a set \<Rightarrow> bool" where
  "cmp_agrees cmp lt A \<longleftrightarrow> (\<forall>x \<in> A. \<forall>y \<in> A. \<exists>r. cmp x y = Inr r \<and> (r < 0 \<longleftrightarrow> lt x y) \<and> (0 < r \<longleftrightarrow> lt y x))"

definition weak_order :: "('a \<Rightarrow> 'a \<Rightarrow> bool) \<Rightarrow> bool" where
  "weak_order lt \<longleftrightarrow> (\<forall>x y. lt x y \<longrightarrow> \<not> lt y x) \<and> (\<forall>x y z. \<not> lt y x \<longrightarrow> \<not> lt z y \<longrightarrow> \<not> lt z x)"

locale c_qsort =
  fixes qs :: "'a c_sort"
  assumes qsort_sorts: "cmp_agrees cmp lt (set xs) \<Longrightarrow> weak_order lt \<Longrightarrow>
    \<exists>ys. qs cmp xs = Inr ys \<and> mset ys = mset xs \<and> sorted_wrt (\<lambda>x y. \<not> lt y x) ys"

text \<open>A merge sort over a comparator that may fail, as an instance.\<close>

fun c_merge :: "('a \<Rightarrow> 'a \<Rightarrow> int c_res) \<Rightarrow> 'a list \<Rightarrow> 'a list \<Rightarrow> 'a list c_res" where
  "c_merge cmp (x # xs) (y # ys) =
     c_bind (cmp x y) (\<lambda>r.
       if r \<le> 0 then c_bind (c_merge cmp xs (y # ys)) (\<lambda>zs. Inr (x # zs))
       else c_bind (c_merge cmp (x # xs) ys) (\<lambda>zs. Inr (y # zs)))"
| "c_merge cmp xs [] = Inr xs"
| "c_merge cmp [] ys = Inr ys"

fun c_msort :: "'a c_sort" where
  "c_msort cmp [] = Inr []"
| "c_msort cmp [x] = Inr [x]"
| "c_msort cmp xs =
     c_bind (c_msort cmp (take (length xs div 2) xs)) (\<lambda>as.
     c_bind (c_msort cmp (drop (length xs div 2) xs)) (\<lambda>bs. c_merge cmp as bs))"

lemma weak_orderD:
  assumes "weak_order lt"
  shows "\<not> lt y x \<Longrightarrow> \<not> lt z y \<Longrightarrow> \<not> lt z x" and "lt x y \<Longrightarrow> \<not> lt y x"
  by (rule assms [unfolded weak_order_def, THEN conjunct2, rule_format], assumption+,
      erule assms [unfolded weak_order_def, THEN conjunct1, rule_format])

lemma c_merge_sorts:
  assumes "weak_order lt" and "cmp_agrees cmp lt A" "set xs \<subseteq> A" "set ys \<subseteq> A"
    "sorted_wrt (\<lambda>x y. \<not> lt y x) xs" "sorted_wrt (\<lambda>x y. \<not> lt y x) ys"
  shows "\<exists>zs. c_merge cmp xs ys = Inr zs \<and> mset zs = mset xs + mset ys \<and> sorted_wrt (\<lambda>x y. \<not> lt y x) zs"
  using assms(2-)
proof (induction cmp xs ys rule: c_merge.induct)
  case (1 cmp x xs y ys)
  obtain r where r: "cmp x y = Inr r" "r < 0 \<longleftrightarrow> lt x y" "0 < r \<longleftrightarrow> lt y x"
    using "1.prems"(1-3) unfolding cmp_agrees_def by (meson list.set_intros(1) subsetD)
  show ?case
  proof (cases "r \<le> 0")
    case True
    then have nlt: "\<not> lt y x" using r(3) by simp
    obtain zs where zs: "c_merge cmp xs (y # ys) = Inr zs" "mset zs = mset xs + mset (y # ys)"
      "sorted_wrt (\<lambda>x y. \<not> lt y x) zs"
      using "1.IH"(1) [OF r(1) True] "1.prems" by auto
    have "\<not> lt z x" if "z \<in> set zs" for z
    proof -
      have "z \<in> set xs \<union> set (y # ys)" using that zs(2) by (metis set_mset_mset set_mset_union)
      then show ?thesis using "1.prems"(4,5) nlt weak_orderD(1) [OF assms(1) nlt, of z] by auto
    qed
    with zs r(1) True show ?thesis by (auto intro!: exI [of _ "x # zs"])
  next
    case False
    then have lt: "lt y x" using r(3) by simp
    then have nlt: "\<not> lt x y" by (rule weak_orderD(2) [OF assms(1)])
    obtain zs where zs: "c_merge cmp (x # xs) ys = Inr zs" "mset zs = mset (x # xs) + mset ys"
      "sorted_wrt (\<lambda>x y. \<not> lt y x) zs"
      using "1.IH"(2) [OF r(1) False] "1.prems" by auto
    have "\<not> lt z y" if "z \<in> set zs" for z
    proof -
      have "z \<in> set (x # xs) \<union> set ys" using that zs(2) by (metis set_mset_mset set_mset_union)
      then show ?thesis using "1.prems"(4,5) nlt weak_orderD(1) [OF assms(1) nlt, of z] by auto
    qed
    with zs r(1) False show ?thesis by (auto intro!: exI [of _ "y # zs"])
  qed
qed auto

lemma c_msort_sorts:
  assumes "weak_order lt" "cmp_agrees cmp lt A" "set xs \<subseteq> A"
  shows "\<exists>ys. c_msort cmp xs = Inr ys \<and> mset ys = mset xs \<and> sorted_wrt (\<lambda>x y. \<not> lt y x) ys"
  using assms(2-)
proof (induction cmp xs rule: c_msort.induct)
  case (3 cmp x y xs)
  let ?l = "x # y # xs" and ?n = "length (x # y # xs) div 2"
  obtain as where as: "c_msort cmp (take ?n ?l) = Inr as" "mset as = mset (take ?n ?l)"
    "sorted_wrt (\<lambda>x y. \<not> lt y x) as"
    using "3.IH"(1) "3.prems" set_take_subset [of ?n ?l] by blast
  obtain bs where bs: "c_msort cmp (drop ?n ?l) = Inr bs" "mset bs = mset (drop ?n ?l)"
    "sorted_wrt (\<lambda>x y. \<not> lt y x) bs"
    using "3.IH"(2) [OF as(1)] "3.prems" set_drop_subset [of ?n ?l] by blast
  have sub: "set as \<subseteq> A" "set bs \<subseteq> A"
    using mset_eq_setD [OF as(2)] mset_eq_setD [OF bs(2)] "3.prems"(2) set_take_subset [of ?n ?l]
      set_drop_subset [of ?n ?l] by blast+
  have "mset as + mset bs = mset ?l"
    unfolding as(2) bs(2) by (metis append_take_drop_id mset_append)
  with c_merge_sorts [OF assms(1) "3.prems"(1) sub as(3) bs(3)] as(1) bs(1) show ?case by auto
qed auto

interpretation msort: c_qsort c_msort
  by unfold_locales (rule c_msort_sorts [OF _ _ subset_refl])

subsection \<open>The order of the rows\<close>

text \<open>
  What the comparators mean: numbers by value, texts as byte strings up to the terminator; the first column that
  differs decides, in its direction.
\<close>

definition ob_rank :: "ob_key \<Rightarrow> int \<times> byte list" where
  "ob_rank k = (case k of OB_word w \<Rightarrow> (uint w, []) | OB_x x \<Rightarrow> (uint x, []) | OB_str _ s \<Rightarrow> (0, c_prefix s))"

definition rank_at :: "ob_key option list \<Rightarrow> nat \<Rightarrow> int \<times> byte list" where
  "rank_at ks j = (if j < length ks then (case ks ! j of None \<Rightarrow> (0, []) | Some k \<Rightarrow> ob_rank k) else (0, []))"

fun ob_lt :: "nat \<Rightarrow> (coltype \<times> bool) list \<Rightarrow> ob_key option list \<Rightarrow> ob_key option list \<Rightarrow> bool" where
  "ob_lt j [] k1 k2 \<longleftrightarrow> False"
| "ob_lt j ((ct, asc) # obs) k1 k2 \<longleftrightarrow>
     (if rank_at k1 j = rank_at k2 j then ob_lt (j + 1) obs k1 k2
      else if asc then rank_at k1 j < rank_at k2 j else rank_at k2 j < rank_at k1 j)"

definition row_lt :: "(coltype \<times> bool) list \<Rightarrow> 'r obsl_t \<Rightarrow> 'r obsl_t \<Rightarrow> bool" where
  "row_lt obs o1 o2 \<longleftrightarrow> ob_lt 0 obs (ob_keys o1) (ob_keys o2)"

lemma ob_lt_asym: "ob_lt j obs k1 k2 \<Longrightarrow> \<not> ob_lt j obs k2 k1"
proof (induction obs arbitrary: j)
  case (Cons o1 obs)
  then show ?case by (cases o1) (auto split: if_splits)
qed simp

lemma ob_lt_neg_trans: "\<not> ob_lt j obs k2 k1 \<Longrightarrow> \<not> ob_lt j obs k3 k2 \<Longrightarrow> \<not> ob_lt j obs k3 k1"
proof (induction obs arbitrary: j)
  case (Cons o1 obs)
  obtain ct asc where o: "o1 = (ct, asc)" by (cases o1)
  show ?case
  proof (cases "rank_at k1 j = rank_at k2 j \<and> rank_at k2 j = rank_at k3 j")
    case True
    with Cons show ?thesis by (simp add: o)
  next
    case False
    with Cons.prems show ?thesis by (auto simp: o not_less split: if_splits)
  qed
qed simp

lemma row_lt_weak: "weak_order (row_lt obs)"
  unfolding weak_order_def row_lt_def using ob_lt_asym ob_lt_neg_trans by blast

text \<open>The keys a column of each type has, and keys that \<^verbatim>\<open>intOrderBySort\<close> can tell apart.\<close>

fun key_typed :: "coltype \<Rightarrow> ob_key \<Rightarrow> bool" where
  "key_typed COL_TYPE_INT (OB_word w) \<longleftrightarrow> uint w < 2 ^ 32"
| "key_typed COL_TYPE_LONG (OB_word w) \<longleftrightarrow> True"
| "key_typed COL_TYPE_LUAO (OB_word w) \<longleftrightarrow> True"
| "key_typed COL_TYPE_U128 (OB_x x) \<longleftrightarrow> True"
| "key_typed COL_TYPE_STRING (OB_str adr s) \<longleftrightarrow> 0 \<in> set s"
| "key_typed _ _ \<longleftrightarrow> False"

definition key_near :: "coltype \<Rightarrow> ob_key \<Rightarrow> ob_key \<Rightarrow> bool" where
  "key_near ct a b \<longleftrightarrow> (ct = COL_TYPE_INT \<longrightarrow> \<bar>uint (ob_word a) - uint (ob_word b)\<bar> < 2 ^ 31)"

lemma cut_int_diff:
  assumes "\<bar>uint a - uint b\<bar> < 2 ^ 31"
  shows "cut_int (a - b) = uint a - uint b"
proof -
  have "(18446744073709551616 :: int) = 4294967296 * 4294967296" by simp
  then have m: "take_bit 32 ((uint a - uint b) mod 18446744073709551616) = take_bit 32 (uint a - uint b)"
    by (simp add: take_bit_eq_mod mod_mod_cancel)
  have "cut_int (a - b) = signed_take_bit 31 (uint a - uint b)"
    unfolding cut_int_def by (simp add: sint_uint unsigned_ucast_eq uint_word_ariths
        signed_take_bit_eq_iff_take_bit_eq m)
  also have "\<dots> = uint a - uint b" using assms by (intro signed_take_bit_int_eq_self) auto
  finally show ?thesis .
qed

lemma c_strcmp_lex:
  "0 \<in> set s \<Longrightarrow> 0 \<in> set t \<Longrightarrow>
   \<exists>r. c_strcmp s t = Inr r \<and> (r < 0 \<longleftrightarrow> c_prefix s < c_prefix t) \<and> (0 < r \<longleftrightarrow> c_prefix t < c_prefix s)"
proof (induction s t rule: c_strcmp.induct)
  case (1 a s b t)
  show ?case
  proof (cases "a = b")
    case True
    with 1 show ?thesis by auto
  next
    case False
    have "int (unat a) - int (unat b) < 0 \<longleftrightarrow> a < b" "0 < int (unat a) - int (unat b) \<longleftrightarrow> b < a"
      using byte_diff_sign(1) [of a b] byte_diff_sign(1) [of b a] by auto
    with False byte_pos [of a] byte_pos [of b] show ?thesis
      by (cases "a = 0"; cases "b = 0") auto
  qed
qed auto

lemma OB_cmp_agrees:
  assumes "key_typed ct a" "key_typed ct b" "key_near ct a b"
  shows "\<exists>r. OB_cmp fl ct asc a b = Inr r \<and>
    (r < 0 \<longleftrightarrow> (if asc then ob_rank a < ob_rank b else ob_rank b < ob_rank a)) \<and>
    (0 < r \<longleftrightarrow> (if asc then ob_rank b < ob_rank a else ob_rank a < ob_rank b))"
proof -
  have near: "key_near ct b a" using assms(3) by (auto simp: key_near_def)
  show ?thesis
  proof (cases ct)
    case COL_TYPE_INT
    then obtain v w where k: "a = OB_word v" "b = OB_word w" using assms by (cases a; cases b) auto
    have "cut_int (v - w) = uint v - uint w" "cut_int (w - v) = uint w - uint v"
      using assms(3) near COL_TYPE_INT by (auto simp: key_near_def k ob_word_def intro!: cut_int_diff)
    with COL_TYPE_INT show ?thesis
      by (auto simp: k OB_cmp_def intOrderBySort_def intOrderByRevSort_def ob_word_def ob_rank_def)
  next
    case COL_TYPE_STRING
    then obtain v s w t where k: "a = OB_str v s" "b = OB_str w t" "0 \<in> set s" "0 \<in> set t"
      using assms by (cases a; cases b) auto
    with COL_TYPE_STRING c_strcmp_lex [OF k(3,4)] c_strcmp_lex [OF k(4,3)] show ?thesis
      by (auto simp: OB_cmp_def stringOrderBySort_def stringOrderByRevSort_def ob_rank_def)
  next
    case COL_TYPE_LONG
    then show ?thesis using assms by (cases a; cases b)
      (auto simp: OB_cmp_def ulongOrderBySort_def ulongOrderByRevSort_def ob_word_def ob_rank_def word_less_def word_uint_eq_iff)
  next
    case COL_TYPE_LUAO
    then show ?thesis using assms by (cases a; cases b)
      (auto simp: OB_cmp_def ulongOrderBySort_def ulongOrderByRevSort_def ob_word_def ob_rank_def word_less_def word_uint_eq_iff)
  next
    case COL_TYPE_U128
    then show ?thesis using assms by (cases a; cases b)
      (auto simp: OB_cmp_def u128OrderBySort_def u128OrderByRevSort_def ob_u128_def ob_rank_def word_less_def word_uint_eq_iff)
  qed (use assms in auto)
qed

definition keys_typed :: "(coltype \<times> bool) list \<Rightarrow> ob_key option list \<Rightarrow> bool" where
  "keys_typed obs ks \<longleftrightarrow> list_all2 (\<lambda>c k. \<exists>v. k = Some v \<and> key_typed (fst c) v) obs ks"

definition keys_near :: "(coltype \<times> bool) list \<Rightarrow> ob_key option list \<Rightarrow> ob_key option list \<Rightarrow> bool" where
  "keys_near obs k1 k2 \<longleftrightarrow> (\<forall>j < length obs. \<forall>a b. k1 ! j = Some a \<longrightarrow> k2 ! j = Some b \<longrightarrow> key_near (fst (obs ! j)) a b)"

lemma gen_cmp_agrees:
  assumes "keys_typed obs0 k1" "keys_typed obs0 k2" "keys_near obs0 k1 k2"
  shows "obs = drop j obs0 \<Longrightarrow> j \<le> length obs0 \<Longrightarrow>
    \<exists>r. gen_cmp fl j obs k1 k2 = Inr r \<and> (r < 0 \<longleftrightarrow> ob_lt j obs k1 k2) \<and> (0 < r \<longleftrightarrow> ob_lt j obs k2 k1)"
proof (induction obs arbitrary: j)
  case Nil
  then show ?case by simp
next
  case (Cons c obs)
  obtain ct asc where c: "c = (ct, asc)" by (cases c)
  have j: "j < length obs0" using Cons.prems by (metis drop_all list.simps(3) not_less)
  then have o: "obs0 ! j = (ct, asc)" "obs = drop (j + 1) obs0"
    using Cons.prems(1) c by (metis Cons_nth_drop_Suc list.inject Suc_eq_plus1)+
  have t: "\<exists>v. k ! j = Some v \<and> key_typed ct v" "j < length k" if "keys_typed obs0 k" for k
    using that j o(1) by (auto simp: keys_typed_def list_all2_conv_all_nth dest!: spec [of _ j])
  obtain a b where ab: "k1 ! j = Some a" "k2 ! j = Some b" "key_typed ct a" "key_typed ct b"
    "j < length k1" "j < length k2"
    using t [OF assms(1)] t [OF assms(2)] by blast
  have near: "key_near ct a b" using assms(3) j ab o(1) by (auto simp: keys_near_def)
  have rk: "rank_at k1 j = ob_rank a" "rank_at k2 j = ob_rank b" using ab by (simp_all add: rank_at_def)
  have rd: "ob_keyj k1 j = Inr a" "ob_keyj k2 j = Inr b" using ab by (simp_all add: ob_keyj_def)
  obtain r where r: "OB_cmp fl ct asc a b = Inr r"
    "r < 0 \<longleftrightarrow> (if asc then ob_rank a < ob_rank b else ob_rank b < ob_rank a)"
    "0 < r \<longleftrightarrow> (if asc then ob_rank b < ob_rank a else ob_rank a < ob_rank b)"
    using OB_cmp_agrees [OF ab(3,4) near] by blast
  show ?case
  proof (cases "r = 0")
    case True
    then have "ob_rank a = ob_rank b" using r(2,3) by (cases asc) auto
    with True Cons.IH [OF o(2)] j rd r(1) rk show ?thesis by (simp add: c)
  next
    case False
    then have "ob_rank a \<noteq> ob_rank b" using r(2,3) by (cases asc) auto
    with False rd r rk show ?thesis by (auto simp: c)
  qed
qed

definition rows_sortable :: "(coltype \<times> bool) list \<Rightarrow> 'r obsl_t set \<Rightarrow> bool" where
  "rows_sortable obs A \<longleftrightarrow> (\<forall>x \<in> A. keys_typed obs (ob_keys x)) \<and> (\<forall>x \<in> A. \<forall>y \<in> A. keys_near obs (ob_keys x) (ob_keys y))"

lemma genOBsort_agrees: "rows_sortable obs A \<Longrightarrow> cmp_agrees (genOBsort fl obs) (row_lt obs) A"
  unfolding cmp_agrees_def genOBsort_def row_lt_def rows_sortable_def
  using gen_cmp_agrees [where j = 0 and obs = obs for obs] by (metis drop_0 le0)

text \<open>The \<^verbatim>\<open>qsort\<close> of the row vectors, and what it makes of a queued list.\<close>

locale ob_qsort = c_qsort qs for qs :: "'r obsl_t c_sort"
begin

lemma order_by_sorted:
  assumes "rows_sortable obs (set ll)"
  shows "\<exists>v. qs (genOBsort fl obs) ll = Inr v \<and> mset v = mset ll \<and> sorted_wrt (\<lambda>x y. \<not> row_lt obs y x) v"
  by (rule qsort_sorts [OF genOBsort_agrees [OF assms] row_lt_weak])

end

interpretation ob_msort: ob_qsort c_msort
  by unfold_locales

subsection \<open>LIMIT and OFFSET over the sorted vector\<close>

definition slice :: "int \<Rightarrow> int \<Rightarrow> 'a list \<Rightarrow> 'a list" where
  "slice lm os xs = (if lm < 0 then drop (nat os) xs else take (nat lm) (drop (nat os) xs))"

lemma sort_loop_slice:
  "sort_loop lm os sent xs =
     (if lm < int sent then drop (nat os) xs else take (nat lm - sent) (drop (nat os) xs))"
proof (induction xs arbitrary: os sent)
  case (Cons x xs)
  show ?case
  proof (cases "os > 0")
    case True
    then have "nat os = Suc (nat (os - 1))" by simp
    with True Cons [of "os - 1" sent] show ?thesis by auto
  next
    case False
    have "nat lm - sent = Suc (nat lm - Suc sent)" if "int sent < lm" using that by simp
    with False Cons [of os "sent + 1"] show ?thesis by auto
  qed
qed simp

text \<open>The rows \<^verbatim>\<open>opSelectSort\<close> sends.\<close>

definition opSelectSort :: "'r obsl_t c_sort \<Rightarrow> c_float \<Rightarrow> (coltype \<times> bool) list \<Rightarrow> wob_t \<Rightarrow> 'r obsl_t list \<Rightarrow> 'r list c_res" where
  "opSelectSort qs fl obs wb ll =
     c_bind (sortOB2Vector qs fl obs ll) (\<lambda>v. Inr (map ob_row (sort_loop (lim wb) (ofst wb) 0 v)))"


subsection \<open>Keys made from a row\<close>

lemma assignObKey_typed:
  assumes "assignObKey lua_key adr rt col i c = Inr (Some k)" "ct \<noteq> COL_TYPE_FLOAT"
    "(if le_yes c then Inr COL_TYPE_LUAO else ob_ctype rt c) = Inr ct"
  shows "key_typed ct k"
proof -
  have "uint (ucast (w :: uint32) :: ulong) < 4294967296" for w
    using uint_lt2p [of w] by (simp add: unsigned_ucast_eq take_bit_int_eq_self)
  with assms show ?thesis
    by (cases ct; cases "le_yes c") (auto simp: assignObKey_def c_bind_Inr_iff split: if_splits)
qed

lemma assign_keys_typed:
  assumes "assign_keys lua_key adr rt col i cs = Inr (Some vs)" "init_globals rt cs = Inr obs"
    "COL_TYPE_FLOAT \<notin> fst ` set obs"
  shows "keys_typed obs (map Some vs)"
  using assms
proof (induction cs arbitrary: i vs obs)
  case Nil
  then show ?case by (auto simp: keys_typed_def)
next
  case (Cons c cs)
  obtain ct r where g: "(if le_yes c then Inr COL_TYPE_LUAO else ob_ctype rt c) = Inr ct" "init_globals rt cs = Inr r"
    "obs = (ct, ob_asc c) # r" using Cons.prems(2) by (auto simp: c_bind_Inr_iff)
  obtain k ks where k: "assignObKey lua_key (adr i) rt col i c = Inr (Some k)"
    "assign_keys lua_key adr rt col (i + 1) cs = Inr (Some ks)" "vs = k # ks"
    using Cons.prems(1) by (auto simp: c_bind_Inr_iff split: option.splits)
  show ?case
    using assignObKey_typed [OF k(1) _ g(1)] Cons.IH [OF k(2) g(2)] Cons.prems(3)
    by (auto simp: g(3) k(3) keys_typed_def)
qed

lemma addRow2OBList_typed:
  assumes "addRow2OBList lua_key adr rt wb col row apk ll = Inr (Some ll')" "init_globals rt (wb_cols wb) = Inr obs"
    "COL_TYPE_FLOAT \<notin> fst ` set obs"
  shows "\<exists>x. ll' = ll @ [x] \<and> ob_row x = row \<and> keys_typed obs (ob_keys x)"
  using assms assign_keys_typed [OF _ assms(2,3)]
  by (fastforce simp: addRow2OBList_def create_obsl_def c_bind_Inr_iff split: option.splits)

subsection \<open>Properties of ORDER BY\<close>

text \<open>
  C32. A SELECT with ORDER BY that is sorted after the scan. Whatever \<^verbatim>\<open>qsort\<close> that meets its contract is used, when the
  queued rows have keys of their column types, none of them FLOAT, and no two INT keys of a column are \<open>2 ^ 31\<close> or more
  apart, the comparators order the rows totally up to ties: \<^verbatim>\<open>sortOB2Vector\<close> returns a permutation of the queue in which
  no row is less than an earlier one (numbers by value, texts as byte strings, the first different column decides in
  its direction), and \<^verbatim>\<open>opSelectSort\<close> sends the slice of it that LIMIT and OFFSET select.
\<close>

theorem order_by_correct:
  assumes "ob_qsort qs" and "rows_sortable obs (set ll)"
  shows "\<exists>v. sortOB2Vector qs fl obs ll = Inr v \<and> mset v = mset ll \<and> sorted_wrt (\<lambda>x y. \<not> row_lt obs y x) v \<and>
    opSelectSort qs fl obs wb ll = Inr (map ob_row (slice (lim wb) (ofst wb) v))"
proof -
  obtain v where "qs (genOBsort fl obs) ll = Inr v" "mset v = mset ll" "sorted_wrt (\<lambda>x y. \<not> row_lt obs y x) v"
    using ob_qsort.order_by_sorted [OF assms] by blast
  then show ?thesis by (auto simp: sortOB2Vector_def opSelectSort_def sort_loop_slice slice_def)
qed

definition demo_obs :: "(coltype \<times> bool) list" where
  "demo_obs = [(COL_TYPE_INT, False), (COL_TYPE_STRING, True)]"

definition demo_queue :: "nat obsl_t list" where
  "demo_queue = map (\<lambda>(r, n, s). \<lparr>ob_row = r, ob_keys = [Some (OB_word n), Some (OB_str 4096 (bytes_of s @ [0]))], ob_apk = None\<rparr>)
     [(1, 5, ''bob''), (2, 7, ''eve''), (3, 5, ''al'')]"

lemma demo_queue_sortable: "rows_sortable demo_obs (set demo_queue)"
  by (auto simp: rows_sortable_def demo_queue_def demo_obs_def keys_typed_def keys_near_def key_near_def ob_word_def
      less_Suc_eq_0_disj)

theorem order_by_correct_witness:
  "\<exists>v. sortOB2Vector c_msort demo_float demo_obs demo_queue = Inr v \<and> mset v = mset demo_queue \<and>
    sorted_wrt (\<lambda>x y. \<not> row_lt demo_obs y x) v \<and>
    opSelectSort c_msort demo_float demo_obs \<lparr>wb_cols = [], lim = 2, ofst = 1\<rparr> demo_queue =
      Inr (map ob_row (slice (lim \<lparr>wb_cols = [], lim = 2, ofst = 1\<rparr>) (ofst \<lparr>wb_cols = [], lim = 2, ofst = 1\<rparr>) v))"
  by (rule order_by_correct [OF ob_msort.ob_qsort_axioms demo_queue_sortable])

definition one_key :: "'r \<Rightarrow> ob_key \<Rightarrow> 'r obsl_t" where
  "one_key r k = \<lparr>ob_row = r, ob_keys = [Some k], ob_apk = None\<rparr>"


end
