(* ===== verification/Alc_RowStore.thy ===== *)
theory Alc_RowStore
  imports Alc_Row
begin

text \<open>
  A row gives back what was written: the layout of the data and of the offsets, with and without compression, and
  the round trip from the columns of a row through \<^verbatim>\<open>writeRow\<close> and \<^verbatim>\<open>getRawCol\<close>.
\<close>


subsection \<open>The layout of the data\<close>

text \<open>The bytes of one column before compression, and the pieces of the data of a row.\<close>

definition col_bytes :: "coltype \<Rightarrow> crd_t \<Rightarrow> byte list" where
  "col_bytes ct d = (case ct of
     COL_TYPE_INT \<Rightarrow> writeUIntCol (iflags d) (icols d)
   | COL_TYPE_LONG \<Rightarrow> writeULongCol (iflags d) (icols d)
   | COL_TYPE_U128 \<Rightarrow> writeU128Col (xcols d)
   | COL_TYPE_FLOAT \<Rightarrow> writeFloatCol (fflags d) (fcols d)
   | COL_TYPE_STRING \<Rightarrow> strs d
   | _ \<Rightarrow> [])"

fun row_pieces :: "czip \<Rightarrow> coltype list \<Rightarrow> crd_t list \<Rightarrow> byte list list \<Rightarrow> byte list list" where
  "row_pieces ztype (ct # cts) (d # ds) zs =
     (if ct = COL_TYPE_STRING \<and> ztype \<noteq> CZIP_NONE then hd zs # row_pieces ztype cts ds (tl zs)
      else col_bytes ct d # row_pieces ztype cts ds zs)"
| "row_pieces ztype _ _ zs = []"

fun offs_ok :: "nat \<Rightarrow> crd_t list \<Rightarrow> byte list list \<Rightarrow> bool" where
  "offs_ok p [] [] \<longleftrightarrow> True"
| "offs_ok p (d # ds) (b # bs) \<longleftrightarrow> mcofsts d = of_nat (p + length b) \<and> offs_ok (p + length b) ds bs"
| "offs_ok p _ _ \<longleftrightarrow> False"

abbreviation row_type :: "coltype \<Rightarrow> bool" where
  "row_type ct \<equiv> ct \<in> {COL_TYPE_INT, COL_TYPE_LONG, COL_TYPE_U128, COL_TYPE_FLOAT, COL_TYPE_STRING, COL_TYPE_LUAO}"

lemma length_row_pieces [simp]: "length cts = length ds \<Longrightarrow> length (row_pieces z cts ds zs) = length ds"
  by (induction cts ds arbitrary: zs rule: list_induct2) auto

lemma offs_ok_length: "offs_ok p ds bs \<Longrightarrow> length ds = length bs"
  by (induction p ds bs rule: offs_ok.induct) auto

lemma offs_ok_nth: "offs_ok p ds bs \<Longrightarrow> i < length ds \<Longrightarrow> mcofsts (ds ! i) = of_nat (p + length (concat (take (Suc i) bs)))"
proof (induction p ds bs arbitrary: i rule: offs_ok.induct)
  case (2 p d ds b bs)
  then show ?case by (cases i) (auto simp: add.assoc)
qed auto

lemma write_cols_pieces:
  assumes "length cts = length ds" and "\<forall>ct \<in> set cts. row_type ct" and "COL_TYPE_LUAO \<notin> set cts \<or> (\<forall>j s. lua j s)"
    and "z = CZIP_NONE \<or> length zs = length (row_texts cts ds)"
  shows "write_cols lua z i cts ds zs = Inr (Some (concat (row_pieces z cts ds zs)))"
  using assms(1,2,4,3)
proof (induction cts ds arbitrary: zs i rule: list_induct2)
  case Nil
  then show ?case by simp
next
  case (Cons ct cts d ds)
  show ?case
  proof (cases "ct = COL_TYPE_STRING \<and> z \<noteq> CZIP_NONE")
    case True
    with Cons.prems obtain y ys where zs: "zs = y # ys" by (cases zs) auto
    with True Cons show ?thesis by simp
  next
    case False
    then have "z = CZIP_NONE \<or> length zs = length (row_texts cts ds)" using Cons.prems(2) by auto
    moreover have "\<forall>ct \<in> set cts. row_type ct" using Cons.prems(1) by simp
    moreover have "COL_TYPE_LUAO \<notin> set cts \<or> (\<forall>j s. lua j s)" using Cons.prems(3) by auto
    ultimately have "write_cols lua z (Suc i) cts ds zs = Inr (Some (concat (row_pieces z cts ds zs)))"
      using Cons.IH by blast
    moreover have "ct = COL_TYPE_LUAO \<longrightarrow> lua i (strs d)" using Cons.prems(3) by auto
    moreover have "row_type ct" using Cons.prems(1) by simp
    ultimately show ?thesis using False by (elim insertE emptyE) (simp_all add: col_bytes_def)
  qed
qed

text \<open>What the move of the offsets keeps of the columns, and the offsets it gives.\<close>

lemma zip_shrink_ok:
  assumes "length cts = length ds" and "offs_ok p ds (row_pieces CZIP_NONE cts ds [])"
    and "length zs = length (row_texts cts ds)" and "z \<noteq> CZIP_NONE"
  shows "\<exists>ds' rlen'. zip_shrink cts ds zs (of_nat p - of_nat q) rlen = Inr (ds', rlen') \<and> length ds' = length ds \<and>
    offs_ok q ds' (row_pieces z cts ds zs) \<and>
    (\<forall>y ys. row_pieces y cts ds' ys = row_pieces y cts ds ys) \<and> row_texts cts ds' = row_texts cts ds \<and>
    rlen' = rlen - of_nat (length (concat (row_pieces CZIP_NONE cts ds []))) +
      of_nat (length (concat (row_pieces z cts ds zs)))"
  using assms(1-3)
proof (induction cts ds arbitrary: zs p q rlen rule: list_induct2)
  case Nil
  then show ?case by simp
next
  case (Cons ct cts d ds)
  let ?b = "length (col_bytes ct d)"
  have m: "mcofsts d = of_nat p + of_nat ?b" and o: "offs_ok (p + ?b) ds (row_pieces CZIP_NONE cts ds [])"
    using Cons.prems by auto
  have keep: "row_pieces y (ct # cts) (d\<lparr>mcofsts := k\<rparr> # ds') ys = row_pieces y (ct # cts) (d # ds) ys"
    if "\<forall>y ys. row_pieces y cts ds' ys = row_pieces y cts ds ys" for k ds' y ys
    using that by (simp add: col_bytes_def split: coltype.split)
  show ?case
  proof (cases "ct = COL_TYPE_STRING")
    case True
    with Cons.prems obtain y ys where zs: "zs = y # ys" "length ys = length (row_texts cts ds)" by (cases zs) auto
    have b: "?b = length (strs d)" by (simp add: True col_bytes_def)
    let ?diff = "of_nat (length (strs d)) - of_nat (length y) :: uint32"
    have s: "of_nat p - of_nat q + ?diff = of_nat (p + ?b) - of_nat (q + length y)" by (simp add: b)
    from Cons.IH [OF o zs(2), of "q + length y" "rlen - ?diff"] obtain ds' rlen' where
      r: "zip_shrink cts ds ys (of_nat (p + ?b) - of_nat (q + length y)) (rlen - ?diff) = Inr (ds', rlen')"
        "length ds' = length ds" "offs_ok (q + length y) ds' (row_pieces z cts ds ys)"
        "\<forall>y ys. row_pieces y cts ds' ys = row_pieces y cts ds ys" "row_texts cts ds' = row_texts cts ds"
        "rlen' = rlen - ?diff - of_nat (length (concat (row_pieces CZIP_NONE cts ds []))) +
          of_nat (length (concat (row_pieces z cts ds ys)))" by blast
    let ?d = "d\<lparr>mcofsts := mcofsts d - (of_nat (p + ?b) - of_nat (q + length y))\<rparr>"
    have "zip_shrink (ct # cts) (d # ds) zs (of_nat p - of_nat q) rlen =
        c_bind (zip_shrink cts ds ys (of_nat p - of_nat q + ?diff) (rlen - ?diff)) (\<lambda>(ds', rlen').
          Inr (d\<lparr>mcofsts := mcofsts d - (of_nat p - of_nat q + ?diff)\<rparr> # ds', rlen'))"
      using True zs by (simp add: Let_def)
    then have "zip_shrink (ct # cts) (d # ds) zs (of_nat p - of_nat q) rlen = Inr (?d # ds', rlen')"
      by (simp only: s r(1) c_bind_simps prod.case)
    moreover have "offs_ok q (?d # ds') (row_pieces z (ct # cts) (d # ds) zs)"
      using True zs assms(4) r(3) by (simp add: m)
    moreover have "row_texts (ct # cts) (?d # ds') = row_texts (ct # cts) (d # ds)" using r(5) by simp
    moreover have "rlen' = rlen - of_nat (length (concat (row_pieces CZIP_NONE (ct # cts) (d # ds) []))) +
        of_nat (length (concat (row_pieces z (ct # cts) (d # ds) zs)))"
      using True zs assms(4) by (simp add: r(6) col_bytes_def)
    ultimately show ?thesis using keep [OF r(4)] r(2) by (metis length_Cons)
  next
    case False
    then have zs: "length zs = length (row_texts cts ds)" using Cons.prems by simp
    have s: "of_nat p - of_nat q = (of_nat (p + ?b) - of_nat (q + ?b) :: uint32)" by simp
    from Cons.IH [OF o zs, of "q + ?b" rlen] obtain ds' rlen' where
      r: "zip_shrink cts ds zs (of_nat (p + ?b) - of_nat (q + ?b)) rlen = Inr (ds', rlen')"
        "length ds' = length ds" "offs_ok (q + ?b) ds' (row_pieces z cts ds zs)"
        "\<forall>y ys. row_pieces y cts ds' ys = row_pieces y cts ds ys" "row_texts cts ds' = row_texts cts ds"
        "rlen' = rlen - of_nat (length (concat (row_pieces CZIP_NONE cts ds []))) +
          of_nat (length (concat (row_pieces z cts ds zs)))" by blast
    let ?d = "d\<lparr>mcofsts := mcofsts d - (of_nat p - of_nat q)\<rparr>"
    have "zip_shrink (ct # cts) (d # ds) zs (of_nat p - of_nat q) rlen = Inr (?d # ds', rlen')"
      using False r(1) by simp
    moreover have "offs_ok q (?d # ds') (row_pieces z (ct # cts) (d # ds) zs)"
      using False r(3) by (simp add: m)
    moreover have "row_texts (ct # cts) (?d # ds') = row_texts (ct # cts) (d # ds)" using r(5) by simp
    moreover have "rlen' = rlen - of_nat (length (concat (row_pieces CZIP_NONE (ct # cts) (d # ds) []))) +
        of_nat (length (concat (row_pieces z (ct # cts) (d # ds) zs)))"
      using False by (simp add: r(6))
    ultimately show ?thesis using keep [OF r(4)] r(2) by (metis length_Cons)
  qed
qed

subsection \<open>Reading the offsets back\<close>

lemma drop_concat_blocks: "\<forall>b \<in> set bs. length b = sz \<Longrightarrow> drop (m * sz) (concat bs) = concat (drop m bs)"
proof (induction bs arbitrary: m)
  case Nil
  then show ?case by simp
next
  case (Cons b bs)
  then show ?case by (cases m) auto
qed

lemma length_concat_blocks: "\<forall>b \<in> set bs. length b = sz \<Longrightarrow> length (concat bs) = length bs * sz"
  by (induction bs) auto

lemma rflag_facts:
  fixes rlen :: uint32 and z :: czip
  defines "f \<equiv> assign_rflag rlen z"
  shows "set_col_offst f c = le_bytes (offst_size f) c" "unat (f AND RFLAG_SIZE_FLAG) = offst_size f"
    "offst_size f \<le> unat f" "unat rlen < 2 ^ (8 * offst_size f)" "0 < offst_size f"
    "f AND RFLAG_6BIT_ZIP \<noteq> 0 \<longleftrightarrow> z = CZIP_SIX" "f AND RFLAG_LZF_ZIP \<noteq> 0 \<longleftrightarrow> z = CZIP_LZF" "f \<noteq> 0"
proof -
  have "unat rlen < 2 ^ 32" using unsigned_less [of rlen, where ?'a = nat] by simp
  note facts = f_def assign_rflag_def rflag_defs set_col_offst_def offst_size_def word_less_nat_alt
  show "set_col_offst f c = le_bytes (offst_size f) c" by (simp add: set_col_offst_def offst_size_def)
  show "unat (f AND RFLAG_SIZE_FLAG) = offst_size f" "offst_size f \<le> unat f" "0 < offst_size f" "f \<noteq> 0"
    "f AND RFLAG_6BIT_ZIP \<noteq> 0 \<longleftrightarrow> z = CZIP_SIX" "f AND RFLAG_LZF_ZIP \<noteq> 0 \<longleftrightarrow> z = CZIP_LZF"
    by (cases z; simp add: facts)+
  show "unat rlen < 2 ^ (8 * offst_size f)"
    using \<open>unat rlen < 2 ^ 32\<close> by (cases z) (simp_all add: facts)
qed

lemma read_offst:
  assumes "offs_ok 0 ds bs" and "m < length ds" and "unat (mcofsts (ds ! m)) < 2 ^ (8 * sz)"
    and "q = length header + m * sz"
  shows "read_le sz (header @ concat (map (\<lambda>d. le_bytes sz (mcofsts d)) ds) @ data) q =
     Inr (of_nat (length (concat (take (Suc m) bs))))"
proof -
  let ?blocks = "map (\<lambda>d. le_bytes sz (mcofsts d)) ds"
  have "m * sz \<le> length (concat ?blocks)"
    using assms(2) length_concat_blocks [of ?blocks sz] by simp
  then have "drop q (header @ concat ?blocks @ data) = concat (drop m ?blocks) @ data"
    using drop_concat_blocks [of ?blocks sz m] by (simp add: assms(4))
  also have "drop m ?blocks = le_bytes sz (mcofsts (ds ! m)) # drop (Suc m) ?blocks"
    using assms(2) by (simp add: Cons_nth_drop_Suc [symmetric])
  finally show ?thesis
    using offs_ok_nth [OF assms(1,2)] le_word_le_bytes_id [OF assms(3)] by (simp add: read_le_def)
qed

lemma rawUint_read:
  "streamIntToUInt (rawUintWriteToRow v @ rest) = Inr (v, getCSize (ucast v) True)"
  "length (rawUintWriteToRow v) = getCSize (ucast v) True"
proof -
  have u: "unat (ucast v :: ulong) < 2 ^ 32"
    using unsigned_less [of v, where ?'a = nat] by (simp add: unat_ucast_uint32)
  have i: "(ucast (ucast v :: ulong) :: uint32) = v" by (rule bit_word_eqI) (simp add: bit_ucast_iff)
  show "streamIntToUInt (rawUintWriteToRow v @ rest) = Inr (v, getCSize (ucast v) True)"
    "length (rawUintWriteToRow v) = getCSize (ucast v) True"
    using stream_num_rt [of True "ucast v" rest] u i
    by (auto simp: rawUintWriteToRow_def cr8Icol_def writeUIntCol_def streamIntToUInt_def split: prod.splits)
qed

text \<open>A normal row with \<open>n\<close> columns besides the key.\<close>

definition normal_row :: "byte \<Rightarrow> crd_t list \<Rightarrow> byte list list \<Rightarrow> byte list" where
  "normal_row rflag ds bs =
     (rflag # rawUintWriteToRow (of_nat (length ds))) @ concat (map (\<lambda>d. le_bytes (offst_size rflag) (mcofsts d)) ds) @ concat bs"

lemma normal_row_payload:
  assumes "offs_ok 0 ds bs" and "rflag = assign_rflag (of_nat (length (concat bs))) z"
    and "length (concat bs) < 2 ^ 32" and "0 < length ds" and "length ds < 2 ^ 32"
  defines "p \<equiv> 1 + getCSize (of_nat (length ds)) True + length ds * offst_size rflag"
  shows "getRowPayload (Normal_row (normal_row rflag ds bs)) =
      Inr (p, rflag, of_nat (length ds), of_nat (length (concat bs)) + of_nat p)"
    "drop p (normal_row rflag ds bs) = concat bs" "length (normal_row rflag ds bs) = p + length (concat bs)"
proof -
  let ?n = "length ds" and ?sz = "offst_size rflag"
  let ?blocks = "map (\<lambda>d. le_bytes ?sz (mcofsts d)) ds" and ?h = "rflag # rawUintWriteToRow (of_nat (length ds))"
  note rf = rflag_facts [of "of_nat (length (concat bs))" z, folded assms(2)]
  have un: "unat (of_nat ?n :: uint32) = ?n" using assms(5) by (simp add: unat_of_nat)
  have uc: "(ucast (of_nat ?n :: uint32) :: ulong) = of_nat ?n"
    by (rule word_eq_of_nat) (simp add: unat_ucast_uint32 un)
  have lb: "length (concat ?blocks) = ?n * ?sz" using length_concat_blocks [of ?blocks ?sz] by simp
  have lh: "length ?h = 1 + getCSize (of_nat ?n) True" by (simp add: rawUint_read(2) uc)
  have row: "normal_row rflag ds bs = ?h @ concat ?blocks @ concat bs" by (simp add: normal_row_def)
  show "drop p (normal_row rflag ds bs) = concat bs" "length (normal_row rflag ds bs) = p + length (concat bs)"
    unfolding row p_def using lb lh by simp_all
  have s: "streamIntToUInt (drop 1 (normal_row rflag ds bs)) = Inr (of_nat ?n, getCSize (of_nat ?n) True)"
    using rawUint_read(1) [of "of_nat ?n"] by (simp add: row uc)
  have n: "?n = Suc (?n - 1)" using assms(4) by simp
  have "take (Suc (?n - 1)) bs = bs" using offs_ok_length [OF assms(1)] n by simp
  moreover have "unat (mcofsts (ds ! (?n - 1))) < 2 ^ (8 * ?sz)"
    using offs_ok_nth [OF assms(1), of "?n - 1"] assms(3,4) rf(4) calculation by (simp add: unat_of_nat)
  moreover have "p - ?sz = length ?h + (?n - 1) * ?sz"
    unfolding p_def lh by (subst (2) n) (simp add: algebra_simps)
  ultimately have "read_le ?sz (normal_row rflag ds bs) (p - ?sz) = Inr (of_nat (length (concat bs)))"
    using read_offst [OF assms(1), of "?n - 1" ?sz "p - ?sz" ?h "concat bs"] assms(4) by (simp add: row)
  moreover have pe: "1 + getCSize (of_nat ?n) True + unat (of_nat ?n :: uint32) * unat (rflag AND RFLAG_SIZE_FLAG) = p"
    by (simp add: p_def rf(2) un)
  moreover have "c_read (normal_row rflag ds bs) 0 = Inr rflag" by (simp add: row c_read_def)
  ultimately show "getRowPayload (Normal_row (normal_row rflag ds bs)) =
      Inr (p, rflag, of_nat (length ds), of_nat (length (concat bs)) + of_nat p)"
    by (simp only: getRowPayload.simps s c_bind_simps prod.case Let_def pe)
qed

lemma getColData_normal:
  assumes "offs_ok 0 ds bs" and "rflag = assign_rflag (of_nat (length (concat bs))) z"
    and "length (concat bs) < 2 ^ 32" and "length ds < 2 ^ 32" and "i < length ds"
    and cs: "getCSize (of_nat (length ds - 1)) True = getCSize (of_nat (length ds)) True"
  shows "getColData (Normal_row (normal_row rflag ds bs)) (Suc i) =
     Inr (concat (drop i bs), of_nat (length (bs ! i)), rflag)"
proof -
  let ?n = "length ds" and ?sz = "offst_size rflag" and ?h = "rflag # rawUintWriteToRow (of_nat (length ds))"
  let ?row = "normal_row rflag ds bs"
  have n0: "0 < ?n" using assms(5) by linarith
  note pay = normal_row_payload [OF assms(1-3) n0 assms(4)]
  note rf = rflag_facts [of "of_nat (length (concat bs))" z, folded assms(2)]
  have un: "unat (of_nat ?n :: uint32) = ?n" using assms(4) by (simp add: unat_of_nat)
  have uc: "(ucast (of_nat m :: uint32) :: ulong) = of_nat m" if "m < 2 ^ 32" for m
    by (rule word_eq_of_nat) (use that in \<open>simp add: unat_ucast_uint32 unat_of_nat\<close>)
  have "(of_nat ?n - 1 :: uint32) = of_nat (?n - 1)" using n0 by (cases ?n) simp_all
  then have csz: "getCSize (ucast (of_nat ?n - 1 :: uint32)) True = getCSize (of_nat ?n) True"
    using uc [of "?n - 1"] assms(4) cs by simp
  have lh: "length ?h = 1 + getCSize (of_nat ?n) True" using uc [of ?n] assms(4) by (simp add: rawUint_read(2))
  have pre: "length (concat (take m bs)) \<le> length (concat bs)" for m
    by (metis append_take_drop_id concat_append le_add1 length_append)
  have rd: "read_le ?sz ?row (1 + getCSize (of_nat ?n) True + m * ?sz) = Inr (of_nat (length (concat (take (Suc m) bs))))"
    if m: "m < ?n" for m
  proof -
    have "unat (of_nat (length (concat (take (Suc m) bs))) :: uint32) < 2 ^ (8 * ?sz)"
      using rf(4) pre [of "Suc m"] assms(3) by (simp add: unat_of_nat)
    then show ?thesis
      using read_offst [OF assms(1) m, of ?sz _ ?h "concat bs"] offs_ok_nth [OF assms(1) m] lh
      by (simp add: normal_row_def)
  qed
  let ?st = "length (concat (take i bs))"
  have start: "(if i = 0 then Inr 0 else read_le ?sz ?row (1 + getCSize (of_nat ?n) True + (i - 1) * ?sz)) = Inr (of_nat ?st)"
    using rd [of "i - 1"] assms(5) by (cases i) auto
  have "length ds = length bs" by (rule offs_ok_length [OF assms(1)])
  with assms(5) have len: "length (concat (take (Suc i) bs)) = ?st + length (bs ! i)" by (simp add: take_Suc_conv_app_nth)
  have "unat (of_nat ?st :: uint32) = ?st" using pre [of i] assms(3) by (simp add: unat_of_nat)
  moreover have "drop ?st (concat bs) = concat (drop i bs)"
    by (metis append_eq_conv_conj append_take_drop_id concat_append)
  ultimately have "drop (1 + getCSize (of_nat ?n) True + ?n * ?sz + unat (of_nat ?st :: uint32)) ?row = concat (drop i bs)"
    using pay(2) by (metis add.commute drop_drop)
  moreover have "\<not> unat (of_nat ?n :: uint32) < Suc i" using un assms(5) by simp
  moreover have "(of_nat (?st + length (bs ! i)) - of_nat ?st :: uint32) = of_nat (length (bs ! i))" by simp
  ultimately show ?thesis
    by (simp only: getColData.simps pay(1) c_bind_simps prod.case if_False Let_def csz diff_Suc_1 start
        rd [OF assms(5)] len)
qed

subsection \<open>The texts of a row\<close>

text \<open>
  The texts a row can be compressed with: no byte of 128 or more, and when one is longer than 20 bytes the LZF
  compressor accepts all of them (otherwise \<^verbatim>\<open>zipCol\<close> goes on with entries that were not written).
\<close>

definition zippable :: "byte list list \<Rightarrow> bool" where
  "zippable ts \<longleftrightarrow> (\<forall>t \<in> set ts. length t < 2 ^ 29 \<and> (\<forall>b \<in> set t. unat b < 128)) \<and>
     ((\<exists>t \<in> set ts. 20 < length t) \<longrightarrow> (\<forall>t \<in> set ts. \<exists>z. lzf_compress t (length t + 4) = Inr (Some z)))"

definition stored_text :: "czip \<Rightarrow> byte list \<Rightarrow> byte list \<Rightarrow> bool" where
  "stored_text ztype s z \<longleftrightarrow> (case ztype of
     CZIP_NONE \<Rightarrow> z = s
   | CZIP_SIX \<Rightarrow> \<exists>dest n. createSixBit_n s = Inr (Some (dest, n)) \<and> z = take n dest
   | CZIP_LZF \<Rightarrow> lzfZipCol s = Inr (Some z))"

lemma lzfZip_loop_ok:
  "\<forall>t \<in> set ts. \<exists>z. lzf_compress t (length t + 4) = Inr (Some z) \<Longrightarrow>
     \<exists>tl mtl zs. lzfZip_loop ts tlen mtlen acc = Inr (tl, mtl, acc @ zs) \<and> list_all2 (stored_text CZIP_LZF) ts zs"
proof (induction ts arbitrary: tlen mtlen acc)
  case Nil
  then show ?case by simp
next
  case (Cons t ts)
  obtain z where "lzf_compress t (length t + 4) = Inr (Some z)" using Cons.prems by auto
  then obtain y where y: "lzfZipCol t = Inr (Some y)"
    by (cases "cr8Icol (of_nat (length t))") (simp add: lzfZipCol_def)
  obtain tl mtl zs where "lzfZip_loop ts (tlen + of_nat (length t)) (mtlen + of_nat (length y)) (acc @ [y]) =
      Inr (tl, mtl, (acc @ [y]) @ zs)" "list_all2 (stored_text CZIP_LZF) ts zs"
    using Cons.IH [of "tlen + of_nat (length t)" "mtlen + of_nat (length y)" "acc @ [y]"] Cons.prems by auto
  moreover have "stored_text CZIP_LZF t y" using y by (simp add: stored_text_def)
  ultimately show ?case using y by (auto intro!: exI [of _ "y # zs"])
qed

lemma six_ascii: "\<forall>b \<in> set s. unat b < 128 \<Longrightarrow> \<exists>r. createSixBit_n s = Inr r"
proof (cases "dropWhile packable s")
  case (Cons c cs)
  assume "\<forall>b \<in> set s. unat b < 128"
  moreover have "c \<in> set s" using Cons by (metis list.set_intros(1) set_dropWhileD)
  ultimately show ?thesis using Cons by (simp add: createSixBit_n_eq)
next
  case Nil
  then show ?thesis by (simp only: createSixBit_n_eq Let_def list.case) blast
qed

lemma sixZip_loop_ok:
  "\<forall>t \<in> set ts. \<forall>b \<in> set t. unat b < 128 \<Longrightarrow>
     sixZip_loop ts = Inr None \<or> (\<exists>zs. sixZip_loop ts = Inr (Some zs) \<and> list_all2 (stored_text CZIP_SIX) ts zs)"
proof (induction ts)
  case Nil
  then show ?case by simp
next
  case (Cons t ts)
  obtain r where r: "createSixBit_n t = Inr r" using six_ascii [of t] Cons.prems by auto
  show ?case
  proof (cases r)
    case None
    with r show ?thesis by simp
  next
    case (Some dn)
    obtain dest n where dn: "dn = (dest, n)" by (cases dn)
    have "stored_text CZIP_SIX t (take n dest)" using r Some dn by (auto simp: stored_text_def)
    with Cons r Some dn show ?thesis by auto
  qed
qed

text \<open>The outcome of \<^verbatim>\<open>zipCol\<close>.\<close>

lemma zipCol_ok:
  assumes "length cts = length ds" and "offs_ok 0 ds (row_pieces CZIP_NONE cts ds [])"
    and "zippable (row_texts cts ds)"
    and "rlen = of_nat (length (concat (row_pieces CZIP_NONE cts ds [])))"
  shows "\<exists>z zs ds' rlen'. zipCol cts ds rlen = Inr (z, zs, ds', rlen') \<and> length ds' = length ds \<and>
    (z = CZIP_NONE \<or> list_all2 (stored_text z) (row_texts cts ds) zs) \<and>
    offs_ok 0 ds' (row_pieces z cts ds zs) \<and> (\<forall>y ys. row_pieces y cts ds' ys = row_pieces y cts ds ys) \<and>
    row_texts cts ds' = row_texts cts ds \<and> rlen' = of_nat (length (concat (row_pieces z cts ds zs)))"
proof -
  let ?ts = "row_texts cts ds"
  have shrink: "\<exists>ds' rlen'. zip_shrink cts ds zs 0 rlen = Inr (ds', rlen') \<and> length ds' = length ds \<and>
      offs_ok 0 ds' (row_pieces z cts ds zs) \<and> (\<forall>y ys. row_pieces y cts ds' ys = row_pieces y cts ds ys) \<and>
      row_texts cts ds' = row_texts cts ds \<and> rlen' = of_nat (length (concat (row_pieces z cts ds zs)))"
    if "list_all2 (stored_text z) ?ts zs" "z \<noteq> CZIP_NONE" for z zs
    using zip_shrink_ok [OF assms(1,2) _ that(2), of zs 0 rlen] list_all2_lengthD [OF that(1)] by (simp add: assms(4))
  have six: ?thesis
    if "zipCol cts ds rlen = c_bind (sixZip_loop ?ts) (\<lambda>r. case r of
            None \<Rightarrow> Inr (CZIP_NONE, [], ds, rlen)
          | Some zs \<Rightarrow> c_bind (zip_shrink cts ds zs 0 rlen) (\<lambda>(ds', rlen'). Inr (CZIP_SIX, zs, ds', rlen')))"
  proof -
    consider "sixZip_loop ?ts = Inr None" | zs where "sixZip_loop ?ts = Inr (Some zs)" "list_all2 (stored_text CZIP_SIX) ?ts zs"
      using sixZip_loop_ok [of ?ts] assms(3) by (auto simp: zippable_def)
    then show ?thesis
    proof cases
      case 1
      with that assms(2,4) show ?thesis by auto
    next
      case 2
      with that shrink [OF 2(2)] show ?thesis by fastforce
    qed
  qed
  show ?thesis
  proof (cases "list_ex (\<lambda>s. 20 < length s) ?ts")
    case False
    then show ?thesis using six by (simp add: zipCol_def)
  next
    case True
    then have "\<forall>t \<in> set ?ts. \<exists>z. lzf_compress t (length t + 4) = Inr (Some z)"
      using assms(3) by (auto simp: zippable_def list_ex_iff)
    from lzfZip_loop_ok [OF this, of 0 0 "[]"] obtain tl mtl zs where
      l: "lzfZip_loop ?ts 0 0 [] = Inr (tl, mtl, zs)" "list_all2 (stored_text CZIP_LZF) ?ts zs" by auto
    show ?thesis
    proof (cases "compression_justified tl mtl")
      case j: True
      with True l shrink [OF l(2)] show ?thesis by (fastforce simp: zipCol_def)
    next
      case False
      with True l six show ?thesis by (simp add: zipCol_def)
    qed
  qed
qed

subsection \<open>Reading a text back\<close>

lemma small_wUCol: "unat l < 2 ^ 29 \<Longrightarrow> cIcol l True = (n, sf, col) \<Longrightarrow> wUCol sf col True = le_bytes n col \<and> 0 < n"
  by (auto simp: cIcol_def wUCol_def two_pow_defs col_flag_defs word_less_nat_alt le_bytes.simps split: if_splits)

lemma stored_lzf_text:
  assumes "stored_text CZIP_LZF s z" and "length s < 2 ^ 29"
  shows "z \<noteq> []" "streamLZFTextToString (z @ rest) (length z) = Inr (Some s)"
proof -
  obtain c where c: "lzf_compress s (length s + 4) = Inr (Some c)"
    using assms(1) by (auto simp: stored_text_def lzfZipCol_def max_def split: c_bind_splits option.splits prod.splits)
  obtain n sf col where ic: "cIcol (of_nat (length s)) True = (n, sf, col)" by (metis surj_pair)
  have z: "z = le_bytes n col @ c"
    using assms(1) c by (simp add: stored_text_def lzfZipCol_def max_def cr8Icol_def ic)
  have ul: "unat (of_nat (length s) :: ulong) = length s" using assms(2) by (simp add: unat_of_nat)
  have w: "wUCol sf col True = le_bytes n col" "0 < n" using small_wUCol [OF _ ic] assms(2) ul by simp_all
  have "sI2I (le_bytes n col @ c @ rest) True = Inr (of_nat (length s), n)"
    using stream_num_rt [of True "of_nat (length s)" "c @ rest"] ul assms(2) by (simp add: ic w)
  moreover have "(ucast (of_nat (length s) :: ulong) :: uint32) = of_nat (length s)"
    by (rule word_eq_of_nat) (use assms(2) in \<open>simp add: unsigned_ucast_eq unat_of_nat take_bit_nat_eq_self_iff\<close>)
  ultimately have st: "streamIntToUInt (z @ rest) = Inr (of_nat (length s), n)" by (simp add: streamIntToUInt_def z)
  have dec: "lzf_decompress c (length s) = Inr (Some s)"
    using lzf_compress_ok [where inp = s and out_len = "length s + 4"] c by simp
  have u32: "unat (of_nat (length s) :: uint32) = length s" using assms(2) by (simp add: unat_of_nat)
  show "z \<noteq> []" using w(2) z by (cases n) simp_all
  show "streamLZFTextToString (z @ rest) (length z) = Inr (Some s)"
    using st dec u32 by (simp add: streamLZFTextToString_def z)
qed

lemma stored_six_text:
  assumes "stored_text CZIP_SIX s z" and "length s < 2 ^ 30"
  shows "z = [] \<longleftrightarrow> s = []"
    "\<exists>f. unpackSixBit z (of_nat (length z)) = Inr (f, length s) \<and> take (Suc (length s)) f = map Some s @ [Some 0]"
proof -
  obtain dest n where dn: "createSixBit_n s = Inr (Some (dest, n))" "z = take n dest"
    using assms(1) by (auto simp: stored_text_def)
  have pk: "list_all packable s"
  proof (cases "dropWhile packable s")
    case (Cons c cs)
    with dn(1) show ?thesis by (simp add: createSixBit_n_eq split: if_splits)
  qed (simp add: list_all_iff)
  obtain f where f: "n \<le> length dest" "unpackSixBit (take n dest) (of_nat n) = Inr (f, length s)"
      "take (length s + 1) f = map Some s @ [Some 0]"
    using sixbit_restores [OF pk assms(2)] dn(1) by auto
  then show "\<exists>f. unpackSixBit z (of_nat (length z)) = Inr (f, length s) \<and> take (Suc (length s)) f = map Some s @ [Some 0]"
    by (auto simp: dn(2))
  have "n = (if s = [] then 0 else length (six_stream (map six_code s)))"
  proof -
    have "dropWhile packable s = []" using pk by (simp add: list_all_iff)
    with dn(1) show ?thesis unfolding createSixBit_n_eq by (auto simp: Let_def)
  qed
  with f(1) show "z = [] \<longleftrightarrow> s = []" by (auto simp: dn(2) length_six_stream)
qed

lemma text_of_col_ok:
  assumes "stored_text ztype s z" and "length s < 2 ^ 29" and "z \<noteq> []"
    and "rflag = assign_rflag rlen ztype"
  shows "\<exists>a. text_of_col (z @ rest) (length z) rflag = Inr a \<and> a_type a = COL_TYPE_STRING \<and> \<not> a_empty a \<and>
    a_text a = Inr s"
proof (cases ztype)
  case CZIP_NONE
  with assms rflag_facts(6,7) [of rlen ztype] show ?thesis
    by (simp add: text_of_col_def stored_text_def a_text_def)
next
  case CZIP_SIX
  from stored_six_text(2) [of s z] assms(1,2) CZIP_SIX obtain f where
    f: "unpackSixBit z (of_nat (length z)) = Inr (f, length s)" "take (Suc (length s)) f = map Some s @ [Some 0]" by auto
  have "None \<notin> set (map Some s @ [Some 0])" by auto
  with f CZIP_SIX assms(4) rflag_facts(6) [of rlen ztype] show ?thesis
    by (simp add: text_of_col_def a_text_def comp_def)
next
  case CZIP_LZF
  with assms rflag_facts(6,7) [of rlen ztype] stored_lzf_text(2) [of s z rest] show ?thesis
    by (simp add: text_of_col_def a_text_def)
qed

lemma stored_text_nonempty: "stored_text ztype s z \<Longrightarrow> length s < 2 ^ 29 \<Longrightarrow> s \<noteq> [] \<Longrightarrow> z \<noteq> []"
  using stored_lzf_text(1) stored_six_text(1) by (cases ztype) (auto simp: stored_text_def)

lemma stored_text_empty: "stored_text ztype [] z \<Longrightarrow> z = []"
  using stored_six_text(1) [of "[]" z]
  by (cases ztype) (auto simp: stored_text_def lzfZipCol_def lzf_compress_def)

subsection \<open>Values and rows\<close>

text \<open>The values a column can hold and what \<^verbatim>\<open>createRow\<close> prepares for them.\<close>

datatype cval = Cv_none | Cv_int uint32 | Cv_long ulong | Cv_u128 uint128 | Cv_float uint32 | Cv_text "byte list"

fun cval_type :: "cval \<Rightarrow> coltype \<Rightarrow> bool" where
  "cval_type Cv_none ct \<longleftrightarrow> ct \<in> {COL_TYPE_INT, COL_TYPE_LONG, COL_TYPE_FLOAT}"
| "cval_type (Cv_int i) ct \<longleftrightarrow> ct = COL_TYPE_INT"
| "cval_type (Cv_long l) ct \<longleftrightarrow> ct = COL_TYPE_LONG"
| "cval_type (Cv_u128 x) ct \<longleftrightarrow> ct = COL_TYPE_U128"
| "cval_type (Cv_float f) ct \<longleftrightarrow> ct = COL_TYPE_FLOAT"
| "cval_type (Cv_text t) ct \<longleftrightarrow> ct = COL_TYPE_STRING"

text \<open>The prepared column and its length \<^verbatim>\<open>nclen\<close>.\<close>

fun crd_of :: "cval \<Rightarrow> crd_t \<times> nat" where
  "crd_of Cv_none = (crd_zero\<lparr>crd_empty := True\<rparr>, 0)"
| "crd_of (Cv_int i) = (let (n, sf, col) = cr8Icol (ucast i) in (crd_zero\<lparr>iflags := sf, icols := col\<rparr>, n))"
| "crd_of (Cv_long l) = (let (n, sf, col) = cr8Lcol l in (crd_zero\<lparr>iflags := sf, icols := col\<rparr>, n))"
| "crd_of (Cv_u128 x) = (crd_zero\<lparr>xcols := x\<rparr>, 16)"
| "crd_of (Cv_float f) = (crd_zero\<lparr>fcols := f, fflags := True\<rparr>, 4)"
| "crd_of (Cv_text t) = (crd_zero\<lparr>strs := t\<rparr>, length t)"

fun place_cols :: "uint32 \<Rightarrow> cval list \<Rightarrow> crd_t list" where
  "place_cols p [] = []"
| "place_cols p (v # vs) = (case crd_of v of (d, n) \<Rightarrow> d\<lparr>mcofsts := p + of_nat n\<rparr> # place_cols (p + of_nat n) vs)"

text \<open>What a value read from a column says.\<close>

fun cval_holds :: "cval \<Rightarrow> aobj \<Rightarrow> bool" where
  "cval_holds Cv_none a \<longleftrightarrow> a_empty a"
| "cval_holds (Cv_int i) a \<longleftrightarrow> \<not> a_empty a \<and> a_type a = COL_TYPE_INT \<and> a_i a = i"
| "cval_holds (Cv_long l) a \<longleftrightarrow> \<not> a_empty a \<and> a_type a = COL_TYPE_LONG \<and> a_l a = l"
| "cval_holds (Cv_u128 x) a \<longleftrightarrow> \<not> a_empty a \<and> a_type a = COL_TYPE_U128 \<and> a_x a = x"
| "cval_holds (Cv_float f) a \<longleftrightarrow> \<not> a_empty a \<and> a_type a = COL_TYPE_FLOAT \<and> a_f a = f"
| "cval_holds (Cv_text t) a \<longleftrightarrow> (if t = [] then a_empty a else \<not> a_empty a \<and> a_type a = COL_TYPE_STRING \<and> a_text a = Inr t)"

lemma num_col_read:
  "cr8Icol (ucast (i :: uint32)) = (n, sf, col) \<Longrightarrow>
     streamIntToUInt (writeUIntCol sf col @ rest) = Inr (i, n) \<and> length (writeUIntCol sf col) = n \<and> 0 < n"
  "cr8Lcol l = (n, sf, col) \<Longrightarrow>
     streamLongToULong (writeULongCol sf col @ rest) = Inr (l, n) \<and> length (writeULongCol sf col) = n \<and> 0 < n"
proof -
  have pos: "cIcol k isi = (n, sf, col) \<Longrightarrow> 0 < n" for k isi by (auto simp: cIcol_def split: if_splits)
  assume c: "cr8Icol (ucast i) = (n, sf, col)"
  have u: "unat (ucast i :: ulong) < 2 ^ 32"
    using unsigned_less [of i, where ?'a = nat] by (simp add: unat_ucast_uint32)
  have uu: "(ucast (ucast i :: ulong) :: uint32) = i" by (rule bit_word_eqI) (simp add: bit_ucast_iff)
  from stream_num_rt [of True "ucast i" rest] u c pos [of "ucast i" True] uu
  show "streamIntToUInt (writeUIntCol sf col @ rest) = Inr (i, n) \<and> length (writeUIntCol sf col) = n \<and> 0 < n"
    by (auto simp: cr8Icol_def writeUIntCol_def streamIntToUInt_def)
next
  have pos: "cIcol k isi = (n, sf, col) \<Longrightarrow> 0 < n" for k isi by (auto simp: cIcol_def split: if_splits)
  assume c: "cr8Lcol l = (n, sf, col)"
  from stream_num_rt [of False l rest] c pos [of l False]
  show "streamLongToULong (writeULongCol sf col @ rest) = Inr (l, n) \<and> length (writeULongCol sf col) = n \<and> 0 < n"
    by (auto simp: cr8Lcol_def writeULongCol_def streamLongToULong_def)
qed

lemma col_bytes_cong [simp]: "col_bytes ct (d\<lparr>mcofsts := m\<rparr>) = col_bytes ct d"
  by (simp add: col_bytes_def split: coltype.split)

lemma crd_of_length: "cval_type v ct \<Longrightarrow> length (col_bytes ct (fst (crd_of v))) = snd (crd_of v)"
  by (cases v)
    (auto simp: col_bytes_def crd_zero_def writeUIntCol_def writeULongCol_def wUCol_def writeFloatCol_def
      writeU128Col_def Let_def split: prod.splits dest!: num_col_read [where rest = "[]"] simp del: append_Nil2)

lemma place_cols_ok:
  "list_all2 cval_type vs cts \<Longrightarrow> offs_ok p (place_cols (of_nat p) vs) (row_pieces CZIP_NONE cts (place_cols (of_nat p) vs) [])"
proof (induction vs cts arbitrary: p rule: list_all2_induct)
  case Nil
  then show ?case by simp
next
  case (Cons v vs ct cts)
  obtain d n where d: "crd_of v = (d, n)" by (cases "crd_of v")
  have "length (col_bytes ct d) = n" using crd_of_length [OF Cons.hyps(1)] d by simp
  with Cons.IH [of "p + n"] d show ?case by simp
qed

lemma place_cols_nth: "i < length vs \<Longrightarrow> \<exists>m. place_cols p vs ! i = (fst (crd_of (vs ! i)))\<lparr>mcofsts := m\<rparr>"
proof (induction vs arbitrary: p i)
  case (Cons v vs)
  obtain d n where d: "crd_of v = (d, n)" by (cases "crd_of v")
  show ?case
  proof (cases i)
    case 0
    with d show ?thesis by auto
  next
    case (Suc j)
    with Cons.IH [of j "p + of_nat n"] Cons.prems d show ?thesis by simp
  qed
qed simp

lemma length_place_cols [simp]: "length (place_cols p vs) = length vs"
  by (induction vs arbitrary: p) (auto split: prod.split)

lemma row_pieces_nth:
  assumes "length cts = length ds" and "z = CZIP_NONE \<or> list_all2 (stored_text z) (row_texts cts ds) zs" and "i < length ds"
  shows "if cts ! i = COL_TYPE_STRING then stored_text z (strs (ds ! i)) (row_pieces z cts ds zs ! i)
     else row_pieces z cts ds zs ! i = col_bytes (cts ! i) (ds ! i)"
  using assms
proof (induction cts ds arbitrary: zs i rule: list_induct2)
  case Nil
  then show ?case by simp
next
  case (Cons ct cts d ds)
  show ?case
  proof (cases "ct = COL_TYPE_STRING \<and> z \<noteq> CZIP_NONE")
    case True
    with Cons.prems obtain y ys where zs: "zs = y # ys" "stored_text z (strs d) y" "list_all2 (stored_text z) (row_texts cts ds) ys"
      by (auto simp: list_all2_Cons1)
    show ?thesis
    proof (cases i)
      case 0
      with True zs show ?thesis by simp
    next
      case (Suc j)
      with True zs Cons.IH [of ys j] Cons.prems show ?thesis by simp
    qed
  next
    case False
    then have p: "z = CZIP_NONE \<or> list_all2 (stored_text z) (row_texts cts ds) zs" using Cons.prems(1) by auto
    show ?thesis
    proof (cases i)
      case 0
      with False show ?thesis by (auto simp: stored_text_def col_bytes_def)
    next
      case (Suc j)
      with False Cons.IH [OF p, of j] Cons.prems(2) show ?thesis by auto
    qed
  qed
qed

text \<open>One column read from its piece of the data.\<close>

lemma getRawCol_piece:
  assumes ty: "cval_type v ct" and d: "d = (fst (crd_of v))\<lparr>mcofsts := m\<rparr>"
    and piece: "if ct = COL_TYPE_STRING then stored_text z (strs d) b else b = col_bytes ct d"
    and t: "\<And>t. v = Cv_text t \<Longrightarrow> length t < 2 ^ 29" and lb: "length b < 2 ^ 32"
    and rt: "Suc i < length (rt_col rt)" "rt_col rt ! Suc i = ct"
    and gc: "getColData row (Suc i) = Inr (b @ rest, of_nat (length b), rflag)" and rf: "rflag = assign_rflag rlen z"
  shows "\<exists>a. getCol fl special lua_col rt row (int (Suc i)) apk = Inr a \<and> cval_holds v a"
proof -
  have clen: "(of_nat (length b) :: uint32) = 0 \<longleftrightarrow> b = []" "unat (of_nat (length b) :: uint32) = length b"
    using lb by (simp_all add: unat_of_nat word_unat_eq_iff)
  have n: "nat (int (Suc i)) = Suc i" by simp
  note g = getCol_def getRawCol_def Let_def rt gc n
  have wf [simp]: "\<not> length (rt_col rt) \<le> Suc i" using rt(1) by simp
  show ?thesis
  proof (cases v)
    case Cv_none
    with ty d piece have "b = []" "ct \<noteq> COL_TYPE_LUAO"
      by (auto simp: col_bytes_def crd_zero_def writeUIntCol_def writeULongCol_def wUCol_def writeFloatCol_def)
    with Cv_none show ?thesis by (simp add: g initAobj_def del: of_nat_Suc)
  next
    case (Cv_int j)
    obtain k sf col where c: "cr8Icol (ucast j) = (k, sf, col)" by (metis surj_pair)
    with Cv_int ty d piece have "b = writeUIntCol sf col" "ct = COL_TYPE_INT" by (simp_all add: col_bytes_def)
    with num_col_read(1) [OF c, of rest] clen Cv_int show ?thesis
      by (auto simp: g initIntAobjFromVal_def initAobj_def simp del: of_nat_Suc)
  next
    case (Cv_long l)
    obtain k sf col where c: "cr8Lcol l = (k, sf, col)" by (metis surj_pair)
    with Cv_long ty d piece have "b = writeULongCol sf col" "ct = COL_TYPE_LONG" by (simp_all add: col_bytes_def)
    with num_col_read(2) [OF c, of rest] clen Cv_long show ?thesis
      by (auto simp: g initLongAobjFromVal_def initAobj_def simp del: of_nat_Suc)
  next
    case (Cv_u128 x)
    with ty d piece have "b = writeU128Col x" "ct = COL_TYPE_U128" by (simp_all add: col_bytes_def)
    moreover have "writeU128Col x \<noteq> []" by (metis writeU128Col_def length_le_bytes list.size(3) zero_neq_numeral)
    ultimately show ?thesis using clen Cv_u128 u128_col_roundtrip [of x rest]
      by (auto simp: g initU128AobjFromVal_def initAobj_def simp del: of_nat_Suc)
  next
    case (Cv_float f)
    with ty d piece have "b = writeFloatCol True f" "ct = COL_TYPE_FLOAT" by (simp_all add: col_bytes_def)
    moreover have "writeFloatCol True f \<noteq> []" by (metis writeFloatCol_def length_le_bytes list.size(3) zero_neq_numeral)
    ultimately show ?thesis using clen Cv_float float_col_roundtrip [of f rest]
      by (auto simp: g initFloatAobjFromVal_def initAobj_def simp del: of_nat_Suc)
  next
    case (Cv_text s)
    with ty d piece have st: "stored_text z s b" and ct: "ct = COL_TYPE_STRING" by simp_all
    have len: "length s < 2 ^ 29" by (rule t [OF Cv_text])
    show ?thesis
    proof (cases "s = []")
      case True
      with st stored_text_empty have "b = []" by blast
      with True ct Cv_text show ?thesis by (simp add: g initAobj_def del: of_nat_Suc)
    next
      case False
      have b: "b \<noteq> []" by (rule stored_text_nonempty [OF st len False])
      from text_of_col_ok [OF st len b rf, of rest] obtain a where
        a: "text_of_col (b @ rest) (length b) rflag = Inr a" "a_type a = COL_TYPE_STRING" "\<not> a_empty a" "a_text a = Inr s"
        by blast
      with b clen ct Cv_text False show ?thesis by (simp add: g del: of_nat_Suc)
    qed
  qed
qed

text \<open>Compression adds at most eight bytes to a text.\<close>

lemma stored_text_length:
  assumes "stored_text z s b" and "length s < 2 ^ 29"
  shows "length b \<le> length s + 8"
proof (cases z)
  case CZIP_NONE
  with assms show ?thesis by (simp add: stored_text_def)
next
  case CZIP_SIX
  then obtain dest n where dn: "createSixBit_n s = Inr (Some (dest, n))" "b = take n dest"
    using assms(1) by (auto simp: stored_text_def)
  then have "n \<le> length s + 1"
    by (auto simp: createSixBit_n_eq Let_def length_six_stream split: list.splits if_splits)
  with dn(2) show ?thesis by simp
next
  case CZIP_LZF
  obtain n sf col where ic: "cIcol (of_nat (length s)) True = (n, sf, col)" by (metis surj_pair)
  have "unat (of_nat (length s) :: ulong) = length s" using assms(2) by (simp add: unat_of_nat)
  then have "n \<le> 4" using ic assms(2) by (auto simp: cIcol_def two_pow_defs word_less_nat_alt split: if_splits)
  moreover obtain c where "lzf_compress s (length s + 4) = Inr (Some c)" "b = le_bytes n col @ c"
    using assms(1) CZIP_LZF ic
    by (auto simp: stored_text_def lzfZipCol_def max_def cr8Icol_def split: c_bind_splits option.splits)
  moreover from this have "length c \<le> length s + 4"
    using lzf_compress_ok [where inp = s and out_len = "length s + 4"] by simp
  ultimately show ?thesis by simp
qed

lemma row_pieces_length:
  assumes "length cts = length ds" and "z = CZIP_NONE \<or> list_all2 (stored_text z) (row_texts cts ds) zs"
    and "\<forall>t \<in> set (row_texts cts ds). length t < 2 ^ 29"
  shows "length (concat (row_pieces z cts ds zs)) \<le> length (concat (row_pieces CZIP_NONE cts ds [])) + 8 * length cts"
  using assms
proof (induction cts ds arbitrary: zs rule: list_induct2)
  case Nil
  then show ?case by simp
next
  case (Cons ct cts d ds)
  show ?case
  proof (cases "ct = COL_TYPE_STRING \<and> z \<noteq> CZIP_NONE")
    case True
    with Cons.prems obtain y ys where zs: "zs = y # ys" "stored_text z (strs d) y" "list_all2 (stored_text z) (row_texts cts ds) ys"
      by (auto simp: list_all2_Cons1)
    have "length y \<le> length (strs d) + 8" using stored_text_length [OF zs(2)] Cons.prems(2) True by simp
    with True zs Cons.IH [of ys] Cons.prems(2) show ?thesis by (simp add: col_bytes_def)
  next
    case False
    then have p: "z = CZIP_NONE \<or> list_all2 (stored_text z) (row_texts cts ds) zs" using Cons.prems(1) by auto
    from Cons.IH [OF p] Cons.prems(2) False show ?thesis by (cases "ct = COL_TYPE_STRING") auto
  qed
qed

definition cval_texts :: "cval list \<Rightarrow> byte list list" where
  "cval_texts vs = concat (map (\<lambda>v. case v of Cv_text t \<Rightarrow> [t] | _ \<Rightarrow> []) vs)"

definition cval_size :: "cval list \<Rightarrow> nat" where
  "cval_size vs = (\<Sum>v \<leftarrow> vs. snd (crd_of v))"

lemma place_cols_texts: "list_all2 cval_type vs cts \<Longrightarrow> row_texts cts (place_cols p vs) = cval_texts vs"
proof (induction vs cts arbitrary: p rule: list_all2_induct)
  case (Cons v vs ct cts)
  then show ?case by (cases v) (auto simp: cval_texts_def split: prod.splits)
qed (simp add: cval_texts_def)

lemma place_cols_size:
  "list_all2 cval_type vs cts \<Longrightarrow> length (concat (row_pieces CZIP_NONE cts (place_cols p vs) [])) = cval_size vs"
proof (induction vs cts arbitrary: p rule: list_all2_induct)
  case (Cons v vs ct cts)
  with crd_of_length [OF Cons.hyps(1)] show ?case by (cases "crd_of v") (simp add: cval_size_def)
qed (simp add: cval_size_def)

lemma getCSize_pred:
  assumes "0 < n" and "n < 2 ^ 29" and "n \<noteq> 128" and "n \<noteq> 16384"
  shows "getCSize (of_nat (n - 1)) True = getCSize (of_nat n) True"
proof -
  have "unat (of_nat n :: ulong) = n" "unat (of_nat (n - 1) :: ulong) = n - 1" using assms(2) by (simp_all add: unat_of_nat)
  with assms show ?thesis by (auto simp: getCSize_def two_pow_defs word_less_nat_alt)
qed

lemma writeRow_ok:
  assumes ty: "list_all2 cval_type vs cts" and zp: "zippable (cval_texts vs)"
    and size: "cval_size vs + 8 * length vs < 2 ^ 32" and n: "0 < length vs" "length vs < 2 ^ 29"
    and dense: "length vs < 99 \<or> length vs + 1 < 4 * cnt"
  shows "\<exists>z zs ds. writeRow sw lua cts (place_cols 0 vs) (of_nat (cval_size vs)) cnt =
        Inr (Some (Normal_row (normal_row (assign_rflag (of_nat (length (concat (row_pieces z cts ds zs)))) z) ds (row_pieces z cts ds zs)))) \<and>
      length ds = length vs \<and> offs_ok 0 ds (row_pieces z cts ds zs) \<and> length (concat (row_pieces z cts ds zs)) < 2 ^ 32 \<and>
      row_pieces z cts ds zs = row_pieces z cts (place_cols 0 vs) zs \<and>
      (z = CZIP_NONE \<or> list_all2 (stored_text z) (cval_texts vs) zs)"
proof -
  let ?ds = "place_cols 0 vs"
  have len: "length cts = length ?ds" using list_all2_lengthD [OF ty] by simp
  have ok: "offs_ok 0 ?ds (row_pieces CZIP_NONE cts ?ds [])" using place_cols_ok [OF ty, of 0] by simp
  have tx: "row_texts cts ?ds = cval_texts vs" by (rule place_cols_texts [OF ty])
  have sz: "length (concat (row_pieces CZIP_NONE cts ?ds [])) = cval_size vs" by (rule place_cols_size [OF ty])
  let ?R = "of_nat (cval_size vs) :: uint32"
  obtain z zs ds rlen where zc:
      "(if sw \<and> contains_text_col cts then zipCol cts ?ds ?R else Inr (CZIP_NONE, [], ?ds, ?R)) = Inr (z, zs, ds, rlen)"
      "length ds = length ?ds" "z = CZIP_NONE \<or> list_all2 (stored_text z) (cval_texts vs) zs"
      "offs_ok 0 ds (row_pieces z cts ?ds zs)" "\<forall>y ys. row_pieces y cts ds ys = row_pieces y cts ?ds ys"
      "row_texts cts ds = cval_texts vs" "rlen = of_nat (length (concat (row_pieces z cts ?ds zs)))"
  proof (cases "sw \<and> contains_text_col cts")
    case True
    have "zippable (row_texts cts ?ds)" "?R = of_nat (length (concat (row_pieces CZIP_NONE cts ?ds [])))"
      using zp tx sz by simp_all
    from zipCol_ok [OF len ok this] True tx show thesis by (elim exE conjE) (rule that; simp)
  next
    case False
    show thesis by (rule that [of CZIP_NONE "[]" ?ds ?R]) (use False ok tx sz in \<open>auto simp del: row_pieces.simps\<close>)
  qed
  let ?bs = "row_pieces z cts ds zs"
  have bs: "?bs = row_pieces z cts ?ds zs" using zc(5) by simp
  have "length (concat ?bs) \<le> cval_size vs + 8 * length cts"
    using row_pieces_length [OF len, of z zs] zc(3) zp sz by (simp add: bs tx zippable_def)
  then have lt: "length (concat ?bs) < 2 ^ 32" using size len by simp
  then have ur: "unat rlen = length (concat ?bs)" using zc(7) bs by (simp add: unat_of_nat)
  let ?rf = "assign_rflag rlen z" and ?n = "Suc (length cts)"
  have ha: "createHashRow ?n ds rlen cnt ?rf = Inr None"
    using dense len by (auto simp: createHashRow_def MIN_NUM_COLS_FOR_HASH_ROW_def)
  have types: "\<forall>ct \<in> set cts. row_type ct" "COL_TYPE_LUAO \<notin> set cts"
  proof -
    have c: "cval_type v ct \<Longrightarrow> row_type ct \<and> ct \<noteq> COL_TYPE_LUAO" for v ct by (cases v) auto
    have "row_type ct \<and> ct \<noteq> COL_TYPE_LUAO" if "ct \<in> set cts" for ct
      using that ty c by (metis in_set_conv_nth list_all2_conv_all_nth)
    then show "\<forall>ct \<in> set cts. row_type ct" "COL_TYPE_LUAO \<notin> set cts" by blast+
  qed
  have wr: "write_cols lua z 1 cts ds zs = Inr (Some (concat ?bs))"
    using len zc(2,3,6) types by (intro write_cols_pieces) (auto dest: list_all2_lengthD)
  note rf = rflag_facts [of rlen z]
  have nz: "?n - 1 = length ds" using len zc(2) by simp
  have row: "(?rf # rawUintWriteToRow (of_nat (?n - 1))) @ concat (map (\<lambda>d. set_col_offst ?rf (mcofsts d)) ds) @ concat ?bs =
      normal_row ?rf ds ?bs" by (simp only: normal_row_def rf(1) nz)
  have "length (normal_row ?rf ds ?bs) = 1 + getCSize (of_nat (length ds)) True + length ds * offst_size ?rf + length (concat ?bs)"
    using zc(2,4,7) bs lt n by (intro normal_row_payload(3)) simp_all
  also have "\<dots> \<le> 1 + getCSize (of_nat (?n - 1)) True + ?n * unat ?rf + unat rlen"
    using rf(3) ur nz mult_le_mono [of "length ds" ?n "offst_size ?rf" "unat ?rf"] len zc(2) by simp
  finally have cap: "length (normal_row ?rf ds ?bs) \<le> 1 + getCSize (of_nat (?n - 1)) True + ?n * unat ?rf + unat rlen" .
  have "writeRow sw lua cts ?ds ?R cnt = Inr (Some (Normal_row (normal_row ?rf ds ?bs)))"
    unfolding writeRow_def zc(1) c_bind_simps prod.case Let_def ha wr createRowBlob_def row option.case
    using cap by simp
  then have "writeRow sw lua cts ?ds ?R cnt = Inr (Some (Normal_row (normal_row (assign_rflag (of_nat (length (concat ?bs))) z) ds ?bs)))"
    by (simp only: zc(7) bs)
  moreover have "offs_ok 0 ds ?bs" using zc(4) bs by simp
  ultimately show ?thesis using zc(2,3) lt bs by (metis length_place_cols)
qed

subsection \<open>Properties of the component\<close>

text \<open>
  C24. A row gives back its values. For values of the types of the columns (fewer columns than the threshold of the
  hash rows, or enough of them filled, and not 128 or 16384), with texts the compression accepts, \<^verbatim>\<open>writeRow\<close> returns
  a normal row without an access outside its buffer, with or without compression; \<^verbatim>\<open>getRowMallocSize\<close> is the number
  of its bytes; \<^verbatim>\<open>getCol\<close> returns every value, and an empty value for the columns behind the row.
\<close>

theorem row_roundtrip:
  assumes "list_all2 cval_type vs cts" and "zippable (cval_texts vs)" and "cval_size vs + 8 * length vs < 2 ^ 32"
    and "0 < length vs" "length vs < 2 ^ 29" "length vs \<noteq> 128" "length vs \<noteq> 16384"
    and "length vs < 99 \<or> length vs + 1 < 4 * cnt" and "rt_col rt = pktyp # cts @ others"
  shows "\<exists>bs. writeRow zipsw lua cts (place_cols 0 vs) (of_nat (cval_size vs)) cnt = Inr (Some (Normal_row bs)) \<and>
     getRowMallocSize (Some (Normal_row bs)) = Inr (of_nat (length bs)) \<and>
     (\<forall>i < length vs. \<exists>a. getCol fl special lua_col rt (Normal_row bs) (int (Suc i)) apk = Inr a \<and> cval_holds (vs ! i) a) \<and>
     (\<forall>i < length (rt_col rt). length vs < i \<and> rt_col rt ! i \<noteq> COL_TYPE_LUAO \<longrightarrow>
        getCol fl special lua_col rt (Normal_row bs) (int i) apk = Inr initAobj)"
proof -
  from writeRow_ok [OF assms(1-5,8), of zipsw lua] obtain z zs ds where
    w: "writeRow zipsw lua cts (place_cols 0 vs) (of_nat (cval_size vs)) cnt =
        Inr (Some (Normal_row (normal_row (assign_rflag (of_nat (length (concat (row_pieces z cts ds zs)))) z) ds (row_pieces z cts ds zs))))"
      "length ds = length vs" "offs_ok 0 ds (row_pieces z cts ds zs)" "length (concat (row_pieces z cts ds zs)) < 2 ^ 32"
      "row_pieces z cts ds zs = row_pieces z cts (place_cols 0 vs) zs"
      "z = CZIP_NONE \<or> list_all2 (stored_text z) (cval_texts vs) zs" by blast
  define bs where "bs = row_pieces z cts ds zs"
  define rf where "rf = assign_rflag (of_nat (length (concat bs))) z"
  let ?row = "Normal_row (normal_row rf ds bs)"
  have len: "length cts = length vs" using list_all2_lengthD [OF assms(1)] by simp
  have n: "0 < length ds" "length ds < 2 ^ 32" using w(2) assms(4,5) by simp_all
  note o = w(3) [folded bs_def] and lt = w(4) [folded bs_def]
  note pay = normal_row_payload [OF o rf_def lt n]
  have cs: "getCSize (of_nat (length ds - 1)) True = getCSize (of_nat (length ds)) True"
    unfolding w(2) by (rule getCSize_pred [OF assms(4-7)])
  have lbs: "length bs = length vs" using offs_ok_length [OF o] w(2) by simp
  have "\<exists>a. getCol fl special lua_col rt ?row (int (Suc i)) apk = Inr a \<and> cval_holds (vs ! i) a" if i: "i < length vs" for i
  proof -
    obtain m where m: "place_cols 0 vs ! i = (fst (crd_of (vs ! i)))\<lparr>mcofsts := m\<rparr>" using place_cols_nth [OF i] by blast
    have "i < length ds" using i w(2) by simp
    from getColData_normal [OF o rf_def lt n(2) this cs] lbs i
    have gc: "getColData ?row (Suc i) = Inr (bs ! i @ concat (drop (Suc i) bs), of_nat (length (bs ! i)), rf)"
      by (simp add: Cons_nth_drop_Suc [symmetric])
    have pc: "if cts ! i = COL_TYPE_STRING then stored_text z (strs (place_cols 0 vs ! i)) (bs ! i)
        else bs ! i = col_bytes (cts ! i) (place_cols 0 vs ! i)"
      unfolding bs_def w(5)
      by (rule row_pieces_nth) (use len i w(6) place_cols_texts [OF assms(1), of 0] in simp_all)
    have "length (bs ! i) \<le> length (concat bs)"
      using i lbs by (simp add: length_concat member_le_sum_list)
    then have lb: "length (bs ! i) < 2 ^ 32" using lt by simp
    have t: "length t < 2 ^ 29" if v: "vs ! i = Cv_text t" for t
    proof -
      have "Cv_text t \<in> set vs" using v i by (metis nth_mem)
      then have "t \<in> set (cval_texts vs)" by (force simp: cval_texts_def)
      with assms(2) show ?thesis by (simp add: zippable_def)
    qed
    have rt: "Suc i < length (rt_col rt)" "rt_col rt ! Suc i = cts ! i" using assms(9) len i by (simp_all add: nth_append)
    show ?thesis
      by (rule getRawCol_piece [OF _ m pc t lb rt gc rf_def])
        (use assms(1) i in \<open>simp add: list_all2_conv_all_nth\<close>)
  qed
  moreover have "getCol fl special lua_col rt ?row (int i) apk = Inr initAobj"
    if i: "i < length (rt_col rt)" "length vs < i" "rt_col rt ! i \<noteq> COL_TYPE_LUAO" for i
  proof -
    have "unat (of_nat (length ds) :: uint32) = length vs" using n(2) w(2) by (simp add: unat_of_nat)
    then have "\<exists>data. getColData ?row i = Inr (data, 0, rf)" using i(2) by (simp add: pay(1) del: getRowPayload.simps)
    with i show ?thesis by (auto simp: getCol_def getRawCol_def Let_def)
  qed
  moreover have "getRowMallocSize (Some ?row) = Inr (of_nat (length (normal_row rf ds bs)))"
    by (simp add: getRowMallocSize_def pay(1,3) del: getRowPayload.simps)
  ultimately show ?thesis using w(1) unfolding bs_def [symmetric] rf_def [symmetric] by blast
qed

definition demo_vals :: "cval list" where
  "demo_vals = [Cv_int 70000, Cv_text (bytes_of ''Hello''), Cv_none, Cv_long 5]"

definition demo_rt :: r_tbl where
  "demo_rt = \<lparr>rt_col = [COL_TYPE_INT, COL_TYPE_INT, COL_TYPE_STRING, COL_TYPE_FLOAT, COL_TYPE_LONG, COL_TYPE_INT],
     rt_lrud = False, rt_lruc = 0, rt_lfu = False, rt_lfuc = 0\<rparr>"

theorem row_roundtrip_witness:
  "\<exists>bs. writeRow True (\<lambda>_ _. True) [COL_TYPE_INT, COL_TYPE_STRING, COL_TYPE_FLOAT, COL_TYPE_LONG] (place_cols 0 demo_vals)
       (of_nat (cval_size demo_vals)) 3 = Inr (Some (Normal_row bs)) \<and>
     getRowMallocSize (Some (Normal_row bs)) = Inr (of_nat (length bs)) \<and>
     (\<forall>i < length demo_vals. \<exists>a. getCol demo_float (\<lambda>_ _. initAobj) (\<lambda>_ _. initAobj) demo_rt (Normal_row bs) (int (Suc i)) initAobj = Inr a \<and>
        cval_holds (demo_vals ! i) a) \<and>
     (\<forall>i < length (rt_col demo_rt). length demo_vals < i \<and> rt_col demo_rt ! i \<noteq> COL_TYPE_LUAO \<longrightarrow>
        getCol demo_float (\<lambda>_ _. initAobj) (\<lambda>_ _. initAobj) demo_rt (Normal_row bs) (int i) initAobj = Inr initAobj)"
proof (rule row_roundtrip [where others = "[COL_TYPE_INT]" and pktyp = COL_TYPE_INT])
  show "zippable (cval_texts demo_vals)" by (simp add: zippable_def cval_texts_def demo_vals_def bytes_of_def)
  show "cval_size demo_vals + 8 * length demo_vals < 2 ^ 32"
    by (simp add: cval_size_def demo_vals_def cr8Icol_def cr8Lcol_def cIcol_def two_pow_defs bytes_of_def)
qed (simp_all add: demo_vals_def demo_rt_def)

subsection \<open>Rows that go wrong\<close>

lemmas row_eval = createRow_def filled_cols_def createRow_col_def trim_val_def row_skip_spaces_def byte_ISBLANK_def
  col_from_text_def num_col_def mem_text_def cr8IcolFromStr_def strToULong_def c_strtoul_def digits_value_def
  c_isspace_def c_isdigit_def writeRow_def contains_text_col_def createHashRow_def MIN_NUM_COLS_FOR_HASH_ROW_def
  createRowBlob_def rawUintWriteToRow_def cr8Icol_def cIcol_def two_pow_defs col_flag_defs writeUIntCol_def wUCol_def
  set_col_offst_def assign_rflag_def rflag_defs getCSize_def crd_zero_def

lemma blank_before_paren:
  "createRow demo_float True (\<lambda>_ _. True) demo_rt 0 (bytes_of ''1, 22)'') [Some (0, 1), Some (2, 5)] =
     Inr ([], Some (Normal_row [1, 3, 1, 45]))"
  "createRow demo_float True (\<lambda>_ _. True) demo_rt 0 (bytes_of ''1, 22 )'') [Some (0, 1), Some (2, 5)] =
     Inr ([], Some (Normal_row [1, 3, 1, 5]))"
proof -
  have "row_rev_skip_spaces (bytes_of ''1, 22 )'') 5 = Inr 4"
    by (subst row_rev_skip_spaces.simps, simp add: bytes_of_def byte_ISBLANK_def c_read_def split: nat.split)
      (subst row_rev_skip_spaces.simps, simp add: byte_ISBLANK_def)
  then show "createRow demo_float True (\<lambda>_ _. True) demo_rt 0 (bytes_of ''1, 22 )'') [Some (0, 1), Some (2, 5)] =
      Inr ([], Some (Normal_row [1, 3, 1, 5]))"
    by (simp add: row_eval Let_def demo_rt_def bytes_of_def cong: c_bind_weak_cong)
qed (simp add: row_eval Let_def demo_rt_def bytes_of_def cong: c_bind_weak_cong)

definition long_text :: "byte list" where
  "long_text = [97, 98, 97, 97, 97, 97, 97, 97, 97, 97, 97, 97, 97, 97, 97, 97, 97, 97, 97, 97, 97]"

lemma long_text_zip: "\<exists>z. lzfZipCol long_text = Inr (Some z) \<and> length z = 11"
  by (simp add: lzfZipCol_def long_text_def lzf_eval cr8Icol_def cIcol_def two_pow_defs cong: c_bind_weak_cong)

lemma lzf_failure_uninit:
  "writeRow True (\<lambda>_ _. True) [COL_TYPE_STRING, COL_TYPE_STRING] (place_cols 0 [Cv_text long_text, Cv_text []]) 21 2 =
     Inl Uninit_read"
proof -
  obtain z where z: "lzfZipCol long_text = Inr (Some z)" "length z = 11" using long_text_zip by blast
  have n: "lzfZipCol [] = Inr None" by (simp add: lzfZipCol_def lzf_compress_def)
  have l: "length long_text = 21" by (simp add: long_text_def)
  show ?thesis
    by (simp add: writeRow_def contains_text_col_def zipCol_def Let_def z n l compression_justified_def crd_zero_def)
qed

lemma wide_row_misread:
  "getColData (Normal_row ([1, 2, 2] @ map of_nat [1..<129] @ map (\<lambda>i. of_nat (2 * i + 1)) [0..<128])) 2 =
     Inr (map (\<lambda>i. of_nat (2 * i + 1)) [2..<128], - 1, 1)"
  by code_simp


end
