(* ===== verification/Alc_RowOut.thy ===== *)
theory Alc_RowOut
  imports Alc_RowStore
begin

text \<open>
  Rows as replies, the last part of \<^verbatim>\<open>src/DB/row.c\<close>: the plain text form (columns separated by \<^verbatim>\<open>OUTPUT_DELIM\<close>, texts
  in quotes) and the Redis protocol form. The reply is assembled in a buffer of \<^verbatim>\<open>totlen\<close> bytes, or in a static one
  of 4096 when it is shorter, and \<^verbatim>\<open>totlen\<close> bytes of the buffer are sent. A column is read by an argument \<open>col\<close>, which
  is \<^verbatim>\<open>getSCol\<close> or \<^verbatim>\<open>getCol\<close> of a row. The static buffer starts with the bytes \<open>old\<close> of an earlier reply.
\<close>

record sl_t =
  sl_s :: "byte list"
  sl_type :: coltype

datatype orow_res = OR_ROW "byte list" | OR_ALLB_OK | OR_ALLB_NO | OR_LUA_FAIL

definition OBUFF_SIZE :: nat where "OBUFF_SIZE = 4096"

definition output_start :: "nat \<Rightarrow> byte list" where
  "output_start qcols = 42 # c_utoa qcols @ CRLF"

definition QUOTE_COL :: "bool \<Rightarrow> sl_t \<Rightarrow> byte list" where
  "QUOTE_COL oredis out = (if \<not> oredis \<and> sl_type out = COL_TYPE_STRING \<and> sl_s out \<noteq> [] then [39] else [])"

definition FINAL_COMMA :: "bool \<Rightarrow> byte \<Rightarrow> nat \<Rightarrow> nat \<Rightarrow> byte list" where
  "FINAL_COMMA oredis delim qcols i = (if \<not> oredis \<and> i \<noteq> qcols - 1 then [delim] else [])"

fun output_cols :: "bool \<Rightarrow> byte \<Rightarrow> nat \<Rightarrow> nat \<Rightarrow> sl_t list \<Rightarrow> byte list" where
  "output_cols oredis delim qcols i [] = []"
| "output_cols oredis delim qcols i (out # outs) =
     QUOTE_COL oredis out @ sl_s out @ QUOTE_COL oredis out @ FINAL_COMMA oredis delim qcols i @
     output_cols oredis delim qcols (Suc i) outs"

definition write_output_row :: "bool \<Rightarrow> byte \<Rightarrow> byte list \<Rightarrow> byte list \<Rightarrow> nat \<Rightarrow> sl_t list \<Rightarrow> byte list c_res" where
  "write_output_row oredis delim old pbuf totlen outs =
     (let text = pbuf @ output_cols oredis delim (length outs) 0 outs;
          size = (if OBUFF_SIZE \<le> totlen then totlen else OBUFF_SIZE)
      in if size < length text then Inl OOB_write
         else if totlen \<le> length text then Inr (take totlen text)
         else if OBUFF_SIZE \<le> totlen then Inl Uninit_read
         else Inr (text @ take (totlen - length text) (drop (length text) old)))"

text \<open>The loop over the columns: the outputs, the length counted for them, and what is known of the booleans.\<close>

fun orow_loop :: "(sl_t \<Rightarrow> nat) \<Rightarrow> (int \<Rightarrow> (aobj \<times> sl_t) c_res) \<Rightarrow> int list \<Rightarrow> (sl_t list \<times> nat \<times> bool \<times> bool) option c_res" where
  "orow_loop cost col [] = Inr (Some ([], 0, True, False))"
| "orow_loop cost col (ic # ics) = c_bind (col ic) (\<lambda>(acol, out).
     if a_type acol = COL_TYPE_ERR then Inr None
     else c_bind (orow_loop cost col ics) (\<lambda>r. Inr (map_option (\<lambda>(outs, totlen, allbools, bool_ok).
       if a_type acol = COL_TYPE_BOOL then (out # outs, totlen, allbools, a_b acol \<or> bool_ok)
       else (out # outs, cost out + totlen, False, bool_ok)) r)))"

text \<open>\<^verbatim>\<open>orow_normal\<close>: the text of each column as \<^verbatim>\<open>getSCol\<close> returns it.\<close>

definition normal_out :: "(int \<Rightarrow> aobj c_res) \<Rightarrow> int \<Rightarrow> (aobj \<times> sl_t) c_res" where
  "normal_out col ic = c_bind (col ic) (\<lambda>acol.
     if a_type acol \<in> {COL_TYPE_ERR, COL_TYPE_BOOL} \<and> a_s acol = None then Inr (acol, \<lparr>sl_s = [], sl_type = a_type acol\<rparr>)
     else c_bind (a_text acol) (\<lambda>s. Inr (acol, \<lparr>sl_s = s, sl_type = a_type acol\<rparr>)))"

definition normal_cost :: "sl_t \<Rightarrow> nat" where
  "normal_cost out = length (sl_s out) + (if sl_type out = COL_TYPE_STRING \<and> sl_s out \<noteq> [] then 2 else 0)"

definition orow_normal :: "byte \<Rightarrow> byte list \<Rightarrow> (int \<Rightarrow> aobj c_res) \<Rightarrow> int list \<Rightarrow> orow_res c_res" where
  "orow_normal delim old col ics =
     c_bind (orow_loop normal_cost (normal_out col) ics) (\<lambda>r. case r of
       None \<Rightarrow> Inr OR_LUA_FAIL
     | Some (outs, totlen, allbools, bool_ok) \<Rightarrow>
         if allbools then Inr (if bool_ok then OR_ALLB_OK else OR_ALLB_NO)
         else c_bind (write_output_row False delim old [] (totlen + (length ics - 1)) outs) (\<lambda>s. Inr (OR_ROW s)))"

text \<open>
  \<^verbatim>\<open>orow_redis\<close>: each column in the Redis protocol, behind the count of columns. The value is released before its
  type is tested, which sets the type to \<^verbatim>\<open>COL_TYPE_NONE\<close>.
\<close>

definition redis_out :: "c_float \<Rightarrow> byte list \<Rightarrow> (int \<Rightarrow> aobj c_res) \<Rightarrow> int \<Rightarrow> (aobj \<times> sl_t) c_res" where
  "redis_out fl err col ic = c_bind (col ic) (\<lambda>acol.
     c_bind (outputReformat fl err acol) (\<lambda>(s, ty). Inr (releaseAobj acol, \<lparr>sl_s = s, sl_type = ty\<rparr>)))"

definition orow_redis :: "c_float \<Rightarrow> byte list \<Rightarrow> byte \<Rightarrow> byte list \<Rightarrow> (int \<Rightarrow> aobj c_res) \<Rightarrow> int list \<Rightarrow> orow_res c_res" where
  "orow_redis fl err delim old col ics =
     c_bind (orow_loop (\<lambda>out. length (sl_s out)) (redis_out fl err col) ics) (\<lambda>r. case r of
       None \<Rightarrow> Inr OR_LUA_FAIL
     | Some (outs, totlen, allbools, bool_ok) \<Rightarrow>
         if allbools then Inr (if bool_ok then OR_ALLB_OK else OR_ALLB_NO)
         else c_bind (write_output_row True delim old (output_start (length ics)) (length (output_start (length ics)) + totlen) outs)
           (\<lambda>s. Inr (OR_ROW s)))"

text \<open>\<^verbatim>\<open>orow_embedded\<close> keeps the values.\<close>

fun orow_embedded :: "(int \<Rightarrow> aobj c_res) \<Rightarrow> int list \<Rightarrow> aobj list c_res" where
  "orow_embedded col [] = Inr []"
| "orow_embedded col (ic # ics) = c_bind (col ic) (\<lambda>a. c_bind (orow_embedded col ics) (\<lambda>as. Inr (a # as)))"

definition cloneRobjErow :: "aobj list \<Rightarrow> aobj list" where
  "cloneRobjErow er = map aobjClone er"

subsection \<open>Properties of the component\<close>

text \<open>The reply as it is meant: the columns in quotes where needed, separated by the delimiter.\<close>

fun join_bytes :: "byte \<Rightarrow> byte list list \<Rightarrow> byte list" where
  "join_bytes d [] = []"
| "join_bytes d [x] = x"
| "join_bytes d (x # y # xs) = x @ d # join_bytes d (y # xs)"

definition shown :: "coltype \<Rightarrow> byte list \<Rightarrow> byte list" where
  "shown ty s = (if ty = COL_TYPE_STRING \<and> s \<noteq> [] then 39 # s @ [39] else s)"

abbreviation show_sl :: "sl_t \<Rightarrow> byte list" where
  "show_sl out \<equiv> shown (sl_type out) (sl_s out)"

lemma output_cols_normal:
  "outs \<noteq> [] \<Longrightarrow> i + length outs = n \<Longrightarrow> output_cols False d n i outs = join_bytes d (map show_sl outs)"
proof (induction outs arbitrary: i)
  case (Cons out outs)
  show ?case
  proof (cases outs)
    case Nil
    with Cons.prems show ?thesis by (auto simp: QUOTE_COL_def FINAL_COMMA_def shown_def)
  next
    case (Cons o2 os)
    with Cons.IH [of "Suc i"] Cons.prems show ?thesis by (auto simp: QUOTE_COL_def FINAL_COMMA_def shown_def)
  qed
qed simp

lemma join_bytes_length: "xs \<noteq> [] \<Longrightarrow> length (join_bytes d xs) = (\<Sum>x \<leftarrow> xs. length x) + (length xs - 1)"
  by (induction d xs rule: join_bytes.induct) auto

lemma normal_cost_shown: "normal_cost out = length (show_sl out)"
  by (simp add: normal_cost_def shown_def)

lemma orow_loop_plain:
  assumes "\<forall>ic \<in> set ics. \<exists>a out. col ic = Inr (a, out) \<and> out = f ic \<and> a_type a \<noteq> COL_TYPE_ERR \<and> a_type a \<noteq> COL_TYPE_BOOL"
  shows "orow_loop cost col ics = Inr (Some (map f ics, (\<Sum>ic \<leftarrow> ics. cost (f ic)), ics = [], False))"
  using assms by (induction ics) auto

lemma write_output_exact:
  "length text = totlen \<Longrightarrow> text = pbuf @ output_cols oredis d (length outs) 0 outs \<Longrightarrow>
     write_output_row oredis d old pbuf totlen outs = Inr text"
  by (auto simp: write_output_row_def Let_def)

text \<open>
  C26. The plain reply of a row. When no column is a boolean or an error and every column has a text, \<^verbatim>\<open>orow_normal\<close>
  sends exactly the texts of the columns, quoted where they are of type TEXT and not empty, with the delimiter
  between them, whatever an earlier reply left in the buffer.
\<close>

theorem orow_normal_text:
  assumes "ics \<noteq> []" and "\<forall>ic \<in> set ics. a_type (v ic) \<noteq> COL_TYPE_ERR \<and> a_type (v ic) \<noteq> COL_TYPE_BOOL \<and>
    col ic = Inr (v ic) \<and> a_text (v ic) = Inr (t ic)"
  shows "orow_normal delim old col ics = Inr (OR_ROW (join_bytes delim (map (\<lambda>ic. shown (a_type (v ic)) (t ic)) ics)))"
proof -
  let ?f = "\<lambda>ic. \<lparr>sl_s = t ic, sl_type = a_type (v ic)\<rparr>"
  have loop: "orow_loop normal_cost (normal_out col) ics = Inr (Some (map ?f ics, (\<Sum>ic \<leftarrow> ics. normal_cost (?f ic)), ics = [], False))"
    using assms(2) by (intro orow_loop_plain) (auto simp: normal_out_def)
  let ?text = "join_bytes delim (map show_sl (map ?f ics))"
  have "output_cols False delim (length (map ?f ics)) 0 (map ?f ics) = ?text"
    using assms(1) by (intro output_cols_normal) simp_all
  moreover have "length ?text = (\<Sum>ic \<leftarrow> ics. normal_cost (?f ic)) + (length ics - 1)"
    using join_bytes_length [of "map show_sl (map ?f ics)" delim] assms(1) by (simp add: normal_cost_shown comp_def)
  ultimately have "write_output_row False delim old [] ((\<Sum>ic \<leftarrow> ics. normal_cost (?f ic)) + (length ics - 1)) (map ?f ics) =
      Inr ?text" by (intro write_output_exact) simp_all
  with loop assms(1) show ?thesis by (simp add: orow_normal_def comp_def)
qed

definition demo_col :: "int \<Rightarrow> aobj c_res" where
  "demo_col ic = (if ic = 0 then Inr (initAobjString (bytes_of ''7'') 1) else Inr (initAobjString (bytes_of ''ab'') 2))"

theorem orow_normal_text_witness:
  "orow_normal 44 [] demo_col [0, 1] = Inr (OR_ROW (join_bytes 44 (map (\<lambda>ic. shown (a_type (projr (demo_col ic)))
     (the (a_s (projr (demo_col ic))))) [0, 1])))"
  by (rule orow_normal_text) (simp_all add: demo_col_def initAobjString_def a_text_def bytes_of_def)

text \<open>
  The Redis reply of a row. The value is released before the test of its type, so for any columns that can be
  printed at least one of which is asked for, \<^verbatim>\<open>orow_redis\<close> sends the count and all columns: neither a failed Lua
  function nor a row of booleans suppresses the row, as they do in the plain form.
\<close>

theorem orow_redis_all:
  assumes "ics \<noteq> []" and "\<forall>ic \<in> set ics. col ic = Inr (v ic) \<and> outputAobj fl err (v ic) = Inr (t ic)"
  shows "orow_redis fl err delim old col ics = Inr (OR_ROW (output_start (length ics) @ concat (map t ics)))"
proof -
  let ?f = "\<lambda>ic. \<lparr>sl_s = t ic, sl_type = a_type (v ic)\<rparr>"
  have loop: "orow_loop (\<lambda>out. length (sl_s out)) (redis_out fl err col) ics =
      Inr (Some (map ?f ics, (\<Sum>ic \<leftarrow> ics. length (sl_s (?f ic))), ics = [], False))"
    using assms(2) by (intro orow_loop_plain) (auto simp: redis_out_def outputReformat_def releaseAobj_def)
  have cols: "output_cols True delim n i (map ?f js) = concat (map t js)" for n i js
    by (induction js arbitrary: i) (simp_all add: QUOTE_COL_def FINAL_COMMA_def)
  have "write_output_row True delim old (output_start (length ics))
      (length (output_start (length ics)) + (\<Sum>ic \<leftarrow> ics. length (t ic))) (map ?f ics) =
      Inr (output_start (length ics) @ concat (map t ics))"
    by (rule write_output_exact) (simp_all add: cols length_concat comp_def)
  with loop assms(1) show ?thesis by (simp add: orow_redis_def)
qed

theorem orow_redis_all_witness:
  "orow_redis demo_float (bytes_of ''failed'') 44 [] (\<lambda>_. Inr (initAobj\<lparr>a_type := COL_TYPE_ERR\<rparr>)) [3] =
     Inr (OR_ROW (output_start (length [3 :: int]) @ concat (map (\<lambda>_. outputS (bytes_of ''failed'')) [3 :: int])))"
  by (rule orow_redis_all [where v = "\<lambda>_. initAobj\<lparr>a_type := COL_TYPE_ERR\<rparr>"]) (simp_all add: outputAobj_def)

end
