(* ===== verification/Alc_Range.thy ===== *)
theory Alc_Range
  imports Alc_Scion Alc_Orderby Alc_RowOut
begin

text \<open>
  The execution of a WHERE clause on the primary key, \<^verbatim>\<open>src/DB/range.c\<close>, on tables without evicted rows: which queries are
  queued for sorting, filters, range and IN-list queries with LIMIT and OFFSET, SELECT and DELETE. An entry of the
  table's tree gives the key (\<open>bkey\<close>, \<^verbatim>\<open>be->key\<close>) and the row (\<open>erow\<close>, \<^verbatim>\<open>be->val\<close>).
\<close>

record qr_t =
  q_pk :: bool
  q_pk_lim :: bool
  q_pk_lo :: bool
  q_pk_desc :: bool
  q_fk :: bool
  q_fk_lim :: bool
  q_fk_lo :: bool
  q_fk_desc :: bool
  q_inr_desc :: bool
  q_xth :: bool
  q_qed :: bool

text \<open>The members of \<^verbatim>\<open>r_ind_t\<close> that are used; \<^verbatim>\<open>nclist\<close> is the length of \<^verbatim>\<open>bclist\<close>.\<close>

record r_ind =
  ri_virt :: bool
  ri_icol :: icol_t
  ri_obc :: icol_t
  ri_bclist :: "icol_t list"

subsection \<open>Queueing\<close>

text \<open>
  \<^verbatim>\<open>icol_cmp\<close>, as "differs". Both tests of \<^verbatim>\<open>nlo\<close> look at the first column, and columns with the same sub-columns are
  equal whatever their numbers are.
\<close>

definition icol_cmp :: "icol_t \<Rightarrow> icol_t \<Rightarrow> bool" where
  "icol_cmp ic1 ic2 =
     (if lo ic1 = [] then cmatch ic1 \<noteq> cmatch ic2
      else if length (lo ic1) \<noteq> length (lo ic2) then True
      else lo ic1 \<noteq> lo ic2)"

definition DECLARE_ICOL :: "int \<Rightarrow> icol_t" where
  "DECLARE_ICOL i = \<lparr>cmatch = i, fimatch = - 1, lo = []\<rparr>"

fun mci_prefix :: "icol_t list \<Rightarrow> icol_t list \<Rightarrow> nat" where
  "mci_prefix (o1 # os) (b # bs) = (if icol_cmp o1 b then 0 else Suc (mci_prefix os bs))"
| "mci_prefix _ _ = 0"

definition mci_fk_queued :: "wob_t \<Rightarrow> r_ind \<Rightarrow> bool" where
  "mci_fk_queued wb ri =
     (let obs = map obc (wb_cols wb); nob = length obs; i = mci_prefix obs (ri_bclist ri) in
      if i + 1 = nob then icol_cmp (obs ! i) (ri_obc ri) else i \<noteq> nob)"

text \<open>\<open>flist\<close>: there are filters; \<open>single_fk\<close>: \<^verbatim>\<open>wtype & SQL_SINGLE_FK_LKP\<close>.\<close>

definition setRangeQueued :: "r_ind option \<Rightarrow> bool \<Rightarrow> bool \<Rightarrow> wob_t \<Rightarrow> qr_t c_res" where
  "setRangeQueued rio single_fk flist wb =
     (let virt = (case rio of None \<Rightarrow> False | Some ri \<Rightarrow> ri_virt ri);
          ic = (case rio of None \<Rightarrow> DECLARE_ICOL (- 1)
                | Some ri \<Rightarrow> if cmatch (ri_icol ri) \<noteq> 0 then cloneIC (ri_icol ri) else DECLARE_ICOL (- 1));
          oc = (case rio of None \<Rightarrow> DECLARE_ICOL 0
                | Some ri \<Rightarrow> if cmatch (ri_obc ri) \<noteq> - 1 then cloneIC (ri_obc ri) else DECLARE_ICOL 0);
          cs = wb_cols wb; nob = length cs;
          same = (\<lambda>i c. \<not> icol_cmp (obc (cs ! i)) c);
          desc = (\<lambda>i. \<not> ob_asc (cs ! i));
          haslim = (lim wb \<noteq> - 1); hasofst = (ofst wb \<noteq> - 1);
          q0 = \<lparr>q_pk = False, q_pk_lim = False, q_pk_lo = False, q_pk_desc = False, q_fk = False, q_fk_lim = False,
                q_fk_lo = False, q_fk_desc = False, q_inr_desc = False, q_xth = False, q_qed = False\<rparr>
      in
      if virt then
        let pk = (nob > 1 \<or> nob = 1 \<and> \<not> same 0 oc); pk_lim = (\<not> pk \<and> haslim); pk_lo = (pk_lim \<and> hasofst) in
        Inr (q0\<lparr>q_pk_desc := nob \<ge> 1 \<and> desc 0 \<and> same 0 oc, q_pk := pk, q_pk_lim := pk_lim, q_pk_lo := pk_lo,
               q_xth := pk_lo \<and> \<not> (flist \<and> hasofst), q_qed := pk\<rparr>)
      else
        c_bind (if single_fk then
                  case rio of None \<Rightarrow> Inl Null_deref
                  | Some ri \<Rightarrow> Inr (if ri_bclist ri \<noteq> [] then mci_fk_queued wb ri
                      else nob > 2 \<or> nob = 1 \<and> \<not> same 0 ic \<and> \<not> same 0 oc \<or>
                        nob = 2 \<and> \<not> (same 0 ic \<and> same 1 oc) \<and> \<not> (same 1 ic \<and> same 0 oc))
                else Inr (nob > 2 \<or> nob = 1 \<and> \<not> same 0 ic \<or> nob = 2 \<and> \<not> (same 0 ic \<and> same 1 oc))) (\<lambda>fk.
        let fk_lim = (\<not> fk \<and> haslim); fk_lo = (fk_lim \<and> hasofst) in
        Inr (q0\<lparr>q_fk_desc := nob \<ge> 1 \<and> desc 0 \<and> same 0 ic,
               q_inr_desc := nob = 1 \<and> desc 0 \<and> same 0 oc \<or> nob > 1 \<and> same 0 ic \<and> desc 1 \<and> same 1 oc,
               q_fk := fk, q_fk_lim := fk_lim, q_fk_lo := fk_lo, q_xth := fk_lo \<and> \<not> (flist \<and> hasofst), q_qed := fk\<rparr>)))"

definition setInQueued :: "r_ind option \<Rightarrow> bool \<Rightarrow> bool \<Rightarrow> wob_t \<Rightarrow> qr_t c_res" where
  "setInQueued rio single_fk flist wb =
     c_bind (setRangeQueued rio single_fk flist wb) (\<lambda>q. Inr (q\<lparr>q_pk_lo := False, q_fk_lo := False\<rparr>))"

definition setQueued :: "bool \<Rightarrow> r_ind option \<Rightarrow> bool \<Rightarrow> bool \<Rightarrow> wob_t \<Rightarrow> qr_t c_res" where
  "setQueued inl rio single_fk flist wb =
     (if inl then setInQueued rio single_fk flist wb else setRangeQueued rio single_fk flist wb)"

subsection \<open>Filters\<close>

datatype OP = OP_NONE | OP_EQ | OP_NE | OP_GT | OP_GE | OP_LT | OP_LE | OP_RQ | OP_IN | OP_LFUNC

text \<open>The filter value is the left operand, so the table has the mirrored comparisons.\<close>

definition OP_CMP :: "c_float \<Rightarrow> OP \<Rightarrow> aobj \<Rightarrow> aobj \<Rightarrow> bool c_res" where
  "OP_CMP fl op = (case op of
       OP_EQ \<Rightarrow> aobjEQ fl | OP_NE \<Rightarrow> aobjNE fl | OP_GT \<Rightarrow> aobjLT fl | OP_GE \<Rightarrow> aobjLE fl
     | OP_LT \<Rightarrow> aobjGT fl | OP_LE \<Rightarrow> aobjGE fl | _ \<Rightarrow> (\<lambda>_ _. Inl Null_deref))"

record f_t =
  f_tmatch :: int
  f_ic :: icol_t
  f_op :: OP
  f_akey :: aobj
  f_alow :: aobj
  f_ahigh :: aobj
  f_inl :: "aobj list option"

fun pass_inl :: "c_float \<Rightarrow> aobj \<Rightarrow> bool \<Rightarrow> aobj list \<Rightarrow> bool c_res" where
  "pass_inl fl a ret [] = Inr ret"
| "pass_inl fl a ret (a2 # l) = c_bind (OP_CMP fl OP_EQ a2 a) (\<lambda>ret. if ret then Inr True else pass_inl fl a ret l)"

text \<open>
  \<^verbatim>\<open>passFilts\<close>: the loop with \<^verbatim>\<open>ret\<close> and \<^verbatim>\<open>*hf\<close>. \<open>col\<close> is \<^verbatim>\<open>getCol\<close> on the row, \<open>lua\<close> runs a Lua filter and tells its result
  and whether it failed; after it the loop goes on.
\<close>

fun passFilts_loop :: "c_float \<Rightarrow> (f_t \<Rightarrow> bool \<times> bool) \<Rightarrow> (int \<Rightarrow> aobj c_res) \<Rightarrow> int \<Rightarrow> bool \<Rightarrow> bool \<Rightarrow> f_t list \<Rightarrow> (bool \<times> bool) c_res" where
  "passFilts_loop fl lua col tmatch ret hf [] = Inr (ret, hf)"
| "passFilts_loop fl lua col tmatch ret hf (f # fs) =
     (if tmatch \<noteq> f_tmatch f then passFilts_loop fl lua col tmatch ret hf fs
      else c_bind (col (cmatch (f_ic f))) (\<lambda>a.
        case f_inl f of
          Some l \<Rightarrow> c_bind (pass_inl fl a ret l) (\<lambda>ret.
            if \<not> ret then Inr (False, hf) else passFilts_loop fl lua col tmatch ret hf fs)
        | None \<Rightarrow>
            if a_type (f_alow f) \<noteq> COL_TYPE_NONE then
              c_bind (OP_CMP fl OP_GE (f_alow f) a) (\<lambda>ret.
                if \<not> ret then Inr (False, hf)
                else c_bind (OP_CMP fl OP_LE (f_ahigh f) a) (\<lambda>ret.
                  if \<not> ret then Inr (False, hf) else passFilts_loop fl lua col tmatch ret hf fs))
            else if a_type (f_akey f) \<noteq> COL_TYPE_NONE then
              c_bind (OP_CMP fl (f_op f) (f_akey f) a) (\<lambda>ret.
                if \<not> ret then Inr (False, hf) else passFilts_loop fl lua col tmatch ret hf fs)
            else if f_op f = OP_LFUNC then
              passFilts_loop fl lua col tmatch (fst (lua f)) (hf \<or> snd (lua f)) fs
            else Inl Assert_fail))"

definition passFilts :: "c_float \<Rightarrow> (f_t \<Rightarrow> bool \<times> bool) \<Rightarrow> (int \<Rightarrow> aobj c_res) \<Rightarrow> int \<Rightarrow> f_t list option \<Rightarrow> (bool \<times> bool) c_res" where
  "passFilts fl lua col tmatch flist =
     (case flist of None \<Rightarrow> Inr (True, False) | Some fs \<Rightarrow> passFilts_loop fl lua col tmatch True False fs)"

subsection \<open>The loops over the rows\<close>

text \<open>
  A \<^verbatim>\<open>row_op\<close> gets \<^verbatim>\<open>q->qed\<close>, the key, the row, \<^verbatim>\<open>*card\<close> and the state it writes to; it returns its result, \<^verbatim>\<open>*card\<close> and the
  state. Then \<^verbatim>\<open>pk_op_l\<close>, with the results \<^verbatim>\<open>ret\<close>, \<^verbatim>\<open>*card\<close>, \<^verbatim>\<open>*loops\<close> and \<^verbatim>\<open>*brkr\<close>.
\<close>

type_synonym ('w, 's) row_op = "bool \<Rightarrow> aobj \<Rightarrow> 'w \<Rightarrow> int \<Rightarrow> 's \<Rightarrow> (bool \<times> int \<times> 's) c_res"

definition pk_op_l :: "('w, 's) row_op \<Rightarrow> wob_t \<Rightarrow> qr_t \<Rightarrow> aobj \<Rightarrow> 'w \<Rightarrow> int \<Rightarrow> int \<Rightarrow> 's \<Rightarrow>
    (bool \<times> int \<times> int \<times> bool \<times> 's) c_res" where
  "pk_op_l p wb q apk rrow crd loops st =
     (let loops = loops + 1 in
      if q_pk_lim q \<and> \<not> q_pk_lo q \<and> ofst wb \<noteq> - 1 \<and> loops < ofst wb then Inr (True, crd, loops, False, st)
      else c_bind (p (q_qed q) apk rrow crd st) (\<lambda>(ret, crd, st).
        if q_pk_lim q \<and> lim wb = crd then Inr (True, crd, loops, True, st)
        else Inr (ret, crd, loops, False, st)))"

text \<open>\<^verbatim>\<open>singleOpPK\<close>; \<open>lkp\<close> is the lookup of a key in the table.\<close>

definition singleOpPK :: "(aobj \<Rightarrow> 'w option c_res) \<Rightarrow> ('w, 's) row_op \<Rightarrow> qr_t \<Rightarrow> aobj \<Rightarrow> 's \<Rightarrow> (int \<times> 's) c_res" where
  "singleOpPK lkp p q apk st =
     c_bind (lkp apk) (\<lambda>r. case r of
       None \<Rightarrow> Inr (0, st)
     | Some rrow \<Rightarrow> c_bind (p (q_qed q) apk rrow 0 st) (\<lambda>(ret, crd, st). Inr (if ret then crd else - 1, st)))"

text \<open>The loop of \<^verbatim>\<open>rangeOpPK\<close> over an iterator, with a bound on its turns.\<close>

fun pk_loop :: "('k \<Rightarrow> 'k \<Rightarrow> int) \<Rightarrow> ('k \<Rightarrow> ulong) \<Rightarrow> ('k \<Rightarrow> aobj) \<Rightarrow> ('k \<Rightarrow> 'w) \<Rightarrow> ('w, 's) row_op \<Rightarrow> wob_t \<Rightarrow> qr_t \<Rightarrow> bool \<Rightarrow>
    nat \<Rightarrow> 'k btSIter \<Rightarrow> int \<Rightarrow> int \<Rightarrow> 's \<Rightarrow> (int \<times> 's) c_res" where
  "pk_loop cmp num bkey erow p wb q asc 0 siter crd loops st = Inl No_return"
| "pk_loop cmp num bkey erow p wb q asc (Suc fuel) siter crd loops st =
     c_bind (btRangeNext cmp num asc siter) (\<lambda>(be, siter).
       case be of
         None \<Rightarrow> Inr (crd, st)
       | Some e \<Rightarrow>
           c_bind (pk_op_l p wb q (bkey e) (erow e) crd loops st) (\<lambda>(ret, crd, loops, brkr, st).
             if \<not> ret then Inr (- 1, st)
             else if brkr then Inr (crd, st)
             else pk_loop cmp num bkey erow p wb q asc fuel siter crd loops st))"

text \<open>
  \<^verbatim>\<open>rangeOpPK\<close>: \<^verbatim>\<open>card\<close>, \<^verbatim>\<open>WhichIter\<close> and the state. No row of a table without evicted rows is missed, so the branches for
  missed rows do nothing.
\<close>

definition rangeOpPK :: "('k \<Rightarrow> 'k \<Rightarrow> int) \<Rightarrow> ('k \<Rightarrow> ulong) \<Rightarrow> ('k \<Rightarrow> aobj) \<Rightarrow> ('k \<Rightarrow> 'w) \<Rightarrow> ('w, 's) row_op \<Rightarrow> wob_t \<Rightarrow> qr_t \<Rightarrow>
    nat \<Rightarrow> 'k bt \<Rightarrow> 'k \<Rightarrow> 'k \<Rightarrow> nat \<Rightarrow> 's \<Rightarrow> (int \<times> nat \<times> 's) c_res" where
  "rangeOpPK cmp num bkey erow p wb q fuel btr alow ahigh which st =
     (let asc = (\<not> q_pk_desc q) in
      c_bind (if q_xth q then btGetXthIter cmp num fuel which btr alow ahigh (ofst wb) asc
              else btGetRangeIter cmp num which btr alow ahigh asc) (\<lambda>(which, bi).
        case bi of
          None \<Rightarrow> Inr (0, which, st)
        | Some siter \<Rightarrow>
            if siter_empty siter then Inr (0, btReleaseRangeIterator which bi, st)
            else c_bind (pk_loop cmp num bkey erow p wb q asc fuel siter 0 (- 1) st) (\<lambda>(crd, st).
              Inr (crd, btReleaseRangeIterator which bi, st))))"

fun in_loop :: "(aobj \<Rightarrow> 'w option c_res) \<Rightarrow> ('w, 's) row_op \<Rightarrow> wob_t \<Rightarrow> qr_t \<Rightarrow> aobj list \<Rightarrow> int \<Rightarrow> int \<Rightarrow> 's \<Rightarrow> (int \<times> 's) c_res" where
  "in_loop lkp p wb q [] crd loops st = Inr (crd, st)"
| "in_loop lkp p wb q (apk # inl) crd loops st =
     c_bind (lkp apk) (\<lambda>r. case r of
       None \<Rightarrow> in_loop lkp p wb q inl crd loops st
     | Some rrow \<Rightarrow>
         c_bind (pk_op_l p wb q apk rrow crd loops st) (\<lambda>(ret, crd, loops, brkr, st).
           if \<not> ret then Inr (- 1, st)
           else if brkr then Inr (crd, st)
           else in_loop lkp p wb q inl crd loops st))"

definition inOpPK :: "(aobj \<Rightarrow> 'w option c_res) \<Rightarrow> ('w, 's) row_op \<Rightarrow> wob_t \<Rightarrow> qr_t \<Rightarrow> aobj list \<Rightarrow> 's \<Rightarrow> (int \<times> 's) c_res" where
  "inOpPK lkp p wb q inl st = in_loop lkp p wb q inl 0 (- 1) st"

subsection \<open>SELECT\<close>

text \<open>
  The state of a SELECT: the rows sent, the queue and \<^verbatim>\<open>server.alc.CurrUpdated\<close>. \<open>pf\<close> is \<^verbatim>\<open>passFilts\<close>, \<open>out\<close> is \<^verbatim>\<open>outputRow\<close> and \<open>addq\<close>
  is \<^verbatim>\<open>addRow2OBList\<close> on the columns and the table of the query. Outside the embedded form \<^verbatim>\<open>addReplyRow\<close> returns 1.
\<close>

record sel_st =
  rs_reply :: "byte list list"
  rs_ll :: "byte list obsl_t list"
  rs_updated :: nat

definition select_op :: "(aobj \<Rightarrow> 'w \<Rightarrow> (bool \<times> bool) c_res) \<Rightarrow> (aobj \<Rightarrow> 'w \<Rightarrow> orow_res c_res) \<Rightarrow>
    (aobj \<Rightarrow> 'w \<Rightarrow> byte list \<Rightarrow> byte list obsl_t list \<Rightarrow> byte list obsl_t list option c_res) \<Rightarrow> bool \<Rightarrow> ('w, sel_st) row_op" where
  "select_op pf out addq cstar q apk rrow crd st =
     c_bind (pf apk rrow) (\<lambda>(ret, hf).
       if hf then Inr (False, crd, st)
       else if \<not> ret then Inr (True, crd, st)
       else if cstar then Inr (True, crd + 1, st)
       else c_bind (out apk rrow) (\<lambda>r. case r of
         OR_ALLB_OK \<Rightarrow> Inr (True, crd, st\<lparr>rs_updated := rs_updated st + 1\<rparr>)
       | OR_ALLB_NO \<Rightarrow> Inr (True, crd, st)
       | OR_LUA_FAIL \<Rightarrow> Inr (False, crd, st)
       | OR_ROW b \<Rightarrow>
           if q then c_bind (addq apk rrow b (rs_ll st)) (\<lambda>ll. case ll of
             None \<Rightarrow> Inr (False, crd, st)
           | Some ll \<Rightarrow> Inr (True, crd + 1, st\<lparr>rs_ll := ll\<rparr>))
           else Inr (True, crd + 1, st\<lparr>rs_reply := rs_reply st @ [b]\<rparr>)))"

text \<open>
  What the client gets: the error, a number, or the announced number of rows with the rows. \<^verbatim>\<open>select_reply\<close> is
  \<^verbatim>\<open>iselectAction\<close> after the scan.
\<close>

datatype sel_reply = Reply_error | Reply_count int | Reply_rows int "byte list list"

definition select_reply :: "byte list obsl_t c_sort \<Rightarrow> c_float \<Rightarrow> (coltype \<times> bool) list \<Rightarrow> wob_t \<Rightarrow> qr_t \<Rightarrow> bool \<Rightarrow> int \<Rightarrow> sel_st \<Rightarrow>
    sel_reply c_res" where
  "select_reply qs fl obs wb q cstar crd st =
     (if crd = - 1 then Inr Reply_error
      else c_bind (if crd \<noteq> 0 \<and> q_qed q
                   then c_bind (opSelectSort qs fl obs wb (rs_ll st)) (\<lambda>v. Inr (int (length v), rs_reply st @ v))
                   else Inr (crd, rs_reply st)) (\<lambda>(sent, rows).
        if crd = 0 \<and> rs_updated st \<noteq> 0 then Inr (Reply_rows (int (rs_updated st)) rows)
        else let crd = (if lim wb \<noteq> - 1 \<and> sent < crd then sent else crd) in
          Inr (if cstar then Reply_count crd else Reply_rows crd rows)))"

text \<open>\<^verbatim>\<open>iselectAction\<close> for a range of the primary key and for an IN list on it.\<close>

definition iselectAction_range :: "byte list obsl_t c_sort \<Rightarrow> c_float \<Rightarrow> r_tbl \<Rightarrow> ('k \<Rightarrow> 'k \<Rightarrow> int) \<Rightarrow> ('k \<Rightarrow> ulong) \<Rightarrow> ('k \<Rightarrow> aobj) \<Rightarrow> ('k \<Rightarrow> 'w) \<Rightarrow>
    (aobj \<Rightarrow> 'w \<Rightarrow> (bool \<times> bool) c_res) \<Rightarrow> (aobj \<Rightarrow> 'w \<Rightarrow> orow_res c_res) \<Rightarrow>
    (aobj \<Rightarrow> 'w \<Rightarrow> byte list \<Rightarrow> byte list obsl_t list \<Rightarrow> byte list obsl_t list option c_res) \<Rightarrow>
    bool \<Rightarrow> r_ind \<Rightarrow> bool \<Rightarrow> wob_t \<Rightarrow> nat \<Rightarrow> 'k bt \<Rightarrow> 'k \<Rightarrow> 'k \<Rightarrow> nat \<Rightarrow> (sel_reply \<times> nat) c_res" where
  "iselectAction_range qs fl rt cmp num bkey erow pf out addq cstar ri flist wb fuel btr alow ahigh which =
     c_bind (setQueued False (Some ri) False flist wb) (\<lambda>q.
     c_bind (initOBsort rt (q_qed q) wb False) (\<lambda>(obs, ll :: byte list obsl_t list option).
     c_bind (rangeOpPK cmp num bkey erow (select_op pf out addq cstar) wb q fuel btr alow ahigh which
               \<lparr>rs_reply = [], rs_ll = [], rs_updated = 0\<rparr>) (\<lambda>(crd, which, st).
     c_bind (select_reply qs fl obs wb q cstar crd st) (\<lambda>r. Inr (r, which)))))"

definition iselectAction_in :: "byte list obsl_t c_sort \<Rightarrow> c_float \<Rightarrow> r_tbl \<Rightarrow> (aobj \<Rightarrow> 'w option c_res) \<Rightarrow>
    (aobj \<Rightarrow> 'w \<Rightarrow> (bool \<times> bool) c_res) \<Rightarrow> (aobj \<Rightarrow> 'w \<Rightarrow> orow_res c_res) \<Rightarrow>
    (aobj \<Rightarrow> 'w \<Rightarrow> byte list \<Rightarrow> byte list obsl_t list \<Rightarrow> byte list obsl_t list option c_res) \<Rightarrow>
    bool \<Rightarrow> r_ind \<Rightarrow> bool \<Rightarrow> wob_t \<Rightarrow> aobj list \<Rightarrow> sel_reply c_res" where
  "iselectAction_in qs fl rt lkp pf out addq cstar ri flist wb inl =
     c_bind (setQueued True (Some ri) False flist wb) (\<lambda>q.
     c_bind (initOBsort rt (q_qed q) wb False) (\<lambda>(obs, ll :: byte list obsl_t list option).
     c_bind (inOpPK lkp (select_op pf out addq cstar) wb q inl \<lparr>rs_reply = [], rs_ll = [], rs_updated = 0\<rparr>) (\<lambda>(crd, st).
       select_reply qs fl obs wb q cstar crd st)))"

subsection \<open>DELETE and UPDATE\<close>

text \<open>
  \<^verbatim>\<open>dellist_op\<close> and \<^verbatim>\<open>update_op\<close> collect keys: in the plain list, which an ascending DELETE builds backwards, or in the
  queue.
\<close>

record key_st =
  ks_ll :: "aobj list"
  ks_q :: "aobj obsl_t list"

definition collect_op :: "bool \<Rightarrow> (aobj \<Rightarrow> 'w \<Rightarrow> (bool \<times> bool) c_res) \<Rightarrow>
    (aobj \<Rightarrow> 'w \<Rightarrow> aobj \<Rightarrow> aobj obsl_t list \<Rightarrow> aobj obsl_t list option c_res) \<Rightarrow> ('w, key_st) row_op" where
  "collect_op to_head pf addq q apk rrow crd st =
     c_bind (pf apk rrow) (\<lambda>(ret, hf).
       if hf then Inr (False, crd, st)
       else if \<not> ret then Inr (True, crd, st)
       else if q then c_bind (addq apk rrow apk (ks_q st)) (\<lambda>ll. case ll of
           None \<Rightarrow> Inr (False, crd, st)
         | Some ll \<Rightarrow> Inr (True, crd + 1, st\<lparr>ks_q := ll\<rparr>))
       else let cln = aobjClone apk in
         Inr (True, crd + 1, st\<lparr>ks_ll := if to_head then cln # ks_ll st else ks_ll st @ [cln]\<rparr>))"

definition dellist_op :: "bool \<Rightarrow> (aobj \<Rightarrow> 'w \<Rightarrow> (bool \<times> bool) c_res) \<Rightarrow>
    (aobj \<Rightarrow> 'w \<Rightarrow> aobj \<Rightarrow> aobj obsl_t list \<Rightarrow> aobj obsl_t list option c_res) \<Rightarrow> ('w, key_st) row_op" where
  "dellist_op asc = collect_op asc"

definition update_op :: "(aobj \<Rightarrow> 'w \<Rightarrow> (bool \<times> bool) c_res) \<Rightarrow>
    (aobj \<Rightarrow> 'w \<Rightarrow> aobj \<Rightarrow> aobj obsl_t list \<Rightarrow> aobj obsl_t list option c_res) \<Rightarrow> ('w, key_st) row_op" where
  "update_op = collect_op False"

text \<open>
  Deleting: \<open>del\<close> is \<^verbatim>\<open>deleteRow\<close> on the database state, which tells whether the row was there. \<^verbatim>\<open>opDeleteSort\<close> walks the
  sorted vector from its end and counts only the deleted rows; the plain list is deleted from its head.
\<close>

fun delete_sorted :: "(aobj \<Rightarrow> 'd \<Rightarrow> (bool \<times> 'd) c_res) \<Rightarrow> int \<Rightarrow> int \<Rightarrow> int \<Rightarrow> aobj list \<Rightarrow> 'd \<Rightarrow> (int \<times> 'd) c_res" where
  "delete_sorted del lm os sent [] db = Inr (sent, db)"
| "delete_sorted del lm os sent (k # ks) db =
     (if lm \<noteq> - 1 \<and> sent = lm then Inr (sent, db)
      else if os > 0 then delete_sorted del lm (os - 1) sent ks db
      else c_bind (del k db) (\<lambda>(one, db). delete_sorted del lm os (if one then sent + 1 else sent) ks db))"

definition opDeleteSort :: "aobj obsl_t c_sort \<Rightarrow> c_float \<Rightarrow> (coltype \<times> bool) list \<Rightarrow> wob_t \<Rightarrow> aobj obsl_t list \<Rightarrow>
    (aobj \<Rightarrow> 'd \<Rightarrow> (bool \<times> 'd) c_res) \<Rightarrow> 'd \<Rightarrow> (int \<times> 'd) c_res" where
  "opDeleteSort qs fl obs wb ll del db =
     c_bind (sortOB2Vector qs fl obs ll) (\<lambda>v. delete_sorted del (lim wb) (ofst wb) 0 (map ob_row (rev v)) db)"

fun delete_list :: "(aobj \<Rightarrow> 'd \<Rightarrow> (bool \<times> 'd) c_res) \<Rightarrow> int \<Rightarrow> aobj list \<Rightarrow> 'd \<Rightarrow> (int \<times> 'd) c_res" where
  "delete_list del sent [] db = Inr (sent, db)"
| "delete_list del sent (k # ks) db =
     c_bind (del k db) (\<lambda>(one, db). delete_list del (if one then sent + 1 else sent) ks db)"

text \<open>\<^verbatim>\<open>ideleteAction\<close> for a range of the primary key: the number replied, \<open>None\<close> after an error, and the database.\<close>

definition ideleteAction :: "aobj obsl_t c_sort \<Rightarrow> c_float \<Rightarrow> r_tbl \<Rightarrow> ('k \<Rightarrow> 'k \<Rightarrow> int) \<Rightarrow> ('k \<Rightarrow> ulong) \<Rightarrow> ('k \<Rightarrow> aobj) \<Rightarrow> ('k \<Rightarrow> 'w) \<Rightarrow>
    (aobj \<Rightarrow> 'w \<Rightarrow> (bool \<times> bool) c_res) \<Rightarrow>
    (aobj \<Rightarrow> 'w \<Rightarrow> aobj \<Rightarrow> aobj obsl_t list \<Rightarrow> aobj obsl_t list option c_res) \<Rightarrow> (aobj \<Rightarrow> 'd \<Rightarrow> (bool \<times> 'd) c_res) \<Rightarrow>
    r_ind \<Rightarrow> bool \<Rightarrow> wob_t \<Rightarrow> nat \<Rightarrow> 'k bt \<Rightarrow> 'k \<Rightarrow> 'k \<Rightarrow> nat \<Rightarrow> 'd \<Rightarrow> (int option \<times> 'd) c_res" where
  "ideleteAction qs fl rt cmp num bkey erow pf addq del ri flist wb fuel btr alow ahigh which db =
     c_bind (setQueued False (Some ri) False flist wb) (\<lambda>q.
     c_bind (initOBsort rt (q_qed q) wb True) (\<lambda>(obs, ll :: aobj obsl_t list option).
     c_bind (rangeOpPK cmp num bkey erow (dellist_op (\<not> q_pk_desc q) pf addq) wb q fuel btr alow ahigh which
               \<lparr>ks_ll = [], ks_q = []\<rparr>) (\<lambda>(crd, which, st).
       if crd = 0 then Inr (Some 0, db)
       else if crd < 0 then Inr (None, db)
       else c_bind (if q_qed q then opDeleteSort qs fl obs wb (ks_q st) del db else delete_list del 0 (ks_ll st) db) (\<lambda>(sent, db).
         Inr (Some (if sent < crd then sent else crd), db)))))"

subsection \<open>The loop as a pass over a list\<close>

fun pk_list :: "('k \<Rightarrow> aobj) \<Rightarrow> ('k \<Rightarrow> 'w) \<Rightarrow> ('w, 's) row_op \<Rightarrow> wob_t \<Rightarrow> qr_t \<Rightarrow> 'k list \<Rightarrow> int \<Rightarrow> int \<Rightarrow> 's \<Rightarrow> (int \<times> 's) c_res" where
  "pk_list bkey erow p wb q [] crd loops st = Inr (crd, st)"
| "pk_list bkey erow p wb q (e # es) crd loops st =
     c_bind (pk_op_l p wb q (bkey e) (erow e) crd loops st) (\<lambda>(ret, crd, loops, brkr, st).
       if \<not> ret then Inr (- 1, st)
       else if brkr then Inr (crd, st)
       else pk_list bkey erow p wb q es crd loops st)"

lemma pk_loop_list:
  "range_loop cmp num asc fuel si = Inr (Some es) \<Longrightarrow>
   pk_loop cmp num bkey erow p wb q asc fuel si crd loops st = pk_list bkey erow p wb q es crd loops st"
proof (induction fuel arbitrary: si es crd loops st)
  case 0
  then show ?case by simp
next
  case (Suc fuel)
  obtain be si' where n: "btRangeNext cmp num asc si = Inr (be, si')"
    using Suc.prems by (cases "btRangeNext cmp num asc si") auto
  show ?case
  proof (cases be)
    case None
    with Suc.prems n show ?thesis by simp
  next
    case (Some e)
    with Suc.prems n obtain es' where es: "range_loop cmp num asc fuel si' = Inr (Some es')" "es = e # es'"
      by (auto simp: c_bind_Inr_iff)
    show ?thesis
      using n Some Suc.IH [OF es(1)] by (auto simp: es(2) c_bind_def split: sum.split)
  qed
qed

text \<open>The rows that LIMIT and OFFSET leave when the loop itself counts them.\<close>

definition loop_rows :: "wob_t \<Rightarrow> qr_t \<Rightarrow> int \<Rightarrow> int \<Rightarrow> ('k \<Rightarrow> bool) \<Rightarrow> 'k list \<Rightarrow> 'k list" where
  "loop_rows wb q crd loops P es =
     (let ys = filter P (if q_pk_lim q \<and> \<not> q_pk_lo q \<and> ofst wb \<noteq> - 1 then drop (nat (ofst wb - (loops + 1))) es else es)
      in if q_pk_lim q then take (nat (lim wb - crd)) ys else ys)"

text \<open>
  A row operation that skips the rows without \<open>P\<close> and otherwise counts the row and changes the state by \<open>upd\<close>.
\<close>

definition counts :: "('w, 's) row_op \<Rightarrow> bool \<Rightarrow> ('k \<Rightarrow> aobj) \<Rightarrow> ('k \<Rightarrow> 'w) \<Rightarrow> ('k \<Rightarrow> bool) \<Rightarrow> ('k \<Rightarrow> 's \<Rightarrow> 's) \<Rightarrow> 'k \<Rightarrow> bool" where
  "counts p qd bkey erow P upd e \<longleftrightarrow>
     (\<forall>crd st. p qd (bkey e) (erow e) crd st = Inr (if P e then (True, crd + 1, upd e st) else (True, crd, st)))"

lemma pk_list_counts:
  assumes "\<forall>e \<in> set es. counts p (q_qed q) bkey erow P upd e" "q_pk_lim q \<longrightarrow> crd < lim wb" "0 \<le> crd"
  shows "pk_list bkey erow p wb q es crd loops st =
     (let ys = loop_rows wb q crd loops P es in Inr (crd + int (length ys), fold upd ys st))"
  using assms
proof (induction es arbitrary: crd loops st)
  case Nil
  then show ?case by (simp add: loop_rows_def)
next
  case (Cons e es)
  have p: "p (q_qed q) (bkey e) (erow e) crd st = Inr (if P e then (True, crd + 1, upd e st) else (True, crd, st))"
    using Cons.prems(1) by (simp add: counts_def)
  have all: "\<forall>e \<in> set es. counts p (q_qed q) bkey erow P upd e" using Cons.prems(1) by simp
  show ?case
  proof (cases "q_pk_lim q \<and> \<not> q_pk_lo q \<and> ofst wb \<noteq> - 1 \<and> loops + 1 < ofst wb")
    case True
    then have "nat (ofst wb - (loops + 1)) = Suc (nat (ofst wb - (loops + 1 + 1)))" by linarith
    then have "loop_rows wb q crd loops P (e # es) = loop_rows wb q crd (loops + 1) P es"
      using True by (simp add: loop_rows_def)
    with True Cons.IH [OF all Cons.prems(2,3), of "loops + 1" st] show ?thesis by (simp add: pk_op_l_def)
  next
    case False
    then have sk: "q_pk_lim q \<and> \<not> q_pk_lo q \<and> ofst wb \<noteq> - 1 \<Longrightarrow> nat (ofst wb - (loops + 1)) = 0 \<and> nat (ofst wb - (loops + 1 + 1)) = 0"
      by auto
    have rows: "loop_rows wb q c l P es' = (if q_pk_lim q then take (nat (lim wb - c)) (filter P es') else filter P es')"
      if "l = loops \<or> l = loops + 1" for c l es' using that sk by (auto simp: loop_rows_def)
    show ?thesis
    proof (cases "P e")
      case np: False
      have "pk_list bkey erow p wb q (e # es) crd loops st = pk_list bkey erow p wb q es crd (loops + 1) st"
        using False p np Cons.prems(2) by (auto simp: pk_op_l_def Let_def)
      with Cons.IH [OF all Cons.prems(2,3), of "loops + 1" st] np show ?thesis by (simp add: rows)
    next
      case pe: True
      show ?thesis
      proof (cases "q_pk_lim q \<and> lim wb = crd + 1")
        case True
        with False p pe show ?thesis by (auto simp: pk_op_l_def rows Let_def)
      next
        case lt: False
        have "pk_list bkey erow p wb q (e # es) crd loops st = pk_list bkey erow p wb q es (crd + 1) (loops + 1) (upd e st)"
          using False p pe lt by (auto simp: pk_op_l_def Let_def)
        moreover have "q_pk_lim q \<longrightarrow> crd + 1 < lim wb" using lt Cons.prems(2) by auto
        moreover have "q_pk_lim q \<Longrightarrow> nat (lim wb - crd) = Suc (nat (lim wb - (crd + 1)))" using Cons.prems(2) by simp
        ultimately show ?thesis
          using Cons.IH [OF all, of "crd + 1" "loops + 1" "upd e st"] Cons.prems(3) pe by (auto simp: rows Let_def)
      qed
    qed
  qed
qed

subsection \<open>The range as a set of rows\<close>

lemma sorted_from: "sorted_by ord es \<Longrightarrow> dropWhile (\<lambda>e. ord e < k) es = filter (\<lambda>e. k \<le> ord e) es"
proof (induction es)
  case Nil
  then show ?case by simp
next
  case (Cons e es)
  have "filter (\<lambda>e. k \<le> ord e) es = es" if "k \<le> ord e"
    using Cons.prems that by (auto simp: sorted_by_def filter_id_conv)
  with Cons show ?case by (auto simp: sorted_by_def not_less)
qed

lemma sorted_upto: "sorted_by ord es \<Longrightarrow> takeWhile (\<lambda>e. ord e \<le> k) (drop n es) = drop n (filter (\<lambda>e. ord e \<le> k) es)"
proof (induction es arbitrary: n)
  case Nil
  then show ?case by simp
next
  case (Cons e es)
  have rest: "filter (\<lambda>e. ord e \<le> k) es = []" if "\<not> ord e \<le> k"
    using Cons.prems that by (auto simp: sorted_by_def filter_empty_conv)
  have s: "sorted_by ord es" using Cons.prems by (simp add: sorted_by_def)
  show ?case
    using Cons.IH [OF s, of "n - 1"] Cons.IH [OF s, of 0] rest by (cases n) auto
qed

definition in_range :: "('k \<Rightarrow> 'o::linorder) \<Rightarrow> 'k \<Rightarrow> 'k \<Rightarrow> 'k \<Rightarrow> bool" where
  "in_range ord low high e \<longleftrightarrow> ord low \<le> ord e \<and> ord e \<le> ord high"

lemma sorted_range:
  assumes "sorted_by ord es"
  shows "takeWhile (\<lambda>e. ord e \<le> ord high) (drop n (dropWhile (\<lambda>e. ord e < ord low) es)) = drop n (filter (in_range ord low high) es)"
proof -
  have "sorted_by ord (filter (\<lambda>e. ord low \<le> ord e) es)"
    using assms by (simp add: sorted_by_def sorted_wrt_filter)
  moreover have "in_range ord low high = (\<lambda>e. ord low \<le> ord e \<and> ord e \<le> ord high)"
    by (auto simp: in_range_def)
  ultimately show ?thesis
    using sorted_upto [of ord "filter (\<lambda>e. ord low \<le> ord e) es" "ord high" n] by (simp add: sorted_from [OF assms])
qed

subsection \<open>The scan\<close>

lemma num_le: "(\<And>a b. num a < num b \<longleftrightarrow> ord a < ord b) \<Longrightarrow> num a \<le> num b \<longleftrightarrow> ord a \<le> ord b"
  for num :: "'k \<Rightarrow> 'n::linorder" and ord :: "'k \<Rightarrow> 'o::linorder"
  by (meson linorder_not_le)

lemma pk_loop_or_empty:
  assumes "range_loop cmp num asc fuel s = Inr (Some es)"
  shows "(if siter_empty s then Inr (0, w, st)
     else c_bind (pk_loop cmp num bkey erow p wb q asc fuel s 0 (- 1) st) (\<lambda>(crd, st). Inr (crd, w, st))) =
    c_bind (pk_list bkey erow p wb q es 0 (- 1) st) (\<lambda>(crd, st). Inr (crd, w, st))"
proof (cases "siter_empty s")
  case True
  with assms have "es = []" by (cases fuel) (simp_all add: btRangeNext_def)
  with True show ?thesis by simp
next
  case False
  then show ?thesis by (simp add: pk_loop_list [OF assms])
qed

context bt_order
begin

text \<open>\<^verbatim>\<open>rangeOpPK\<close> is a pass over the rows of the range, without the first ones when the iterator has skipped them.\<close>

lemma rangeOpPK_list:
  fixes low high :: 'e
  assumes wf: "bt_wf ord b" and num: "\<And>a b. num a < num b \<longleftrightarrow> ord a < ord b"
    and which: "which < MAX_NUM_ITERS" and fuel: "length (inorder (bt_root b)) < fuel"
    and q: "\<not> q_pk_desc q" "q_xth q \<Longrightarrow> 0 \<le> ofst wb"
  shows "\<exists>w. rangeOpPK cmp num bkey erow p wb q fuel b low high which st =
     c_bind (pk_list bkey erow p wb q (drop (if q_xth q then nat (ofst wb) else 0) (filter (in_range ord low high) (inorder (bt_root b)))) 0 (- 1) st)
       (\<lambda>(crd, st). Inr (crd, w, st))"
proof -
  let ?ys = "dropWhile (\<lambda>e. ord e < ord low) (inorder (bt_root b))"
  let ?es = "\<lambda>n. drop n (filter (in_range ord low high) (inorder (bt_root b)))"
  have srt: "sorted_by ord (inorder (bt_root b))" using wf by (simp add: bt_wf_def)
  have f: "length ?ys < fuel" using fuel length_dropWhile_le [of "\<lambda>e. ord e < ord low" "inorder (bt_root b)"] by linarith
  have es: "takeWhile (\<lambda>e. num e \<le> num high) (drop n ?ys) = ?es n" for n
    unfolding num_le [of num ord, OF num] by (rule sorted_range [OF srt])
  show ?thesis
  proof (cases "q_xth q \<and> inorder (bt_root b) \<noteq> []")
    case True
    then obtain s where "btGetXthIter cmp num fuel which b low high (ofst wb) True = Inr (which + 1, Some s)"
      "range_loop cmp num True fuel s = Inr (Some (?es (nat (ofst wb))))"
      using bt_xth_asc [OF wf num which _ _ fuel, of "ofst wb" low high] q(2) f es by auto
    with True q(1) show ?thesis
      by (auto simp: rangeOpPK_def Let_def pk_loop_or_empty)
  next
    case nx: False
    show ?thesis
    proof (cases "inorder (bt_root b) = []")
      case True
      then have "bt_numkeys b = 0" using wf by (simp add: bt_wf_def)
      with True q(1) show ?thesis by (simp add: rangeOpPK_def btGetXthIter_def btGetRangeIter_def)
    next
      case False
      obtain w si where "btGetRangeIter cmp num which b low high True = Inr (w, si)"
        "case si of None \<Rightarrow> ?ys = [] | Some s \<Rightarrow> range_loop cmp num True fuel s = Inr (Some (?es 0))"
        using bt_range_asc [OF wf num which, of low high] f es [of 0] by (auto split: option.splits)
      moreover have "filter (in_range ord low high) (inorder (bt_root b)) = []" if "?ys = []"
        using es [of 0] that by (simp only: that) simp
      ultimately show ?thesis
        using False nx q(1) by (cases si) (auto simp: rangeOpPK_def Let_def pk_loop_or_empty)
    qed
  qed
qed

end

subsection \<open>SELECT on a range\<close>

text \<open>
  The result is in the order of the primary key: no ORDER BY, or ORDER BY the primary key, ascending. Then nothing is
  queued, LIMIT is checked in the loop, and OFFSET is left to the iterator.
\<close>

definition pk_ordered :: "r_ind \<Rightarrow> wob_t \<Rightarrow> bool" where
  "pk_ordered ri wb \<longleftrightarrow> ri_virt ri \<and> cmatch (ri_obc ri) = - 1 \<and>
     (case wb_cols wb of [] \<Rightarrow> True | [c] \<Rightarrow> ob_asc c \<and> \<not> icol_cmp (obc c) (DECLARE_ICOL 0) | _ \<Rightarrow> False)"

text \<open>LIMIT and OFFSET as the code handles them: a positive LIMIT or none, and OFFSET only with LIMIT and without filters.\<close>

definition plain_limits :: "bool \<Rightarrow> wob_t \<Rightarrow> bool" where
  "plain_limits flist wb \<longleftrightarrow> lim wb = - 1 \<and> ofst wb = - 1 \<or> 0 < lim wb \<and> (ofst wb = - 1 \<or> \<not> flist \<and> 0 \<le> ofst wb)"

lemma setQueued_ordered:
  assumes "pk_ordered ri wb"
  shows "setQueued False (Some ri) single_fk flist wb =
     Inr \<lparr>q_pk = False, q_pk_lim = lim wb \<noteq> - 1, q_pk_lo = lim wb \<noteq> - 1 \<and> ofst wb \<noteq> - 1, q_pk_desc = False, q_fk = False,
          q_fk_lim = False, q_fk_lo = False, q_fk_desc = False, q_inr_desc = False,
          q_xth = lim wb \<noteq> - 1 \<and> ofst wb \<noteq> - 1 \<and> \<not> flist, q_qed = False\<rparr>"
  using assms by (auto simp: pk_ordered_def setQueued_def setRangeQueued_def Let_def split: list.splits)

lemma loop_rows_0:
  "q_pk_lo q = (q_pk_lim q \<and> ofst wb \<noteq> - 1) \<Longrightarrow>
   loop_rows wb q 0 (- 1) P es = (if q_pk_lim q then take (nat (lim wb)) (filter P es) else filter P es)"
  by (simp add: loop_rows_def)

text \<open>The rows of the range that \<open>P\<close> keeps, from the one OFFSET names and as many as LIMIT allows.\<close>

definition query_rows :: "('k \<Rightarrow> 'o::linorder) \<Rightarrow> ('k \<Rightarrow> bool) \<Rightarrow> wob_t \<Rightarrow> 'k bt \<Rightarrow> 'k \<Rightarrow> 'k \<Rightarrow> 'k list" where
  "query_rows ord P wb b low high = slice (lim wb) (ofst wb) (filter (\<lambda>e. in_range ord low high e \<and> P e) (inorder (bt_root b)))"

context bt_order
begin

lemma rangeOpPK_rows:
  fixes low high :: 'e
  assumes wf: "bt_wf ord b" and num: "\<And>a b. num a < num b \<longleftrightarrow> ord a < ord b"
    and which: "which < MAX_NUM_ITERS" and fuel: "length (inorder (bt_root b)) < fuel"
    and q: "setQueued False (Some ri) single_fk flist wb = Inr q" "pk_ordered ri wb" "plain_limits flist wb"
    and p: "\<And>e. e \<in> set (inorder (bt_root b)) \<Longrightarrow> counts p False bkey erow P upd e"
    and all: "\<And>e. e \<in> set (inorder (bt_root b)) \<Longrightarrow> \<not> flist \<Longrightarrow> P e"
  shows "\<exists>w. rangeOpPK cmp num bkey erow p wb q fuel b low high which st =
     (let es = query_rows ord P wb b low high in Inr (int (length es), w, fold upd es st))"
proof -
  let ?es = "filter (in_range ord low high) (inorder (bt_root b))"
  let ?n = "if q_xth q then nat (ofst wb) else 0"
  note qd = q(1) [unfolded setQueued_ordered [OF q(2)], simplified, symmetric]
  obtain w where w: "rangeOpPK cmp num bkey erow p wb q fuel b low high which st =
     c_bind (pk_list bkey erow p wb q (drop ?n ?es) 0 (- 1) st) (\<lambda>(crd, st). Inr (crd, w, st))"
    using rangeOpPK_list [OF wf num which fuel, of q wb bkey erow p low high st] q(3)
    by (auto simp: qd plain_limits_def)
  have "\<forall>e \<in> set (drop ?n ?es). counts p (q_qed q) bkey erow P upd e"
    using p by (auto simp: qd dest!: in_set_dropD)
  moreover have "q_pk_lim q \<longrightarrow> 0 < lim wb" using q(3) by (auto simp: qd plain_limits_def)
  ultimately have run: "pk_list bkey erow p wb q (drop ?n ?es) 0 (- 1) st =
      (let ys = loop_rows wb q 0 (- 1) P (drop ?n ?es) in Inr (0 + int (length ys), fold upd ys st))"
    by (intro pk_list_counts) simp_all
  have flt: "filter P (drop n ?es) = drop n (filter P ?es)" if "\<not> flist \<or> n = 0" for n
  proof -
    have f: "filter P xs = xs" if "set xs \<subseteq> set (inorder (bt_root b))" "\<not> flist" for xs
      using all that by (auto simp: filter_id_conv)
    have "set (drop n ?es) \<subseteq> set (inorder (bt_root b))" "set ?es \<subseteq> set (inorder (bt_root b))"
      by (auto dest!: in_set_dropD)
    then have "filter P (drop n ?es) = drop n ?es \<and> filter P ?es = ?es" if "\<not> flist"
      using f that by blast
    with that show ?thesis by (cases "n = 0") (simp_all del: filter_filter)
  qed
  have "filter (\<lambda>e. in_range ord low high e \<and> P e) (inorder (bt_root b)) = filter P ?es"
    by (simp add: conj_commute)
  then have "loop_rows wb q 0 (- 1) P (drop ?n ?es) = query_rows ord P wb b low high"
    using q(3) flt [of ?n] by (auto simp: loop_rows_0 qd query_rows_def slice_def plain_limits_def)
  with w run show ?thesis by (auto simp: Let_def)
qed

end

lemma select_op_counts:
  assumes "pf (bkey e) (erow e) = Inr (P e, False)" "out (bkey e) (erow e) = Inr (OR_ROW (R e))"
  shows "counts (select_op pf out addq cstar) False bkey erow P
     (\<lambda>e st. if cstar then st else st\<lparr>rs_reply := rs_reply st @ [R e]\<rparr>) e"
  using assms by (simp add: counts_def select_op_def)

lemma fold_replies:
  "fold (\<lambda>e st. if cstar then st else st\<lparr>rs_reply := rs_reply st @ [R e]\<rparr>) es st =
     (if cstar then st else st\<lparr>rs_reply := rs_reply st @ map R es\<rparr>)"
  by (induction es arbitrary: st) auto



subsection \<open>Filters\<close>

text \<open>What a filter says of a LONG value.\<close>

definition long_holds :: "f_t \<Rightarrow> ulong \<Rightarrow> bool" where
  "long_holds f v = (case f_inl f of
       Some l \<Rightarrow> v \<in> a_l ` set l
     | None \<Rightarrow>
         if a_type (f_alow f) \<noteq> COL_TYPE_NONE then a_l (f_alow f) \<le> v \<and> v \<le> a_l (f_ahigh f)
         else (case f_op f of
             OP_EQ \<Rightarrow> v = a_l (f_akey f) | OP_NE \<Rightarrow> v \<noteq> a_l (f_akey f) | OP_GT \<Rightarrow> v > a_l (f_akey f)
           | OP_GE \<Rightarrow> v \<ge> a_l (f_akey f) | OP_LT \<Rightarrow> v < a_l (f_akey f) | OP_LE \<Rightarrow> v \<le> a_l (f_akey f)
           | _ \<Rightarrow> False))"

text \<open>A filter as the WHERE clause builds it for a LONG column: an IN list that is not empty, a range, or a comparison.\<close>

definition long_filter :: "f_t \<Rightarrow> bool" where
  "long_filter f = (case f_inl f of
       Some l \<Rightarrow> l \<noteq> [] \<and> (\<forall>a \<in> set l. a_type a = COL_TYPE_LONG)
     | None \<Rightarrow> a_type (f_alow f) = COL_TYPE_LONG \<and> a_type (f_ahigh f) = COL_TYPE_LONG \<or>
         a_type (f_alow f) = COL_TYPE_NONE \<and> a_type (f_akey f) = COL_TYPE_LONG \<and>
         f_op f \<in> {OP_EQ, OP_NE, OP_GT, OP_GE, OP_LT, OP_LE})"

lemma long_cmp:
  assumes "a_type a = COL_TYPE_LONG"
  shows "OP_CMP fl OP_EQ a (initAobjLong v) = Inr (v = a_l a)" "OP_CMP fl OP_NE a (initAobjLong v) = Inr (v \<noteq> a_l a)"
    "OP_CMP fl OP_GT a (initAobjLong v) = Inr (v > a_l a)" "OP_CMP fl OP_GE a (initAobjLong v) = Inr (v \<ge> a_l a)"
    "OP_CMP fl OP_LT a (initAobjLong v) = Inr (v < a_l a)" "OP_CMP fl OP_LE a (initAobjLong v) = Inr (v \<le> a_l a)"
  using assms by (auto simp: OP_CMP_def aobjEQ_def aobjNE_def aobjLT_def aobjLE_def aobjGT_def aobjGE_def aobj_rel_def
      aobjCmp_def initAobjLong_def)

lemma pass_inl_long:
  "\<forall>a \<in> set l. a_type a = COL_TYPE_LONG \<Longrightarrow> l \<noteq> [] \<or> \<not> ret \<Longrightarrow> pass_inl fl (initAobjLong v) ret l = Inr (v \<in> a_l ` set l)"
  by (induction l arbitrary: ret) (auto simp: long_cmp)

lemma filter_step:
  assumes "long_filter f" "tmatch = f_tmatch f" "col (cmatch (f_ic f)) = Inr (initAobjLong v)"
  shows "passFilts_loop fl lua col tmatch True False (f # fs) =
     (if long_holds f v then passFilts_loop fl lua col tmatch True False fs else Inr (False, False))"
proof (cases "f_inl f")
  case (Some l)
  then show ?thesis using assms pass_inl_long [of l True fl v] by (auto simp: long_filter_def long_holds_def)
next
  case None
  then show ?thesis using assms by (auto simp: long_filter_def long_holds_def long_cmp)
qed

text \<open>
  C36. Filters. For filters on LONG columns, none of them a Lua function, \<^verbatim>\<open>passFilts\<close> returns whether the row satisfies
  all filters of its table (and skips those of other tables): a comparison holds between the column and the value in
  that order, although \<^verbatim>\<open>OP_CMP\<close> compares the value with the column, a range includes both ends, and an IN list holds
  when the column is in the list. It never reports a failure.
\<close>

theorem passFilts_correct:
  assumes "\<And>f. f \<in> set fs \<Longrightarrow> f_tmatch f = tmatch \<Longrightarrow> long_filter f \<and> col (cmatch (f_ic f)) = Inr (initAobjLong (v (cmatch (f_ic f))))"
  shows "passFilts fl lua col tmatch (Some fs) =
     Inr (\<forall>f \<in> set fs. f_tmatch f = tmatch \<longrightarrow> long_holds f (v (cmatch (f_ic f))), False)"
  using assms
proof (induction fs)
  case Nil
  then show ?case by (simp add: passFilts_def)
next
  case (Cons f fs)
  have ih: "passFilts_loop fl lua col tmatch True False fs = Inr (\<forall>f \<in> set fs. f_tmatch f = tmatch \<longrightarrow> long_holds f (v (cmatch (f_ic f))), False)"
    using Cons by (simp add: passFilts_def)
  show ?case
  proof (cases "f_tmatch f = tmatch")
    case True
    then have "long_filter f" "col (cmatch (f_ic f)) = Inr (initAobjLong (v (cmatch (f_ic f))))"
      using Cons.prems by simp_all
    from filter_step [where col = col, OF this(1) True [symmetric] this(2)] True ih show ?thesis by (simp add: passFilts_def del: passFilts_loop.simps)
  next
    case False
    with ih show ?thesis by (simp add: passFilts_def)
  qed
qed

definition demo_filter :: "OP \<Rightarrow> ulong \<Rightarrow> f_t" where
  "demo_filter op k = \<lparr>f_tmatch = 0, f_ic = DECLARE_ICOL 1, f_op = op, f_akey = initAobjLong k, f_alow = initAobj,
     f_ahigh = initAobj, f_inl = None\<rparr>"

theorem passFilts_correct_witness:
  "passFilts demo_float (\<lambda>_. (False, True)) (\<lambda>c. Inr (initAobjLong 9)) 0
       (Some [demo_filter OP_GT 5, (demo_filter OP_EQ 0)\<lparr>f_tmatch := 1\<rparr>, (demo_filter OP_IN 0)\<lparr>f_inl := Some [initAobjLong 7, initAobjLong 9]\<rparr>]) =
     Inr (\<forall>f \<in> set [demo_filter OP_GT 5, (demo_filter OP_EQ 0)\<lparr>f_tmatch := 1\<rparr>, (demo_filter OP_IN 0)\<lparr>f_inl := Some [initAobjLong 7, initAobjLong 9]\<rparr>].
       f_tmatch f = 0 \<longrightarrow> long_holds f 9, False)"
  by (rule passFilts_correct [where v = "\<lambda>_. 9"]) (auto simp: demo_filter_def long_filter_def initAobj_def initAobjLong_def)

subsection \<open>DELETE on a range\<close>

lemma dellist_op_counts:
  assumes "pf (bkey e) (erow e) = Inr (P e, False)"
  shows "counts (dellist_op True pf addq) False bkey erow P (\<lambda>e st. st\<lparr>ks_ll := aobjClone (bkey e) # ks_ll st\<rparr>) e"
  using assms by (simp add: counts_def dellist_op_def collect_op_def Let_def)

lemma fold_keys:
  "fold (\<lambda>e st. st\<lparr>ks_ll := f e # ks_ll st\<rparr>) es st = st\<lparr>ks_ll := rev (map f es) @ ks_ll st\<rparr>"
  by (induction es arbitrary: st) auto

lemma delete_list_keys:
  assumes "\<And>k db. k \<in> rkeys db \<Longrightarrow> \<exists>db'. del k db = Inr (True, db') \<and> rkeys db' = rkeys db - {k}"
    and "distinct ks" "set ks \<subseteq> rkeys db"
  shows "\<exists>db'. delete_list del sent ks db = Inr (sent + int (length ks), db') \<and> rkeys db' = rkeys db - set ks"
  using assms(2,3)
proof (induction ks arbitrary: sent db)
  case Nil
  then show ?case by simp
next
  case (Cons k ks)
  obtain db1 where db1: "del k db = Inr (True, db1)" "rkeys db1 = rkeys db - {k}"
    using assms(1) [of k db] Cons.prems by auto
  then have "set ks \<subseteq> rkeys db1" using Cons.prems by auto
  with Cons.IH [of db1 "sent + 1"] Cons.prems obtain db2 where
    "delete_list del (sent + 1) ks db1 = Inr (sent + 1 + int (length ks), db2)" "rkeys db2 = rkeys db1 - set ks" by auto
  with db1 show ?case by auto
qed

lemma distinct_query_rows: "bt_wf ord b \<Longrightarrow> distinct (query_rows ord P wb b low high)"
  using sorted_by_distinct [of ord "inorder (bt_root b)"] by (simp add: bt_wf_def query_rows_def slice_def)


lemma long_key_inject: "initAobjLong a = initAobjLong b \<longleftrightarrow> a = b"
proof
  assume "initAobjLong a = initAobjLong b"
  then have "a_l (initAobjLong a) = a_l (initAobjLong b)" by simp
  then show "a = b" by (simp add: initAobjLong_def)
qed simp

lemma clone_long_key [simp]: "aobjClone (initAobjLong a) = initAobjLong a"
  by (simp add: aobjClone_def initAobjLong_def initAobj_def)

definition demo_ri :: r_ind where
  "demo_ri = \<lparr>ri_virt = True, ri_icol = DECLARE_ICOL 0, ri_obc = DECLARE_ICOL (- 1), ri_bclist = []\<rparr>"

definition range_rt :: r_tbl where
  "range_rt = \<lparr>rt_col = [COL_TYPE_LONG, COL_TYPE_LONG], rt_lrud = False, rt_lruc = 0, rt_lfu = False, rt_lfuc = 0\<rparr>"

definition demo_del :: "aobj \<Rightarrow> aobj list \<Rightarrow> (bool \<times> aobj list) c_res" where
  "demo_del k db = Inr (k \<in> set db, filter (\<lambda>a. a \<noteq> k) db)"


subsection \<open>Defects\<close>

definition oby_pk_reply :: "wob_t \<Rightarrow> aobj \<Rightarrow> ulong \<Rightarrow> 'r \<Rightarrow> 'r obsl_t list \<Rightarrow> 'r obsl_t list option c_res" where
  "oby_pk_reply wb apk r row ll = addRow2OBList (\<lambda>_. None) (\<lambda>_. 0) range_rt wb (\<lambda>c. Inr (initAobjLong r)) row apk ll"

definition demo_select :: "bool \<Rightarrow> wob_t \<Rightarrow> (ulong \<Rightarrow> bool) \<Rightarrow> sel_reply c_res" where
  "demo_select flist wb P =
     c_bind (iselectAction_range c_msort demo_float range_rt ulongCmp id initAobjLong id
       (\<lambda>apk r. Inr (P r, False)) (\<lambda>apk r. Inr (OR_ROW [ucast r])) (oby_pk_reply wb) False demo_ri flist wb 13 demo_deep 3 6 0)
       (\<lambda>(r, w). Inr r)"

definition demo_select_in :: "wob_t \<Rightarrow> (ulong \<Rightarrow> bool) \<Rightarrow> ulong list \<Rightarrow> sel_reply c_res" where
  "demo_select_in wb P inl =
     iselectAction_in c_msort demo_float range_rt (\<lambda>apk. Inr (if a_l apk \<in> set (inorder (bt_root demo_deep)) then Some (a_l apk) else None))
       (\<lambda>apk r. Inr (P r, False)) (\<lambda>apk r. Inr (OR_ROW [ucast r])) (oby_pk_reply wb) False demo_ri True wb (map initAobjLong inl)"

definition demo_delete :: "wob_t \<Rightarrow> (int option \<times> ulong list) c_res" where
  "demo_delete wb =
     c_bind (ideleteAction c_msort demo_float range_rt ulongCmp id initAobjLong id
       (\<lambda>apk r. Inr (True, False)) (oby_pk_reply wb) demo_del demo_ri False wb 13 demo_deep 3 6 0
       (map initAobjLong [3, 4, 5, 6])) (\<lambda>(n, db). Inr (n, map a_l db))"

text \<open>ORDER BY the second column, which holds the number of the row.\<close>

definition oby_col :: ob_col where
  "oby_col = \<lparr>obc = DECLARE_ICOL 1, ob_asc = True, le_yes = False\<rparr>"


end
