(* ===== verification/Alc_IndexOps.thy ===== *)
theory Alc_IndexOps
  imports Alc_BT Alc_Range
begin

text \<open>
  The maintenance of secondary indexes, \<^verbatim>\<open>src/DB/index.c\<close>, and its callers in \<^verbatim>\<open>src/DB/row.c\<close>, on tables without evicted
  rows. An index is a tree from column values to the addresses of further trees, so the trees live in a heap.
\<close>

subsection \<open>The heap of trees\<close>

text \<open>Addresses are given out in order; \<^verbatim>\<open>bt_destroy\<close> takes a tree out of the heap.\<close>

record bheap =
  bh_mem :: "ulong \<Rightarrow> abt option"
  bh_next :: ulong

definition bh_get :: "bheap \<Rightarrow> ulong \<Rightarrow> abt c_res" where
  "bh_get h a = (case bh_mem h a of Some t \<Rightarrow> Inr t | None \<Rightarrow> Inl (if a = 0 then Null_deref else OOB_read))"

definition bh_put :: "ulong \<Rightarrow> abt \<Rightarrow> bheap \<Rightarrow> bheap" where
  "bh_put a t h = h\<lparr>bh_mem := (bh_mem h)(a \<mapsto> t)\<rparr>"

definition bh_new :: "abt \<Rightarrow> bheap \<Rightarrow> bheap \<times> ulong" where
  "bh_new t h = (bh_put (bh_next h) t h\<lparr>bh_next := bh_next h + 1\<rparr>, bh_next h)"

definition bt_destroy :: "ulong \<Rightarrow> bheap \<Rightarrow> bheap" where
  "bt_destroy a h = h\<lparr>bh_mem := (bh_mem h)(a := None)\<rparr>"

text \<open>
  The members of \<^verbatim>\<open>r_ind_t\<close> that index maintenance uses: \<^verbatim>\<open>btr\<close>, whether \<^verbatim>\<open>cnstr\<close> is UNIQUE, whether there is a \<^verbatim>\<open>clist\<close>,
  the kinds of index and the type of an index on a field of a Lua table.
\<close>

record ix_t = r_ind +
  ix_btr :: ulong
  ix_num :: int
  ix_uniq :: bool
  ix_clist :: bool
  ix_lru :: bool
  ix_lfu :: bool
  ix_hlt :: bool
  ix_luat :: bool
  ix_fname :: bool
  ix_dtype :: coltype

subsection \<open>Indexes on one column\<close>

text \<open>
  \<^verbatim>\<open>iAdd\<close>: the heap, and whether it has succeeded; the error reply follows a violation. \<^verbatim>\<open>iRem\<close>: \<open>gost\<close> tells that the row
  leaves a ghost.
\<close>

definition otype_of :: "aobj option \<Rightarrow> coltype" where
  "otype_of ocol = (case ocol of None \<Rightarrow> COL_TYPE_NONE | Some oc \<Rightarrow> a_type oc)"

definition iAdd :: "c_float \<Rightarrow> bool \<Rightarrow> ulong \<Rightarrow> aobj \<Rightarrow> aobj \<Rightarrow> coltype \<Rightarrow> aobj option \<Rightarrow> bheap \<Rightarrow> (bheap \<times> bool) c_res" where
  "iAdd fl uniq ib acol apk pktyp ocol h =
     c_bind (bh_get h ib) (\<lambda>ibtr.
     if uniq then
       c_bind (btFind fl ibtr acol) (\<lambda>r.
         if r \<noteq> NULL then Inr (h, False)
         else c_bind (iAddUniq fl ibtr pktyp apk acol) (\<lambda>b. Inr (bh_put ib b h, True)))
     else
       c_bind (btIndFind fl ibtr acol) (\<lambda>p. c_bind (ptr_word p) (\<lambda>nb.
       c_bind (if nb = 0 then
                 c_bind (createIndexNode pktyp (otype_of ocol)) (\<lambda>n.
                   let (h, nb) = bh_new n h in
                   c_bind (btIndAdd fl ibtr acol nb) (\<lambda>b. Inr (bh_put ib b h, nb)))
               else Inr (h, nb)) (\<lambda>(h, nb).
       c_bind (bh_get h nb) (\<lambda>nbtr.
       c_bind (btIndNodeAdd fl nbtr apk ocol) (\<lambda>(n, ok). Inr (bh_put nb n h, ok)))))))"

definition iRem :: "c_float \<Rightarrow> bool \<Rightarrow> ulong \<Rightarrow> aobj \<Rightarrow> aobj \<Rightarrow> aobj option \<Rightarrow> bool \<Rightarrow> bheap \<Rightarrow> bheap c_res" where
  "iRem fl uniq ib acol apk ocol gost h =
     c_bind (bh_get h ib) (\<lambda>ibtr.
     if uniq then c_bind (btDelete fl ibtr acol) (\<lambda>(b, _). Inr (bh_put ib b h))
     else
       c_bind (btIndFind fl ibtr acol) (\<lambda>p. c_bind (ptr_word p) (\<lambda>nb.
       c_bind (bh_get h nb) (\<lambda>nbtr.
       c_bind (btIndNodeDelete fl nbtr apk ocol) (\<lambda>(n, nkeys).
       let h = bh_put nb n h in
       if nkeys = 0 then
         c_bind (if gost then btIndNull fl ibtr acol else btIndDelete fl ibtr acol) (\<lambda>(b, _).
           Inr (bt_destroy nb (bh_put ib b h)))
       else Inr h)))))"

text \<open>
  \<^verbatim>\<open>upIndex\<close>. \<open>lg\<close> is the expression \<^verbatim>\<open>(ulong)(floor(log2((dbl)l))) + 1\<close>, by which an LFU index files its counters.
\<close>

definition upIndex :: "c_float \<Rightarrow> (ulong \<Rightarrow> ulong) \<Rightarrow> ix_t \<Rightarrow> ulong \<Rightarrow> aobj \<Rightarrow> aobj \<Rightarrow> aobj \<Rightarrow> aobj \<Rightarrow> coltype \<Rightarrow> aobj option \<Rightarrow> aobj option \<Rightarrow>
    bheap \<Rightarrow> (bheap \<times> bool) c_res" where
  "upIndex fl lg ri ib aopk ocol anpk ncol pktyp oocol nocol h =
     (let ocol = (if ix_lfu ri then ocol\<lparr>a_l := lg (a_l ocol)\<rparr> else ocol);
          ncol = (if ix_lfu ri then ncol\<lparr>a_l := lg (a_l ncol)\<rparr> else ncol) in
      c_bind (aobjEQ fl aopk anpk) (\<lambda>pkeq.
      c_bind (if pkeq then aobjEQ fl ncol ocol else Inr False) (\<lambda>noop.
      if noop then Inr (h, True)
      else c_bind (iAdd fl (ix_uniq ri) ib ncol anpk pktyp nocol h) (\<lambda>(h, ok).
        if \<not> ok then Inr (h, False)
        else c_bind (if a_empty ocol then Inr h else iRem fl (ix_uniq ri) ib ocol aopk oocol False h) (\<lambda>h. Inr (h, True))))))"

subsection \<open>Indexes on several columns\<close>

text \<open>
  \<^verbatim>\<open>_iAddMCI\<close>. The loop over the columns: the pairs of \<^verbatim>\<open>dpl\<close> and the last tree, or \<open>None\<close> when a column is empty. \<open>col\<close> is
  \<^verbatim>\<open>getCol\<close> on the row. On an error the function runs a second time with \<^verbatim>\<open>destroy\<close>, which collects the same pairs again
  and then deletes, from the last to the first, the key of every pair whose tree has exactly one key.
\<close>

definition mci_tree :: "r_tbl \<Rightarrow> ix_t \<Rightarrow> coltype \<Rightarrow> aobj option \<Rightarrow> nat \<Rightarrow> abt c_res" where
  "mci_tree rt ri pktyp ocol i =
     (let n = length (ri_bclist ri) in
      if i = n - 1 then createIndexNode pktyp (otype_of ocol)
      else c_bind (c_read (ri_bclist ri) (i + 1)) (\<lambda>ic.
        c_bind (c_read (rt_col rt) (nat (cmatch ic))) (\<lambda>ct.
          let ntype = (if ct = COL_TYPE_LUAO then ix_dtype ri else ct) in
          if ix_uniq ri \<and> i = n - 2 then createU_MCI_IBT ntype (ix_num ri) pktyp
          else Inr (createMCI_MIDBT ntype (ix_num ri)))))"

fun mci_walk :: "c_float \<Rightarrow> r_tbl \<Rightarrow> ix_t \<Rightarrow> coltype \<Rightarrow> (icol_t \<Rightarrow> aobj c_res) \<Rightarrow> aobj option \<Rightarrow> nat \<Rightarrow> nat \<Rightarrow> ulong \<Rightarrow> bheap \<Rightarrow>
    (bheap \<times> (ulong \<times> aobj \<times> ulong) list \<times> ulong option) c_res" where
  "mci_walk fl rt ri pktyp col ocol i 0 ib h = Inr (h, [], Some ib)"
| "mci_walk fl rt ri pktyp col ocol i (Suc d) ib h =
     c_bind (c_read (ri_bclist ri) i) (\<lambda>ic. c_bind (col ic) (\<lambda>acol.
     if a_empty acol then Inr (h, [], None)
     else
       c_bind (bh_get h ib) (\<lambda>ibtr. c_bind (btIndFind fl ibtr acol) (\<lambda>p. c_bind (ptr_word p) (\<lambda>nb.
       c_bind (if nb = 0 then
                 c_bind (mci_tree rt ri pktyp ocol i) (\<lambda>n.
                   let (h, nb) = bh_new n h in
                   c_bind (btIndAdd fl ibtr acol nb) (\<lambda>b. Inr (bh_put ib b h, nb)))
               else Inr (h, nb)) (\<lambda>(h, nb).
       c_bind (mci_walk fl rt ri pktyp col ocol (i + 1) d nb h) (\<lambda>(h, dpl, r). Inr (h, (ib, acol, nb) # dpl, r))))))))"

fun mci_undo :: "c_float \<Rightarrow> (ulong \<times> aobj \<times> ulong) list \<Rightarrow> bheap \<Rightarrow> bheap c_res" where
  "mci_undo fl [] h = Inr h"
| "mci_undo fl ((ib, acol, nb) # dpl) h =
     c_bind (bh_get h ib) (\<lambda>ibtr.
       if bt_numkeys (abt_tree ibtr) = 1
       then c_bind (btIndDelete fl ibtr acol) (\<lambda>(b, _). mci_undo fl dpl (bt_destroy nb (bh_put ib b h)))
       else mci_undo fl dpl h)"

definition mci_depth :: "ix_t \<Rightarrow> nat" where
  "mci_depth ri = (if ix_uniq ri then length (ri_bclist ri) - 1 else length (ri_bclist ri))"

definition iAddMCI :: "c_float \<Rightarrow> r_tbl \<Rightarrow> ix_t \<Rightarrow> coltype \<Rightarrow> (icol_t \<Rightarrow> aobj c_res) \<Rightarrow> aobj \<Rightarrow> aobj option \<Rightarrow> bheap \<Rightarrow> (bheap \<times> bool) c_res" where
  "iAddMCI fl rt ri pktyp col apk ocol h =
     (let walk = mci_walk fl rt ri pktyp col ocol 0 (mci_depth ri) (ix_btr ri) in
      c_bind (walk h) (\<lambda>(h, dpl, last_tree).
      let err = (\<lambda>h ret.
        if dpl = [] then Inr (h, True)
        else c_bind (walk h) (\<lambda>(h, dpl, _).
          if dpl = [] then Inr (h, True) else c_bind (mci_undo fl (rev dpl) h) (\<lambda>h. Inr (h, ret))))
      in
      case last_tree of
        None \<Rightarrow> err h True
      | Some nb \<Rightarrow>
          c_bind (if dpl = [] then Inl Null_deref else bh_get h nb) (\<lambda>nbtr.
          if ix_uniq ri then
            c_bind (c_read (ri_bclist ri) (length (ri_bclist ri) - 1)) (\<lambda>ic. c_bind (col ic) (\<lambda>fcol.
              if a_empty fcol then err h True
              else c_bind (btFind fl nbtr fcol) (\<lambda>r.
                if r \<noteq> NULL then err h False
                else c_bind (iAddUniq fl nbtr pktyp apk fcol) (\<lambda>b. Inr (bh_put nb b h, True)))))
          else c_bind (btIndNodeAdd fl nbtr apk ocol) (\<lambda>(n, ok).
            if ok then Inr (bh_put nb n h, True) else err h False))))"

text \<open>\<^verbatim>\<open>iRemMCI\<close>: the pairs (\<open>None\<close> when a column is empty), then the deletion, which goes up while trees become empty.\<close>

fun mci_path :: "c_float \<Rightarrow> ix_t \<Rightarrow> (icol_t \<Rightarrow> aobj c_res) \<Rightarrow> nat \<Rightarrow> nat \<Rightarrow> ulong \<Rightarrow> bheap \<Rightarrow> (ulong \<times> aobj \<times> ulong) list option c_res" where
  "mci_path fl ri col i 0 ib h = Inr (Some [])"
| "mci_path fl ri col i (Suc d) ib h =
     c_bind (c_read (ri_bclist ri) i) (\<lambda>ic. c_bind (col ic) (\<lambda>acol.
     if a_empty acol then Inr None
     else c_bind (bh_get h ib) (\<lambda>ibtr. c_bind (btIndFind fl ibtr acol) (\<lambda>p. c_bind (ptr_word p) (\<lambda>nb.
       c_bind (mci_path fl ri col (i + 1) d nb h) (\<lambda>r. Inr (map_option ((#) (ib, acol, nb)) r)))))))"

fun mci_trickle :: "c_float \<Rightarrow> bool \<Rightarrow> (ulong \<times> aobj \<times> ulong) list \<Rightarrow> bheap \<Rightarrow> bheap c_res" where
  "mci_trickle fl gost [] h = Inr h"
| "mci_trickle fl gost ((ib, acol, nb) # dpl) h =
     c_bind (bh_get h ib) (\<lambda>ibtr.
     c_bind (if gost then btIndNull fl ibtr acol else btIndDelete fl ibtr acol) (\<lambda>(b, nkeys).
       let h = bt_destroy nb (bh_put ib b h) in
       if nkeys = 0 then mci_trickle fl gost dpl h else Inr h))"

definition iRemMCI :: "c_float \<Rightarrow> ix_t \<Rightarrow> (icol_t \<Rightarrow> aobj c_res) \<Rightarrow> aobj \<Rightarrow> aobj option \<Rightarrow> bool \<Rightarrow> bheap \<Rightarrow> bheap c_res" where
  "iRemMCI fl ri col apk ocol gost h =
     c_bind (mci_path fl ri col 0 (mci_depth ri) (ix_btr ri) h) (\<lambda>r. case r of
       None \<Rightarrow> Inr h
     | Some dpl \<Rightarrow>
         let nb = (if dpl = [] then 0 else snd (snd (last dpl))) in
         c_bind (bh_get h nb) (\<lambda>nbtr.
         c_bind (if ix_uniq ri then
                   c_bind (c_read (ri_bclist ri) (length (ri_bclist ri) - 1)) (\<lambda>ic. c_bind (col ic) (\<lambda>dcol.
                     btIndNodeDelete fl nbtr dcol None))
                 else btIndNodeDelete fl nbtr apk ocol) (\<lambda>(n, nkeys).
         let h = bh_put nb n h in
         if nkeys = 0 then mci_trickle fl gost (rev dpl) h else Inr h)))"

subsection \<open>Rows\<close>

text \<open>The ORDER BY column of an index, when it has one.\<close>

definition obc_col :: "ix_t \<Rightarrow> (icol_t \<Rightarrow> aobj c_res) \<Rightarrow> aobj option c_res" where
  "obc_col ri col = (if cmatch (ri_obc ri) = - 1 then Inr None else c_bind (col (ri_obc ri)) (\<lambda>a. Inr (Some a)))"

text \<open>\<^verbatim>\<open>addToIndex\<close> and \<^verbatim>\<open>delFromIndex\<close>; a Lua trigger is run for its effect in Lua only.\<close>

definition addToIndex :: "c_float \<Rightarrow> (ulong \<Rightarrow> ulong) \<Rightarrow> r_tbl \<Rightarrow> aobj \<Rightarrow> (icol_t \<Rightarrow> aobj c_res) \<Rightarrow> ix_t \<Rightarrow> bheap \<Rightarrow> (bheap \<times> bool) c_res" where
  "addToIndex fl lg rt apk col ri h =
     (if ri_virt ri \<or> ix_fname ri \<or> ix_hlt ri then Inr (h, True)
      else c_bind (c_read (rt_col rt) 0) (\<lambda>pktyp.
        if ix_clist ri then c_bind (obc_col ri col) (\<lambda>ocol. iAddMCI fl rt ri pktyp col apk ocol h)
        else c_bind (col (ri_icol ri)) (\<lambda>acol.
          if a_empty acol then Inr (h, True)
          else c_bind (obc_col ri col) (\<lambda>ocol.
            let acol = (if ocol = None \<and> ix_lfu ri then acol\<lparr>a_l := lg (a_l acol)\<rparr> else acol) in
            iAdd fl (ix_uniq ri) (ix_btr ri) acol apk pktyp ocol h))))"

definition delFromIndex :: "c_float \<Rightarrow> (ulong \<Rightarrow> ulong) \<Rightarrow> aobj \<Rightarrow> (icol_t \<Rightarrow> aobj c_res) \<Rightarrow> bool \<Rightarrow> ix_t \<Rightarrow> bheap \<Rightarrow> bheap c_res" where
  "delFromIndex fl lg apk col gost ri h =
     (if ri_virt ri \<or> ix_fname ri \<or> ix_hlt ri then Inr h
      else if ix_clist ri then c_bind (obc_col ri col) (\<lambda>ocol. iRemMCI fl ri col apk ocol gost h)
      else c_bind (col (ri_icol ri)) (\<lambda>acol.
        if a_empty acol then Inr h
        else c_bind (obc_col ri col) (\<lambda>ocol.
          let acol = (if ocol = None \<and> ix_lfu ri then acol\<lparr>a_l := lg (a_l acol)\<rparr> else acol) in
          iRem fl (ix_uniq ri) (ix_btr ri) acol apk ocol gost h)))"

text \<open>
  \<^verbatim>\<open>__runInsertIndexes\<close> with the flag \<^verbatim>\<open>INDXRUN_NO_LT\<close> or \<^verbatim>\<open>INDXRUN_ONLY_LT\<close> (\<open>only_lt\<close>); \<open>done_is\<close> are the indexes of the earlier turns,
  which a failure rolls back, those with a Lua trigger too. Then \<^verbatim>\<open>runDeleteIndexes\<close>.
\<close>

fun runDeleteIndexes :: "c_float \<Rightarrow> (ulong \<Rightarrow> ulong) \<Rightarrow> aobj \<Rightarrow> (icol_t \<Rightarrow> aobj c_res) \<Rightarrow> bool \<Rightarrow> ix_t list \<Rightarrow> bheap \<Rightarrow> bheap c_res" where
  "runDeleteIndexes fl lg apk col gost [] h = Inr h"
| "runDeleteIndexes fl lg apk col gost (ri # inds) h =
     c_bind (delFromIndex fl lg apk col gost ri h) (runDeleteIndexes fl lg apk col gost inds)"

fun runInsertIndexes :: "c_float \<Rightarrow> (ulong \<Rightarrow> ulong) \<Rightarrow> r_tbl \<Rightarrow> aobj \<Rightarrow> (icol_t \<Rightarrow> aobj c_res) \<Rightarrow> bool \<Rightarrow> ix_t list \<Rightarrow> ix_t list \<Rightarrow> bheap \<Rightarrow>
    (bheap \<times> bool) c_res" where
  "runInsertIndexes fl lg rt npk col only_lt done_is [] h = Inr (h, True)"
| "runInsertIndexes fl lg rt npk col only_lt done_is (ri # inds) h =
     (if ix_hlt ri \<noteq> only_lt then runInsertIndexes fl lg rt npk col only_lt (done_is @ [ri]) inds h
      else c_bind (addToIndex fl lg rt npk col ri h) (\<lambda>(h, ok).
        if ok then runInsertIndexes fl lg rt npk col only_lt (done_is @ [ri]) inds h
        else c_bind (runDeleteIndexes fl lg npk col False done_is h) (\<lambda>h. Inr (h, False))))"

definition runFailableInsertIndexes :: "c_float \<Rightarrow> (ulong \<Rightarrow> ulong) \<Rightarrow> r_tbl \<Rightarrow> aobj \<Rightarrow> (icol_t \<Rightarrow> aobj c_res) \<Rightarrow> ix_t list \<Rightarrow> bheap \<Rightarrow>
    (bheap \<times> bool) c_res" where
  "runFailableInsertIndexes fl lg rt npk col inds h = runInsertIndexes fl lg rt npk col False [] inds h"

text \<open>
  \<^verbatim>\<open>upEffectedFailableIndexes\<close> of \<^verbatim>\<open>row.c\<close>. \<open>chit\<close> are the columns that the UPDATE sets; \<open>oc\<close> and \<open>nc\<close> read the old and the new
  row.
\<close>

definition ix_effected :: "(int \<Rightarrow> bool) \<Rightarrow> ix_t \<Rightarrow> bool" where
  "ix_effected chit ri =
     (if ri_virt ri \<or> ix_luat ri then False
      else if ix_lru ri \<or> ix_lfu ri then True
      else if ix_clist ri then list_ex (\<lambda>ic. chit (cmatch ic)) (ri_bclist ri)
      else chit (cmatch (ri_icol ri)))"

fun up_loop :: "c_float \<Rightarrow> (ulong \<Rightarrow> ulong) \<Rightarrow> r_tbl \<Rightarrow> aobj \<Rightarrow> (icol_t \<Rightarrow> aobj c_res) \<Rightarrow> aobj \<Rightarrow> (icol_t \<Rightarrow> aobj c_res) \<Rightarrow>
    ix_t list \<Rightarrow> ix_t list \<Rightarrow> bheap \<Rightarrow> (bheap \<times> bool) c_res" where
  "up_loop fl lg rt opk oc npk nc done_is [] h = Inr (h, True)"
| "up_loop fl lg rt opk oc npk nc done_is (ri # inds) h =
     c_bind (addToIndex fl lg rt npk nc ri h) (\<lambda>(h, ok).
       if ok then c_bind (delFromIndex fl lg opk oc False ri h) (up_loop fl lg rt opk oc npk nc (done_is @ [ri]) inds)
       else c_bind (runDeleteIndexes fl lg npk nc False done_is h) (\<lambda>h. Inr (h, False)))"

definition upEffectedFailableIndexes :: "c_float \<Rightarrow> (ulong \<Rightarrow> ulong) \<Rightarrow> r_tbl \<Rightarrow> aobj \<Rightarrow> (icol_t \<Rightarrow> aobj c_res) \<Rightarrow> aobj \<Rightarrow>
    (icol_t \<Rightarrow> aobj c_res) \<Rightarrow> (int \<Rightarrow> bool) \<Rightarrow> ix_t list \<Rightarrow> bheap \<Rightarrow> (bheap \<times> bool) c_res" where
  "upEffectedFailableIndexes fl lg rt opk oc npk nc chit inds h =
     up_loop fl lg rt opk oc npk nc [] (filter (ix_effected chit) inds) h"

text \<open>
  \<^verbatim>\<open>deleteRow\<close> of \<^verbatim>\<open>row.c\<close> on a table at the address \<open>tb\<close>; \<open>col\<close> is \<^verbatim>\<open>getCol\<close> on the row found. The result is the code the function
  returns.
\<close>

definition deleteRow :: "c_float \<Rightarrow> (ulong \<Rightarrow> ulong) \<Rightarrow> ulong \<Rightarrow> (c_ptr \<Rightarrow> icol_t \<Rightarrow> aobj c_res) \<Rightarrow> aobj \<Rightarrow> ix_t list \<Rightarrow> bheap \<Rightarrow> (bheap \<times> int) c_res" where
  "deleteRow fl lg tb col apk inds h =
     c_bind (bh_get h tb) (\<lambda>btr.
     c_bind (btFind fl btr apk) (\<lambda>rrow.
     if rrow = NULL then Inr (h, 0)
     else c_bind (runDeleteIndexes fl lg apk (col rrow) False inds h) (\<lambda>h.
       c_bind (bh_get h tb) (\<lambda>btr.
       c_bind (btDelete fl btr apk) (\<lambda>(b, _). Inr (bh_put tb b h, 1))))))"

subsection \<open>The keys of a tree\<close>

definition abt_keys :: "abt \<Rightarrow> key_rank set" where
  "abt_keys b = {r. abt_entry b r \<noteq> None}"

lemma abt_keys_inorder: "abt_keys b = key_ord (abt_cmp b) ` set (inorder (bt_root (abt_tree b)))"
proof -
  have "r \<in> abt_keys b \<longleftrightarrow> r \<in> key_ord (abt_cmp b) ` set (inorder (bt_root (abt_tree b)))" for r
    unfolding abt_keys_def abt_entry_def mem_Collect_eq find_None_iff by blast
  then show ?thesis by blast
qed

lemma abt_keys_card:
  assumes "abt_wf b"
  shows "finite (abt_keys b)" "unat (bt_numkeys (abt_tree b)) = card (abt_keys b)"
proof -
  have wf: "bt_wf (key_ord (abt_cmp b)) (abt_tree b)" using assms by (simp add: abt_wf_def)
  show "finite (abt_keys b)" by (simp add: abt_keys_inorder)
  have "distinct (inorder (bt_root (abt_tree b)))" "inj_on (key_ord (abt_cmp b)) (set (inorder (bt_root (abt_tree b))))"
    using wf sorted_by_distinct by (auto simp: bt_wf_def)
  then have "card (abt_keys b) = length (inorder (bt_root (abt_tree b)))"
    by (simp add: abt_keys_inorder card_image distinct_card)
  then show "unat (bt_numkeys (abt_tree b)) = card (abt_keys b)"
    using wf by (simp add: bt_wf_def unat_of_nat)
qed

lemma numkeys_zero: "abt_wf b \<Longrightarrow> bt_numkeys (abt_tree b) = 0 \<longleftrightarrow> abt_keys b = {}"
  using abt_keys_card [of b] by (metis card_eq_0_iff unat_eq_zero)

lemma numkeys_one: "abt_wf b \<Longrightarrow> bt_numkeys (abt_tree b) = 1 \<longleftrightarrow> card (abt_keys b) = 1"
  using abt_keys_card [of b] by (metis unat_1 word_unat_eq_iff)

lemma numkeys_max: "abt_wf b \<Longrightarrow> card (abt_keys b) < 2 ^ 32 - 1 \<Longrightarrow> bt_numkeys (abt_tree b) \<noteq> - 1"
proof
  assume "abt_wf b" "card (abt_keys b) < 2 ^ 32 - 1" "bt_numkeys (abt_tree b) = - 1"
  then show False using abt_keys_card(2) [of b] by (simp add: unsigned_minus_1_eq_mask mask_eq_exp_minus_1)
qed

lemma abt_fresh_keys: "abt_fresh b \<Longrightarrow> abt_wf b \<and> abt_keys b = {}"
  by (simp add: abt_fresh_def abt_keys_inorder)

subsection \<open>Trees of addresses\<close>

definition ib_s :: "coltype \<Rightarrow> int \<Rightarrow> bts_t" where "ib_s kt im = abt_s (createIndexBT kt im)"

definition ptr_at :: "abt \<Rightarrow> key_rank \<Rightarrow> ulong" where
  "ptr_at b r = (case abt_entry b r of None \<Rightarrow> 0 | Some e \<Rightarrow> (case parseStream e (abt_s b) of Inr p \<Rightarrow> word_of p | Inl _ \<Rightarrow> 0))"

definition ptr_kind :: "bts_t \<Rightarrow> bool" where
  "ptr_kind s \<longleftrightarrow> (\<forall>a. val_ok s (Word a)) \<and> (\<forall>k a. found_val s k (Word a) = Word a)"

definition ptr_tree :: "abt \<Rightarrow> bool" where
  "ptr_tree b \<longleftrightarrow> abt_wf b \<and> ptr_kind (abt_s b) \<and>
     (\<forall>r e. abt_entry b r = Some e \<longrightarrow> (\<exists>a. a \<noteq> 0 \<and> parseStream e (abt_s b) = Inr (Word a)))"

lemma ib_s_kind: "kt \<in> {COL_TYPE_INT, COL_TYPE_LONG, COL_TYPE_STRING} \<Longrightarrow> ptr_kind (ib_s kt im)"
  by (auto simp: ptr_kind_def ib_s_def createIndexBT_def createIBT_def CREATE_OBT_def val_ok_def found_val_def is_word_def flag_simps)

lemma ptr_keys: "ptr_tree b \<Longrightarrow> abt_keys b = {r. ptr_at b r \<noteq> 0}"
  by (fastforce simp: ptr_tree_def abt_keys_def ptr_at_def word_of_def simp del: split_paired_All split: option.splits)

lemma ptr_find:
  assumes "ptr_tree b" "key_ok (abt_s b) k"
  shows "btIndFind fl b k = Inr (Word (ptr_at b (abt_rank b k)))"
proof (cases "abt_entry b (abt_rank b k)")
  case None
  then show ?thesis using assms by (simp add: btIndFind_def ptr_tree_def abt_find_entry ptr_at_def)
next
  case (Some e)
  then obtain a where "parseStream e (abt_s b) = Inr (Word a)" using assms(1) by (auto simp: ptr_tree_def simp del: split_paired_All)
  with Some show ?thesis using assms by (simp add: btIndFind_def ptr_tree_def abt_find_entry ptr_at_def word_of_def)
qed

lemma ptr_add:
  assumes b: "ptr_tree b" "key_ok (abt_s b) k" "ptr_at b (abt_rank b k) = 0" "card (abt_keys b) < 2 ^ 32 - 1" and a: "a \<noteq> 0"
  shows "\<exists>b'. btIndAdd fl b k a = Inr b' \<and> ptr_tree b' \<and> abt_s b' = abt_s b \<and> ptr_at b' = (ptr_at b)(abt_rank b k := a)"
proof -
  have wf: "abt_wf b" and kind: "ptr_kind (abt_s b)" using b(1) by (auto simp: ptr_tree_def)
  have none: "abt_entry b (abt_rank b k) = None"
    using b(1,3) ptr_keys [OF b(1)] by (auto simp: abt_keys_def)
  obtain b' n st where i: "abt_insert fl b k (Word a) = Inr (b', n)" "abt_wf b'" "abt_s b' = abt_s b"
    "parseStream st (abt_s b) = Inr (found_val (abt_s b) k (Word a))"
    "\<And>r. abt_entry b' r = (if r = abt_rank b k then Some st else abt_entry b r)"
    using abt_insert_entry [OF wf b(2) _ none numkeys_max [OF wf b(4)], of "Word a" fl] kind by (auto simp: ptr_kind_def)
  have st: "parseStream st (abt_s b) = Inr (Word a)" using i(4) kind by (simp add: ptr_kind_def)
  have "ptr_tree b'" using b(1) a st i(2,3,5) by (auto simp: ptr_tree_def simp del: split_paired_All)
  moreover have "ptr_at b' r = ((ptr_at b)(abt_rank b k := a)) r" for r
    using st i(3,5) by (simp add: ptr_at_def word_of_def cong: option.case_cong)
  ultimately show ?thesis using i(1,3) by (auto simp: btIndAdd_def)
qed

lemma ptr_del:
  assumes b: "ptr_tree b" "key_ok (abt_s b) k" "ptr_at b (abt_rank b k) \<noteq> 0"
  shows "\<exists>b'. btIndDelete fl b k = Inr (b', bt_numkeys (abt_tree b')) \<and> ptr_tree b' \<and> abt_s b' = abt_s b \<and>
     ptr_at b' = (ptr_at b)(abt_rank b k := 0)"
proof -
  have wf: "abt_wf b" using b(1) by (simp add: ptr_tree_def)
  obtain e where e: "abt_entry b (abt_rank b k) = Some e"
    using b(3) by (auto simp: ptr_at_def split: option.splits)
  obtain b' r where d: "abt_del fl b k = Inr (b', r)" "abt_wf b'" "abt_s b' = abt_s b"
    "\<And>r. abt_entry b' r = (if r = abt_rank b k then None else abt_entry b r)"
    using abt_del_entry [OF wf b(2) e, of fl] by auto
  have "ptr_tree b'" using b(1) d by (auto simp: ptr_tree_def simp del: split_paired_All split: if_splits)
  moreover have "ptr_at b' r = ((ptr_at b)(abt_rank b k := 0)) r" for r using d(3,4) by (simp add: ptr_at_def cong: option.case_cong)
  ultimately show ?thesis using d(1,3) by (auto simp: btIndDelete_def)
qed

lemma ptr_keys_card:
  assumes "ptr_tree b" "ptr_tree b1" "ptr_at b1 = (ptr_at b)(r := a)"
  shows "card (abt_keys b1) \<le> Suc (card (abt_keys b))"
proof -
  have fin: "finite (abt_keys b)" using assms(1) abt_keys_card(1) by (simp add: ptr_tree_def)
  have "abt_keys b1 \<subseteq> insert r (abt_keys b)"
    unfolding ptr_keys [OF assms(1)] ptr_keys [OF assms(2)] assms(3) by auto
  then have "card (abt_keys b1) \<le> card (insert r (abt_keys b))" using fin by (intro card_mono) simp_all
  also have "\<dots> \<le> Suc (card (abt_keys b))" using fin by (simp add: card_insert_if)
  finally show ?thesis .
qed

subsection \<open>Index nodes\<close>

abbreviation pk_types :: "coltype set" where
  "pk_types \<equiv> {COL_TYPE_INT, COL_TYPE_LONG, COL_TYPE_U128, COL_TYPE_STRING}"

definition node_s :: "coltype \<Rightarrow> bts_t" where
  "node_s pt = (case createIndexNode pt COL_TYPE_NONE of Inr n \<Rightarrow> abt_s n | Inl _ \<Rightarrow> undefined)"

definition node_tree :: "coltype \<Rightarrow> abt \<Rightarrow> bool" where
  "node_tree pt n \<longleftrightarrow> pt \<in> pk_types \<and> abt_wf n \<and> abt_s n = node_s pt"

lemma node_s_simps:
  assumes "pt \<in> pk_types"
  shows "ktype (node_s pt) = pt" "val_ok (node_s pt) NULL"
  using assms by (auto simp: node_s_def createIndexNode_def CREATE_OBT_def val_ok_def flag_simps is_word_def)

lemma node_new:
  assumes "pt \<in> pk_types"
  shows "\<exists>n. createIndexNode pt COL_TYPE_NONE = Inr n \<and> node_tree pt n \<and> abt_keys n = {}"
proof -
  obtain n where "createIndexNode pt COL_TYPE_NONE = Inr n" "abt_fresh n" using createIndexNode_wf [OF assms] by blast
  then show ?thesis using abt_fresh_keys [of n] assms by (auto simp: node_tree_def node_s_def)
qed

lemma node_add:
  assumes n: "node_tree pt n" "key_ok (node_s pt) k" "key_rank_of pt k \<notin> abt_keys n" "card (abt_keys n) < 2 ^ 32 - 1"
  shows "\<exists>n'. btIndNodeAdd fl n k None = Inr (n', True) \<and> node_tree pt n' \<and> abt_keys n' = insert (key_rank_of pt k) (abt_keys n)"
proof -
  have wf: "abt_wf n" "abt_s n = node_s pt" "ktype (abt_s n) = pt" "val_ok (abt_s n) NULL"
    using n(1) node_s_simps by (auto simp: node_tree_def)
  have "abt_entry n (abt_rank n k) = None" using n(3) wf(3) by (simp add: abt_keys_def)
  from abt_insert_entry [OF wf(1) _ wf(4) this numkeys_max [OF wf(1) n(4)], of fl] n(2) wf(2)
  obtain n' l st where "abt_insert fl n k NULL = Inr (n', l)" "abt_wf n'" "abt_s n' = abt_s n"
    "\<And>r. abt_entry n' r = (if r = abt_rank n k then Some st else abt_entry n r)" by auto
  then show ?thesis using n(1) wf(2,3) by (auto simp: btIndNodeAdd_def node_tree_def abt_keys_def simp del: split_paired_All split_paired_Ex)
qed

lemma node_del:
  assumes n: "node_tree pt n" "key_ok (node_s pt) k" "key_rank_of pt k \<in> abt_keys n"
  shows "\<exists>n'. btIndNodeDelete fl n k None = Inr (n', bt_numkeys (abt_tree n')) \<and> node_tree pt n' \<and>
     abt_keys n' = abt_keys n - {key_rank_of pt k}"
proof -
  have wf: "abt_wf n" "abt_s n = node_s pt" "ktype (abt_s n) = pt" using n(1) node_s_simps by (auto simp: node_tree_def)
  obtain e where "abt_entry n (abt_rank n k) = Some e" using n(3) wf(3) by (auto simp: abt_keys_def)
  from abt_del_entry [OF wf(1) _ this, of fl] n(2) wf(2)
  obtain n' l where "abt_del fl n k = Inr (n', l)" "abt_wf n'" "abt_s n' = abt_s n"
    "\<And>r. abt_entry n' r = (if r = abt_rank n k then None else abt_entry n r)" by auto
  then show ?thesis using n(1) wf(2,3) by (auto simp: btIndNodeDelete_def node_tree_def abt_keys_def simp del: split_paired_All split_paired_Ex)
qed

subsection \<open>An index in the heap\<close>

text \<open>
  The trees an index owns, its content as pairs of a column and a primary key, and its invariant: every column it has a
  key for leads to a node of its own that is not empty. The last predicate says that \<open>n\<close> more rows fit into the heap.
\<close>

definition ix_own :: "bheap \<Rightarrow> ulong \<Rightarrow> ulong set" where
  "ix_own h ib = insert ib (case bh_mem h ib of None \<Rightarrow> {} | Some b \<Rightarrow> ptr_at b ` {r. ptr_at b r \<noteq> 0})"

definition ix_view :: "bheap \<Rightarrow> ulong \<Rightarrow> (key_rank \<times> key_rank) set" where
  "ix_view h ib = (case bh_mem h ib of None \<Rightarrow> {} | Some b \<Rightarrow>
     {(r, p). ptr_at b r \<noteq> 0 \<and> (case bh_mem h (ptr_at b r) of None \<Rightarrow> False | Some m \<Rightarrow> p \<in> abt_keys m)})"

definition ix_inv :: "bts_t \<Rightarrow> coltype \<Rightarrow> bheap \<Rightarrow> ulong \<Rightarrow> bool" where
  "ix_inv cs pt h ib \<longleftrightarrow> (\<exists>b. bh_mem h ib = Some b \<and> ptr_tree b \<and> abt_s b = cs \<and> inj_on (ptr_at b) {r. ptr_at b r \<noteq> 0} \<and>
     (\<forall>r. ptr_at b r \<noteq> 0 \<longrightarrow> ptr_at b r \<noteq> ib \<and> (\<exists>m. bh_mem h (ptr_at b r) = Some m \<and> node_tree pt m \<and> abt_keys m \<noteq> {})))"

definition heap_room :: "nat \<Rightarrow> bheap \<Rightarrow> bool" where
  "heap_room n h \<longleftrightarrow> bh_next h \<noteq> 0 \<and> unat (bh_next h) + n < 2 ^ 64 \<and>
     (\<forall>a t. bh_mem h a = Some t \<longrightarrow> a < bh_next h \<and> card (abt_keys t) + n < 2 ^ 32 - 1)"

lemma heap_room_tree: "heap_room n h \<Longrightarrow> bh_mem h a = Some t \<Longrightarrow> a < bh_next h \<and> card (abt_keys t) + n < 2 ^ 32 - 1"
  unfolding heap_room_def by blast

lemma next_succ: "heap_room (Suc n) h \<Longrightarrow> unat (bh_next h + 1) = unat (bh_next h) + 1"
  by (simp add: heap_room_def unat_word_ariths)

text \<open>The part of \<^verbatim>\<open>iAdd\<close> before the primary key is added: it finds or makes the node.\<close>

lemma iAdd_node:
  assumes room: "heap_room (Suc n) h" and b: "bh_mem h ib = Some b" and inv: "ix_inv cs pt h ib"
    and key: "key_ok cs acol" and pt: "pt \<in> pk_types"
  defines "r \<equiv> key_rank_of (ktype cs) acol"
  shows "\<exists>h1 nb b1 m. (if ptr_at b r = 0 then
        c_bind (createIndexNode pt (otype_of None)) (\<lambda>n. let (h, nb) = bh_new n h in
          c_bind (btIndAdd fl b acol nb) (\<lambda>b. Inr (bh_put ib b h, nb)))
      else Inr (h, ptr_at b r)) = Inr (h1, nb) \<and>
    bh_mem h1 = (bh_mem h)(ib \<mapsto> b1, nb \<mapsto> m) \<and> bh_next h1 = (if ptr_at b r = 0 then bh_next h + 1 else bh_next h) \<and>
    nb = (if ptr_at b r = 0 then bh_next h else ptr_at b r) \<and> nb \<noteq> 0 \<and> nb \<noteq> ib \<and> (\<forall>r'. r' \<noteq> r \<longrightarrow> ptr_at b r' \<noteq> nb) \<and>
    ptr_tree b1 \<and> abt_s b1 = cs \<and> ptr_at b1 = (ptr_at b)(r := nb) \<and> node_tree pt m \<and> abt_keys m = {p. (r, p) \<in> ix_view h ib}"
proof -
  have t: "ptr_tree b" "abt_s b = cs" "inj_on (ptr_at b) {r. ptr_at b r \<noteq> 0}"
    and nd: "\<And>r. ptr_at b r \<noteq> 0 \<Longrightarrow> ptr_at b r \<noteq> ib \<and> (\<exists>m. bh_mem h (ptr_at b r) = Some m \<and> node_tree pt m)"
    using inv b by (auto simp: ix_inv_def simp del: split_paired_All)
  have lt: "a < bh_next h" if "bh_mem h a \<noteq> None" for a using room that by (auto simp: heap_room_def)
  show ?thesis
  proof (cases "ptr_at b r = 0")
    case True
    obtain m where m: "createIndexNode pt COL_TYPE_NONE = Inr m" "node_tree pt m" "abt_keys m = {}" using node_new [OF pt] by blast
    have "card (abt_keys b) < 2 ^ 32 - 1" "bh_next h \<noteq> 0" using heap_room_tree [OF room b] room by (simp_all add: heap_room_def)
    from ptr_add [OF t(1) _ _ this, of acol fl] key t(2) True
    obtain b1 where b1: "btIndAdd fl b acol (bh_next h) = Inr b1" "ptr_tree b1" "abt_s b1 = cs"
      "ptr_at b1 = (ptr_at b)(r := bh_next h)" by (auto simp: r_def)
    have ne: "bh_next h \<noteq> ib" using lt [of ib] b by auto
    have free: "ptr_at b r' \<noteq> bh_next h" for r'
      using lt [of "ptr_at b r'"] nd [of r'] \<open>bh_next h \<noteq> 0\<close> by (cases "ptr_at b r' = 0") auto
    have tw: "(bh_mem h)(bh_next h \<mapsto> m, ib \<mapsto> b1) = (bh_mem h)(ib \<mapsto> b1, bh_next h \<mapsto> m)"
      using ne by (rule fun_upd_twist)
    have "{p. (r, p) \<in> ix_view h ib} = {}" using True b by (simp add: ix_view_def)
    then have "abt_keys m = {p. (r, p) \<in> ix_view h ib}" using m(3) by simp
    then show ?thesis
      using True m(1,2) b1 ne free tw \<open>bh_next h \<noteq> 0\<close>
      by (intro exI [of _ "bh_put ib b1 (fst (bh_new m h))"] exI [of _ "bh_next h"] exI [of _ b1] exI [of _ m])
        (simp add: otype_of_def bh_new_def bh_put_def del: split_paired_All)
  next
    case False
    then obtain m where m: "bh_mem h (ptr_at b r) = Some m" "node_tree pt m" "ptr_at b r \<noteq> ib" using nd by blast
    have "\<forall>r'. r' \<noteq> r \<longrightarrow> ptr_at b r' \<noteq> ptr_at b r" using t(3) False by (auto simp: inj_on_def simp del: split_paired_All)
    moreover have "abt_keys m = {p. (r, p) \<in> ix_view h ib}" using m b False by (simp add: ix_view_def)
    moreover have "bh_mem h = (bh_mem h)(ib \<mapsto> b, ptr_at b r \<mapsto> m)" using b m(1) by (auto simp: fun_eq_iff)
    ultimately show ?thesis using False m t
      by (intro exI [of _ h] exI [of _ "ptr_at b r"] exI [of _ b] exI [of _ m]) (simp del: split_paired_All)
  qed
qed

text \<open>What an index operation may change: the trees the index owns and the ones it makes.\<close>

definition ix_frame :: "bheap \<Rightarrow> ulong \<Rightarrow> bheap \<Rightarrow> bool" where
  "ix_frame h ib h' \<longleftrightarrow> (\<forall>x. x \<notin> ix_own h ib \<longrightarrow> x < bh_next h \<longrightarrow> bh_mem h' x = bh_mem h x) \<and>
     (\<forall>x \<in> ix_own h' ib. x \<in> ix_own h ib \<or> bh_next h \<le> x) \<and> bh_next h \<le> bh_next h'"

text \<open>Storing a node for one column keeps the index and changes its content at this column only.\<close>

lemma ix_put:
  assumes inv: "ix_inv cs pt h ib" and b: "bh_mem h ib = Some b"
    and b1: "ptr_tree b1" "abt_s b1 = cs" "ptr_at b1 = (ptr_at b)(r := nb)"
    and nb: "nb \<noteq> 0" "nb \<noteq> ib" "\<forall>r'. r' \<noteq> r \<longrightarrow> ptr_at b r' \<noteq> nb"
    and m: "node_tree pt m" "abt_keys m \<noteq> {}" and h': "bh_mem h' = (bh_mem h)(ib \<mapsto> b1, nb \<mapsto> m)"
  shows "ix_inv cs pt h' ib" "ix_view h' ib = {(r', p) \<in> ix_view h ib. r' \<noteq> r} \<union> {r} \<times> abt_keys m"
    "ix_own h' ib \<subseteq> insert nb (ix_own h ib)"
proof -
  have t: "inj_on (ptr_at b) {r. ptr_at b r \<noteq> 0}"
    and nd: "\<And>r. ptr_at b r \<noteq> 0 \<Longrightarrow> ptr_at b r \<noteq> ib \<and> (\<exists>m. bh_mem h (ptr_at b r) = Some m \<and> node_tree pt m \<and> abt_keys m \<noteq> {})"
    using inv b by (auto simp: ix_inv_def simp del: split_paired_All)
  have "inj_on (ptr_at b1) {r. ptr_at b1 r \<noteq> 0}"
    using t nb(3) unfolding b1(3) inj_on_def by (auto simp del: split_paired_All)
  moreover have "ptr_at b1 r' \<noteq> ib \<and> (\<exists>m. bh_mem h' (ptr_at b1 r') = Some m \<and> node_tree pt m \<and> abt_keys m \<noteq> {})"
    if "ptr_at b1 r' \<noteq> 0" for r'
    using that nd [of r'] nb m unfolding b1(3) h' by (cases "r' = r") auto
  ultimately show "ix_inv cs pt h' ib" using b1(1,2) nb(2) h' by (simp add: ix_inv_def del: split_paired_All)
  have "(r', p) \<in> ix_view h' ib \<longleftrightarrow> (r', p) \<in> {(r', p) \<in> ix_view h ib. r' \<noteq> r} \<union> {r} \<times> abt_keys m" for r' p
    using nd [of r'] nb(1,2) nb(3) [rule_format, of r'] b b1(3) h' by (cases "r' = r") (auto simp: ix_view_def)
  then show "ix_view h' ib = {(r', p) \<in> ix_view h ib. r' \<noteq> r} \<union> {r} \<times> abt_keys m" by auto
  show "ix_own h' ib \<subseteq> insert nb (ix_own h ib)"
    using b b1(3) nb(2) h' by (auto simp: ix_own_def)
qed

lemma iAdd_ok:
  assumes room: "heap_room (Suc n) h" and inv: "ix_inv cs pt h ib" and pt: "pt \<in> pk_types"
    and key: "key_ok cs acol" "key_ok (node_s pt) apk"
    and new: "(key_rank_of (ktype cs) acol, key_rank_of pt apk) \<notin> ix_view h ib"
  shows "\<exists>h'. iAdd fl False ib acol apk pt None h = Inr (h', True) \<and> heap_room n h' \<and> ix_inv cs pt h' ib \<and>
     ix_view h' ib = insert (key_rank_of (ktype cs) acol, key_rank_of pt apk) (ix_view h ib) \<and> ix_frame h ib h'"
proof -
  let ?r = "key_rank_of (ktype cs) acol" and ?p = "key_rank_of pt apk"
  obtain b where b: "bh_mem h ib = Some b" "ptr_tree b" "abt_s b = cs" using inv by (auto simp: ix_inv_def)
  obtain h1 nb b1 m where n1: "(if ptr_at b ?r = 0 then
        c_bind (createIndexNode pt (otype_of None)) (\<lambda>n. let (h, nb) = bh_new n h in
          c_bind (btIndAdd fl b acol nb) (\<lambda>b. Inr (bh_put ib b h, nb)))
      else Inr (h, ptr_at b ?r)) = Inr (h1, nb)"
    and h1: "bh_mem h1 = (bh_mem h)(ib \<mapsto> b1, nb \<mapsto> m)" "bh_next h1 = (if ptr_at b ?r = 0 then bh_next h + 1 else bh_next h)"
    and nb: "nb = (if ptr_at b ?r = 0 then bh_next h else ptr_at b ?r)" "nb \<noteq> 0" "nb \<noteq> ib" "\<forall>r'. r' \<noteq> ?r \<longrightarrow> ptr_at b r' \<noteq> nb"
    and b1: "ptr_tree b1" "abt_s b1 = cs" "ptr_at b1 = (ptr_at b)(?r := nb)"
    and m: "node_tree pt m" "abt_keys m = {p. (?r, p) \<in> ix_view h ib}"
    using iAdd_node [OF room b(1) inv key(1) pt, of fl] by blast
  have new': "?p \<notin> abt_keys m" using new m(2) by simp
  have cm: "card (abt_keys m) + Suc n < 2 ^ 32 - 1"
  proof (cases "ptr_at b ?r = 0")
    case True
    then have "abt_keys m = {}" using m(2) b(1) by (simp add: ix_view_def)
    then show ?thesis using heap_room_tree [OF room b(1)] by simp
  next
    case False
    then obtain m0 where "bh_mem h (ptr_at b ?r) = Some m0" "abt_keys m = abt_keys m0"
      using inv b(1) m(2) by (auto simp: ix_inv_def ix_view_def simp del: split_paired_All)
    then show ?thesis using heap_room_tree [OF room] by metis
  qed
  then have cm': "card (abt_keys m) < 2 ^ 32 - 1" by simp
  from node_add [OF m(1) key(2) new' cm', of fl] obtain m' where m': "btIndNodeAdd fl m apk None = Inr (m', True)"
    "node_tree pt m'" "abt_keys m' = insert ?p (abt_keys m)" by blast
  let ?h = "bh_put nb m' h1"
  have mem: "bh_mem ?h = (bh_mem h)(ib \<mapsto> b1, nb \<mapsto> m')" "bh_next ?h = bh_next h1" using h1(1) by (simp_all add: bh_put_def)
  have "iAdd fl False ib acol apk pt None h = Inr (?h, True)"
    using n1 m'(1) h1(1) b ptr_find [OF b(2), of acol fl] key(1) by (simp add: iAdd_def bh_get_def ptr_word_def)
  moreover have st: "ix_inv cs pt ?h ib" "ix_view ?h ib = {(r', p) \<in> ix_view h ib. r' \<noteq> ?r} \<union> {?r} \<times> abt_keys m'"
    "ix_own ?h ib \<subseteq> insert nb (ix_own h ib)"
    using ix_put [OF inv b(1) b1 nb(2,3,4) m'(2) _ mem(1)] m'(3) by simp_all
  moreover have "ix_view ?h ib = insert (?r, ?p) (ix_view h ib)" unfolding st(2) m'(3) m(2) by auto
  moreover have own: "nb \<in> ix_own h ib \<or> nb = bh_next h"
    using nb(1) b(1) by (auto simp: ix_own_def simp del: split_paired_All split_paired_Ex)
  have le: "bh_next h \<le> bh_next ?h" and sc: "unat (bh_next ?h) + n < 2 ^ 64"
    using next_succ [OF room] room h1(2) by (auto simp: bh_put_def heap_room_def word_le_nat_alt)
  moreover have "ix_frame h ib ?h"
    unfolding ix_frame_def using st(3) own le mem(1) nb(3) by (auto simp: ix_own_def)
  moreover have "heap_room n ?h"
  proof -
    have "card (abt_keys m') \<le> Suc (card (abt_keys m))" unfolding m'(3) by (cases "finite (abt_keys m)") (simp_all add: card_insert_if)
    then have "card (abt_keys m') + n < 2 ^ 32 - 1" using cm by simp
    moreover have "card (abt_keys b1) + n < 2 ^ 32 - 1"
      using ptr_keys_card [OF b(2) b1(1,3)] heap_room_tree [OF room b(1)] by simp
    moreover have "nb < bh_next ?h"
    proof (cases "ptr_at b ?r = 0")
      case True
      then show ?thesis using nb(1) h1(2) next_succ [OF room] by (simp add: bh_put_def word_less_nat_alt)
    next
      case False
      then have "\<exists>m. bh_mem h nb = Some m" using inv b(1) nb(1) by (auto simp: ix_inv_def simp del: split_paired_All)
      then show ?thesis using heap_room_tree [OF room] le by (metis order_less_le_trans)
    qed
    moreover have "ib < bh_next ?h" using heap_room_tree [OF room b(1)] le by (metis order_less_le_trans)
    moreover have "a < bh_next ?h \<and> card (abt_keys t) + n < 2 ^ 32 - 1" if "bh_mem h a = Some t" for a t
      using heap_room_tree [OF room that] le by (metis order_less_le_trans Suc_lessD add_Suc_right)
    ultimately show ?thesis
      using sc le room unfolding heap_room_def mem(1) by (auto split: if_splits)
  qed
  ultimately show ?thesis by blast
qed

lemma iRem_ok:
  assumes room: "heap_room n h" and inv: "ix_inv cs pt h ib"
    and key: "key_ok cs acol" "key_ok (node_s pt) apk"
    and old: "(key_rank_of (ktype cs) acol, key_rank_of pt apk) \<in> ix_view h ib"
  shows "\<exists>h'. iRem fl False ib acol apk None False h = Inr h' \<and> heap_room n h' \<and> ix_inv cs pt h' ib \<and>
     ix_view h' ib = ix_view h ib - {(key_rank_of (ktype cs) acol, key_rank_of pt apk)} \<and> ix_frame h ib h'"
proof -
  let ?r = "key_rank_of (ktype cs) acol" and ?p = "key_rank_of pt apk"
  obtain b where b: "bh_mem h ib = Some b" "ptr_tree b" "abt_s b = cs" and inj: "inj_on (ptr_at b) {r. ptr_at b r \<noteq> 0}"
    and nd: "\<And>r. ptr_at b r \<noteq> 0 \<Longrightarrow> ptr_at b r \<noteq> ib \<and> (\<exists>m. bh_mem h (ptr_at b r) = Some m \<and> node_tree pt m \<and> abt_keys m \<noteq> {})"
    using inv by (auto simp: ix_inv_def simp del: split_paired_All)
  let ?nb = "ptr_at b ?r"
  obtain m where m: "?nb \<noteq> 0" "?nb \<noteq> ib" "bh_mem h ?nb = Some m" "node_tree pt m" "?p \<in> abt_keys m"
    using old nd [of ?r] b(1) by (auto simp: ix_view_def split: option.splits)
  have km: "abt_keys m = {p. (?r, p) \<in> ix_view h ib}" using m(1,3) b(1) by (simp add: ix_view_def)
  have oth: "\<forall>r'. r' \<noteq> ?r \<longrightarrow> ptr_at b r' \<noteq> ?nb" using inj m(1) by (auto simp: inj_on_def simp del: split_paired_All)
  obtain m' where m': "btIndNodeDelete fl m apk None = Inr (m', bt_numkeys (abt_tree m'))" "node_tree pt m'"
    "abt_keys m' = abt_keys m - {?p}" using node_del [OF m(4) key(2) m(5), of fl] by blast
  have wf': "abt_wf m'" using m'(2) by (simp add: node_tree_def)
  have cm: "card (abt_keys m') \<le> card (abt_keys m)"
    using m(4) abt_keys_card(1) [of m] unfolding m'(3) by (intro card_mono) (auto simp: node_tree_def)
  have own: "?nb \<in> ix_own h ib" using m(1) b(1) by (auto simp: ix_own_def simp del: split_paired_Ex)
  have find: "btIndFind fl b acol = Inr (Word ?nb)" using ptr_find [OF b(2), of acol fl] key(1) b(3) by simp
  show ?thesis
  proof (cases "abt_keys m' = {}")
    case False
    let ?h = "bh_put ?nb m' h"
    have mem: "bh_mem ?h = (bh_mem h)(ib \<mapsto> b, ?nb \<mapsto> m')" using b(1) m(2) by (auto simp: bh_put_def fun_eq_iff)
    have "iRem fl False ib acol apk None False h = Inr ?h"
      using find m'(1) m(3) b(1) numkeys_zero [OF wf'] False by (simp add: iRem_def bh_get_def ptr_word_def Let_def)
    moreover have st: "ix_inv cs pt ?h ib" "ix_view ?h ib = {(r', p) \<in> ix_view h ib. r' \<noteq> ?r} \<union> {?r} \<times> abt_keys m'"
      "ix_own ?h ib \<subseteq> insert ?nb (ix_own h ib)"
      using ix_put [OF inv b(1) b(2,3) _ m(1,2) oth m'(2) False mem] by (simp_all add: fun_upd_idem)
    moreover have "ix_view ?h ib = ix_view h ib - {(?r, ?p)}" unfolding st(2) m'(3) km by auto
    moreover have "heap_room n ?h"
      using room heap_room_tree [OF room m(3)] cm by (auto simp: heap_room_def bh_put_def)
    moreover have "ix_frame h ib ?h" using st(3) own by (auto simp: ix_frame_def bh_put_def)
    ultimately show ?thesis by blast
  next
    case True
    obtain b1 where b1: "btIndDelete fl b acol = Inr (b1, bt_numkeys (abt_tree b1))" "ptr_tree b1" "abt_s b1 = cs"
      "ptr_at b1 = (ptr_at b)(?r := 0)"
      using ptr_del [OF b(2), of acol fl] key(1) b(3) m(1) by auto
    let ?h = "bt_destroy ?nb (bh_put ib b1 (bh_put ?nb m' h))"
    have mem: "bh_mem ?h = (bh_mem h)(ib \<mapsto> b1, ?nb := None)" "bh_next ?h = bh_next h"
      using m(2) by (auto simp: bh_put_def bt_destroy_def fun_eq_iff)
    have "iRem fl False ib acol apk None False h = Inr ?h"
      using find m'(1) m(3) b(1) b1(1) numkeys_zero [OF wf'] True by (simp add: iRem_def bh_get_def ptr_word_def Let_def)
    moreover have "ix_inv cs pt ?h ib"
    proof -
      have "inj_on (ptr_at b1) {r. ptr_at b1 r \<noteq> 0}" using inj unfolding b1(4) inj_on_def by (auto simp del: split_paired_All)
      moreover have "ptr_at b1 r' \<noteq> ib \<and> (\<exists>m. bh_mem ?h (ptr_at b1 r') = Some m \<and> node_tree pt m \<and> abt_keys m \<noteq> {})"
        if "ptr_at b1 r' \<noteq> 0" for r'
        using that nd [of r'] oth [rule_format, of r'] unfolding b1(4) mem by (cases "r' = ?r") auto
      ultimately show ?thesis using b1(2,3) m(2) mem by (simp add: ix_inv_def del: split_paired_All)
    qed
    moreover have "(r', p) \<in> ix_view ?h ib \<longleftrightarrow> (r', p) \<in> ix_view h ib - {(?r, ?p)}" for r' p
    proof (cases "r' = ?r")
      case True
      have "p = ?p" if "(?r, p) \<in> ix_view h ib" using that \<open>abt_keys m' = {}\<close> m'(3) km by auto
      then show ?thesis using True m(2) b1(4) by (auto simp: ix_view_def mem)
    next
      case False
      then show ?thesis using oth [rule_format, of r'] nd [of r'] b(1) m(2) b1(4) by (auto simp: ix_view_def mem split: option.splits)
    qed
    then have "ix_view ?h ib = ix_view h ib - {(?r, ?p)}" by auto
    moreover have "card (abt_keys b1) \<le> card (abt_keys b)"
      using b(2) abt_keys_card(1) [of b] unfolding ptr_keys [OF b(2)] ptr_keys [OF b1(2)] b1(4)
      by (intro card_mono) (auto simp: ptr_tree_def ptr_keys)
    then have "heap_room n ?h"
      using room heap_room_tree [OF room b(1)] by (auto simp: heap_room_def mem)
    moreover have "ix_frame h ib ?h"
      using own b(1) b1(4) m(2) by (auto simp: ix_frame_def ix_own_def mem)
    ultimately show ?thesis by blast
  qed
qed

subsection \<open>What a client of an index relies on\<close>

locale row_index =
  fixes add :: "'c \<Rightarrow> 'p \<Rightarrow> 'h \<Rightarrow> ('h \<times> bool) c_res" and rem :: "'c \<Rightarrow> 'p \<Rightarrow> 'h \<Rightarrow> 'h c_res"
    and inv :: "nat \<Rightarrow> 'h \<Rightarrow> bool" and view :: "'h \<Rightarrow> ('r \<times> 'q) set"
    and okc :: "'c \<Rightarrow> bool" and okp :: "'p \<Rightarrow> bool" and rc :: "'c \<Rightarrow> 'r" and rp :: "'p \<Rightarrow> 'q"
  assumes add_ok: "inv (Suc n) h \<Longrightarrow> okc c \<Longrightarrow> okp p \<Longrightarrow> (rc c, rp p) \<notin> view h \<Longrightarrow>
      \<exists>h'. add c p h = Inr (h', True) \<and> inv n h' \<and> view h' = insert (rc c, rp p) (view h)"
    and rem_ok: "inv n h \<Longrightarrow> okc c \<Longrightarrow> okp p \<Longrightarrow> (rc c, rp p) \<in> view h \<Longrightarrow>
      \<exists>h'. rem c p h = Inr h' \<and> inv n h' \<and> view h' = view h - {(rc c, rp p)}"
begin

text \<open>A row moves from one place of the index to another.\<close>

lemma move_ok:
  assumes "inv (Suc n) h" "okc c" "okp p" "okc c'" "okp p'" "(rc c, rp p) \<in> view h" "(rc c', rp p') \<notin> view h"
  shows "\<exists>h1 h2. add c' p' h = Inr (h1, True) \<and> rem c p h1 = Inr h2 \<and> inv n h2 \<and>
     view h2 = insert (rc c', rp p') (view h - {(rc c, rp p)})"
proof -
  obtain h1 where h1: "add c' p' h = Inr (h1, True)" "inv n h1" "view h1 = insert (rc c', rp p') (view h)"
    using add_ok [OF assms(1,4,5,7)] by blast
  obtain h2 where "rem c p h1 = Inr h2" "inv n h2" "view h2 = view h1 - {(rc c, rp p)}"
    using rem_ok [OF h1(2) assms(2,3)] assms(6) h1(3) by auto
  moreover have "insert (rc c', rp p') (view h) - {(rc c, rp p)} = insert (rc c', rp p') (view h - {(rc c, rp p)})"
    using assms(6,7) by auto
  ultimately show ?thesis using h1 by auto
qed

text \<open>Rows added one after the other.\<close>

fun add_all :: "('c \<times> 'p) list \<Rightarrow> 'h \<Rightarrow> 'h c_res" where
  "add_all [] h = Inr h"
| "add_all ((c, p) # rows) h = c_bind (add c p h) (\<lambda>(h, ok). if ok then add_all rows h else Inl Assert_fail)"

lemma add_all_ok:
  assumes "inv (length rows + n) h" "\<forall>(c, p) \<in> set rows. okc c \<and> okp p \<and> (rc c, rp p) \<notin> view h"
    and "distinct (map (\<lambda>(c, p). (rc c, rp p)) rows)"
  shows "\<exists>h'. add_all rows h = Inr h' \<and> inv n h' \<and> view h' = view h \<union> (\<lambda>(c, p). (rc c, rp p)) ` set rows"
  using assms
proof (induction rows arbitrary: h)
  case Nil
  then show ?case by simp
next
  case (Cons cp rows)
  obtain c p where cp: "cp = (c, p)" by fastforce
  obtain h1 where h1: "add c p h = Inr (h1, True)" "inv (length rows + n) h1" "view h1 = insert (rc c, rp p) (view h)"
    using add_ok [of "length rows + n" h c p] Cons.prems cp by auto
  have fresh: "(rc c, rp p) \<notin> (\<lambda>(c, p). (rc c, rp p)) ` set rows" using Cons.prems(3) cp by simp
  have "okc c' \<and> okp p' \<and> (rc c', rp p') \<notin> view h1" if "(c', p') \<in> set rows" for c' p'
  proof -
    have "(rc c', rp p') \<in> (\<lambda>(c, p). (rc c, rp p)) ` set rows" using that by (rule rev_image_eqI) simp
    with fresh have "(rc c', rp p') \<noteq> (rc c, rp p)" by metis
    moreover have "okc c' \<and> okp p' \<and> (rc c', rp p') \<notin> view h" using Cons.prems(2) that by auto
    ultimately show ?thesis by (simp add: h1(3))
  qed
  then have "\<forall>(c, p) \<in> set rows. okc c \<and> okp p \<and> (rc c, rp p) \<notin> view h1" by blast
  then obtain h2 where "add_all rows h1 = Inr h2" "inv n h2" "view h2 = view h1 \<union> (\<lambda>(c, p). (rc c, rp p)) ` set rows"
    using Cons.IH [OF h1(2)] Cons.prems(3) by auto
  then show ?case using h1 cp by auto
qed

end

interpretation ix: row_index "\<lambda>acol apk h. iAdd fl False ib acol apk pt None h" "\<lambda>acol apk h. iRem fl False ib acol apk None False h"
  "\<lambda>n h. heap_room n h \<and> pt \<in> pk_types \<and> ix_inv cs pt h ib" "\<lambda>h. ix_view h ib" "key_ok cs" "key_ok (node_s pt)"
  "key_rank_of (ktype cs)" "key_rank_of pt"
proof
  show "\<exists>h'. iAdd fl False ib c p pt None h = Inr (h', True) \<and> (heap_room n h' \<and> pt \<in> pk_types \<and> ix_inv cs pt h' ib) \<and>
      ix_view h' ib = insert (key_rank_of (ktype cs) c, key_rank_of pt p) (ix_view h ib)"
    if "heap_room (Suc n) h \<and> pt \<in> pk_types \<and> ix_inv cs pt h ib" "key_ok cs c" "key_ok (node_s pt) p"
      "(key_rank_of (ktype cs) c, key_rank_of pt p) \<notin> ix_view h ib" for n h c p
    using iAdd_ok [of n h cs pt ib c p fl] that by blast
  show "\<exists>h'. iRem fl False ib c p None False h = Inr h' \<and> (heap_room n h' \<and> pt \<in> pk_types \<and> ix_inv cs pt h' ib) \<and>
      ix_view h' ib = ix_view h ib - {(key_rank_of (ktype cs) c, key_rank_of pt p)}"
    if "heap_room n h \<and> pt \<in> pk_types \<and> ix_inv cs pt h ib" "key_ok cs c" "key_ok (node_s pt) p"
      "(key_rank_of (ktype cs) c, key_rank_of pt p) \<in> ix_view h ib" for n h c p
    using iRem_ok [of n h cs pt ib c p fl] that by blast
qed

subsection \<open>Several indexes in one heap\<close>

lemma ix_own_room: "heap_room n h \<Longrightarrow> ix_inv cs pt h ib \<Longrightarrow> x \<in> ix_own h ib \<Longrightarrow> x < bh_next h"
  using heap_room_tree by (fastforce simp: ix_inv_def ix_own_def simp del: split_paired_All)

lemma ix_same:
  assumes same: "\<forall>x \<in> ix_own h jb. bh_mem h' x = bh_mem h x" and inv: "ix_inv cs pt h jb"
  shows "ix_inv cs pt h' jb" "ix_view h' jb = ix_view h jb" "ix_own h' jb = ix_own h jb"
proof -
  obtain b where b: "bh_mem h jb = Some b" using inv by (auto simp: ix_inv_def)
  have mem: "bh_mem h' jb = bh_mem h jb" "\<And>r. ptr_at b r \<noteq> 0 \<Longrightarrow> bh_mem h' (ptr_at b r) = bh_mem h (ptr_at b r)"
    using same b by (auto simp: ix_own_def simp del: split_paired_All split_paired_Ex)
  show "ix_own h' jb = ix_own h jb" using mem(1) by (simp add: ix_own_def)
  show "ix_inv cs pt h' jb" using inv b mem by (auto simp: ix_inv_def simp del: split_paired_All)
  show "ix_view h' jb = ix_view h jb" using b mem by (auto simp: ix_view_def simp del: split_paired_All)
qed

lemma ix_frame_other:
  assumes room: "heap_room n h" and fr: "ix_frame h ib h'" and inv: "ix_inv cs pt h jb" and dis: "ix_own h ib \<inter> ix_own h jb = {}"
  shows "ix_inv cs pt h' jb" "ix_view h' jb = ix_view h jb" "ix_own h' jb = ix_own h jb" "ix_own h' ib \<inter> ix_own h' jb = {}"
proof -
  have "\<forall>x \<in> ix_own h jb. bh_mem h' x = bh_mem h x"
    using fr dis ix_own_room [OF room inv] by (auto simp: ix_frame_def)
  note s = ix_same [OF this inv]
  show "ix_inv cs pt h' jb" "ix_view h' jb = ix_view h jb" "ix_own h' jb = ix_own h jb" using s by blast+
  show "ix_own h' ib \<inter> ix_own h' jb = {}"
    using fr dis ix_own_room [OF room inv] unfolding s(3) ix_frame_def by fastforce
qed

text \<open>A plain index: one column, not unique, without an ORDER BY column, no LFU index and no Lua. \<open>csf\<close> gives the kind of its tree.\<close>

definition plain_ix :: "ix_t \<Rightarrow> bool" where
  "plain_ix ri \<longleftrightarrow> \<not> ri_virt ri \<and> \<not> ix_fname ri \<and> \<not> ix_hlt ri \<and> \<not> ix_clist ri \<and> \<not> ix_uniq ri \<and> \<not> ix_lfu ri \<and>
     cmatch (ri_obc ri) = - 1"

definition ix_all :: "(ix_t \<Rightarrow> bts_t) \<Rightarrow> coltype \<Rightarrow> ix_t list \<Rightarrow> bheap \<Rightarrow> bool" where
  "ix_all csf pt ris h \<longleftrightarrow> (\<forall>ri \<in> set ris. plain_ix ri \<and> ix_inv (csf ri) pt h (ix_btr ri)) \<and>
     (\<forall>ri \<in> set ris. \<forall>rj \<in> set ris. ix_btr ri \<noteq> ix_btr rj \<longrightarrow> ix_own h (ix_btr ri) \<inter> ix_own h (ix_btr rj) = {})"

definition all_own :: "ix_t list \<Rightarrow> bheap \<Rightarrow> ulong set" where
  "all_own ris h = (\<Union>ri \<in> set ris. ix_own h (ix_btr ri))"

text \<open>The pair that an index gets for a row, and a row whose columns the indexes can hold.\<close>

definition ix_pairs :: "(ix_t \<Rightarrow> bts_t) \<Rightarrow> coltype \<Rightarrow> (icol_t \<Rightarrow> aobj c_res) \<Rightarrow> aobj \<Rightarrow> ix_t \<Rightarrow> (key_rank \<times> key_rank) set" where
  "ix_pairs csf pt col apk ri = (case col (ri_icol ri) of
       Inr a \<Rightarrow> if a_empty a then {} else {(key_rank_of (ktype (csf ri)) a, key_rank_of pt apk)}
     | Inl _ \<Rightarrow> {})"

definition row_ok :: "(ix_t \<Rightarrow> bts_t) \<Rightarrow> (icol_t \<Rightarrow> aobj c_res) \<Rightarrow> ix_t list \<Rightarrow> bool" where
  "row_ok csf col ris \<longleftrightarrow> (\<forall>ri \<in> set ris. \<exists>a. col (ri_icol ri) = Inr a \<and> (a_empty a \<or> key_ok (csf ri) a))"

lemma ix_frame_refl: "ix_frame h ib h"
  by (simp add: ix_frame_def)

lemma heap_room_Suc: "heap_room (Suc n) h \<Longrightarrow> heap_room n h"
  by (fastforce simp: heap_room_def)

lemma plain_add:
  assumes "plain_ix ri" "heap_room (Suc n) h" "ix_inv (csf ri) pt h (ix_btr ri)" "pt \<in> pk_types" "rt_col rt = pt # cts"
    and "row_ok csf col [ri]" "key_ok (node_s pt) apk" "ix_pairs csf pt col apk ri \<inter> ix_view h (ix_btr ri) = {}"
  shows "\<exists>h'. addToIndex fl lg rt apk col ri h = Inr (h', True) \<and> heap_room n h' \<and> ix_inv (csf ri) pt h' (ix_btr ri) \<and>
     ix_view h' (ix_btr ri) = ix_view h (ix_btr ri) \<union> ix_pairs csf pt col apk ri \<and> ix_frame h (ix_btr ri) h'"
proof -
  obtain a where a: "col (ri_icol ri) = Inr a" "a_empty a \<or> key_ok (csf ri) a" using assms(6) by (auto simp: row_ok_def)
  note defs = addToIndex_def plain_ix_def obc_col_def ix_pairs_def c_read_def
  show ?thesis
  proof (cases "a_empty a")
    case True
    with a assms heap_room_Suc show ?thesis by (auto simp: defs ix_frame_refl)
  next
    case False
    with iAdd_ok [OF assms(2,3,4) _ assms(7), of a fl] a assms show ?thesis by (auto simp: defs)
  qed
qed

lemma plain_del:
  assumes "plain_ix ri" "heap_room n h" "ix_inv (csf ri) pt h (ix_btr ri)"
    and "row_ok csf col [ri]" "key_ok (node_s pt) apk" "ix_pairs csf pt col apk ri \<subseteq> ix_view h (ix_btr ri)"
  shows "\<exists>h'. delFromIndex fl lg apk col False ri h = Inr h' \<and> heap_room n h' \<and> ix_inv (csf ri) pt h' (ix_btr ri) \<and>
     ix_view h' (ix_btr ri) = ix_view h (ix_btr ri) - ix_pairs csf pt col apk ri \<and> ix_frame h (ix_btr ri) h'"
proof -
  obtain a where a: "col (ri_icol ri) = Inr a" "a_empty a \<or> key_ok (csf ri) a" using assms(4) by (auto simp: row_ok_def)
  note defs = delFromIndex_def plain_ix_def obc_col_def ix_pairs_def
  show ?thesis
  proof (cases "a_empty a")
    case True
    with a assms show ?thesis by (auto simp: defs ix_frame_refl)
  next
    case False
    with iRem_ok [OF assms(2,3) _ assms(5), of a fl] a assms show ?thesis by (auto simp: defs)
  qed
qed

text \<open>An operation on one index leaves the others and every other tree alone.\<close>

lemma ix_all_step:
  assumes all: "ix_all csf pt ris h" and ri: "ri \<in> set ris" and room: "heap_room n h"
    and op: "ix_inv (csf ri) pt h' (ix_btr ri)" "ix_frame h (ix_btr ri) h'" and same: "\<forall>rj \<in> set ris. ix_btr rj = ix_btr ri \<longrightarrow> rj = ri"
  shows "ix_all csf pt ris h'" "\<And>rj. rj \<in> set ris \<Longrightarrow> rj \<noteq> ri \<Longrightarrow> ix_view h' (ix_btr rj) = ix_view h (ix_btr rj)"
    "\<And>x. x < bh_next h \<Longrightarrow> x \<notin> all_own ris h \<Longrightarrow> bh_mem h' x = bh_mem h x \<and> x \<notin> all_own ris h'"
proof -
  have inv: "\<And>rj. rj \<in> set ris \<Longrightarrow> plain_ix rj \<and> ix_inv (csf rj) pt h (ix_btr rj)" using all by (simp add: ix_all_def)
  have other: "ix_inv (csf rj) pt h' (ix_btr rj) \<and> ix_view h' (ix_btr rj) = ix_view h (ix_btr rj) \<and>
      ix_own h' (ix_btr rj) = ix_own h (ix_btr rj) \<and> ix_own h' (ix_btr ri) \<inter> ix_own h' (ix_btr rj) = {}"
    if "rj \<in> set ris" "rj \<noteq> ri" for rj
  proof -
    have "ix_btr ri \<noteq> ix_btr rj" using same that by auto
    then have "ix_own h (ix_btr ri) \<inter> ix_own h (ix_btr rj) = {}" using all ri that by (simp add: ix_all_def)
    from ix_frame_other [OF room op(2) _ this] inv [OF that(1)] show ?thesis by blast
  qed
  have "ix_own h' (ix_btr rj) \<inter> ix_own h' (ix_btr rk) = {}"
    if "rj \<in> set ris" "rk \<in> set ris" "ix_btr rj \<noteq> ix_btr rk" for rj rk
  proof -
    consider "rj = ri" | "rk = ri" | "rj \<noteq> ri" "rk \<noteq> ri" by blast
    then show ?thesis using other [of rj] other [of rk] that all by cases (auto simp: ix_all_def)
  qed
  moreover have "ix_inv (csf rj) pt h' (ix_btr rj)" if "rj \<in> set ris" for rj
    using other [OF that] op(1) by (cases "rj = ri") simp_all
  ultimately show "ix_all csf pt ris h'" using inv by (simp add: ix_all_def)
  show "ix_view h' (ix_btr rj) = ix_view h (ix_btr rj)" if "rj \<in> set ris" "rj \<noteq> ri" for rj using other that by blast
  fix x
  assume x: "x < bh_next h" "x \<notin> all_own ris h"
  then have "x \<notin> ix_own h (ix_btr ri)" using ri by (auto simp: all_own_def)
  then have "bh_mem h' x = bh_mem h x" "x \<notin> ix_own h' (ix_btr ri)" using op(2) x(1) by (auto simp: ix_frame_def)
  moreover have "x \<notin> ix_own h' (ix_btr rj)" if "rj \<in> set ris" "rj \<noteq> ri" for rj using other [OF that] that x(2) by (auto simp: all_own_def)
  ultimately show "bh_mem h' x = bh_mem h x \<and> x \<notin> all_own ris h'" by (auto simp: all_own_def)
qed

subsection \<open>A row in all indexes of a table\<close>

lemma insert_indexes:
  assumes "ix_all csf pt ris h" "inj_on ix_btr (set ris)" "set inds \<subseteq> set ris" "distinct inds" "heap_room (length inds + n) h"
    and pt: "pt \<in> pk_types" "rt_col rt = pt # cts" and row: "row_ok csf col ris" "key_ok (node_s pt) apk"
    and "\<forall>ri \<in> set inds. ix_pairs csf pt col apk ri \<inter> ix_view h (ix_btr ri) = {}"
  shows "\<exists>h'. runInsertIndexes fl lg rt apk col False done_is inds h = Inr (h', True) \<and> heap_room n h' \<and> ix_all csf pt ris h' \<and>
     bh_next h \<le> bh_next h' \<and>
     (\<forall>ri \<in> set ris. ix_view h' (ix_btr ri) = ix_view h (ix_btr ri) \<union> (if ri \<in> set inds then ix_pairs csf pt col apk ri else {})) \<and>
     (\<forall>x. x < bh_next h \<longrightarrow> x \<notin> all_own ris h \<longrightarrow> bh_mem h' x = bh_mem h x \<and> x \<notin> all_own ris h')"
  using assms(1,3-5,10)
proof (induction inds arbitrary: h done_is)
  case Nil
  then show ?case by simp
next
  case (Cons ri inds)
  have ri: "ri \<in> set ris" using Cons.prems by simp
  have pl: "plain_ix ri" "ix_inv (csf ri) pt h (ix_btr ri)" using Cons.prems(1) ri by (simp_all add: ix_all_def)
  have ok: "row_ok csf col [ri]" using row(1) ri by (simp add: row_ok_def)
  have same: "\<forall>rj \<in> set ris. ix_btr rj = ix_btr ri \<longrightarrow> rj = ri" using assms(2) ri by (auto dest: inj_onD)
  obtain h1 where h1: "addToIndex fl lg rt apk col ri h = Inr (h1, True)" "heap_room (length inds + n) h1"
    "ix_inv (csf ri) pt h1 (ix_btr ri)" "ix_view h1 (ix_btr ri) = ix_view h (ix_btr ri) \<union> ix_pairs csf pt col apk ri"
    "ix_frame h (ix_btr ri) h1"
    using plain_add [OF pl(1) _ pl(2) pt ok row(2), of "length inds + n" fl lg] Cons.prems(4,5) by auto
  note st = ix_all_step [OF Cons.prems(1) ri Cons.prems(4) h1(3,5) same]
  have nx: "bh_next h \<le> bh_next h1" using h1(5) by (simp add: ix_frame_def)
  have nt: "ri \<notin> set inds" using Cons.prems(3) by simp
  have "\<forall>rj \<in> set inds. ix_pairs csf pt col apk rj \<inter> ix_view h1 (ix_btr rj) = {}"
  proof
    fix rj
    assume rj: "rj \<in> set inds"
    then have "rj \<in> set ris" "rj \<noteq> ri" using Cons.prems(2) nt by auto
    then show "ix_pairs csf pt col apk rj \<inter> ix_view h1 (ix_btr rj) = {}" using st(2) [of rj] Cons.prems(5) rj by simp
  qed
  from Cons.IH [OF st(1) _ _ h1(2) this, of "done_is @ [ri]"] Cons.prems(2,3)
  obtain h2 where h2: "runInsertIndexes fl lg rt apk col False (done_is @ [ri]) inds h1 = Inr (h2, True)" "heap_room n h2"
    "ix_all csf pt ris h2" "bh_next h1 \<le> bh_next h2"
    "\<forall>rj \<in> set ris. ix_view h2 (ix_btr rj) = ix_view h1 (ix_btr rj) \<union> (if rj \<in> set inds then ix_pairs csf pt col apk rj else {})"
    "\<forall>x. x < bh_next h1 \<longrightarrow> x \<notin> all_own ris h1 \<longrightarrow> bh_mem h2 x = bh_mem h1 x \<and> x \<notin> all_own ris h2"
    by auto
  have "runInsertIndexes fl lg rt apk col False done_is (ri # inds) h = Inr (h2, True)"
    using pl(1) h1(1) h2(1) by (simp add: plain_ix_def)
  moreover have "bh_next h \<le> bh_next h2" using nx h2(4) by simp
  moreover have "ix_view h2 (ix_btr rj) = ix_view h (ix_btr rj) \<union> (if rj \<in> set (ri # inds) then ix_pairs csf pt col apk rj else {})"
    if "rj \<in> set ris" for rj
    using h2(5) that st(2) [OF that] h1(4) nt by (cases "rj = ri") auto
  moreover have "bh_mem h2 x = bh_mem h x \<and> x \<notin> all_own ris h2" if "x < bh_next h" "x \<notin> all_own ris h" for x
    using st(3) [OF that] h2(6) order_less_le_trans [OF that(1) nx] by simp
  ultimately show ?case using h2(2,3) by blast
qed

lemma delete_indexes:
  assumes "ix_all csf pt ris h" "inj_on ix_btr (set ris)" "set inds \<subseteq> set ris" "distinct inds" "heap_room n h"
    and row: "row_ok csf col ris" "key_ok (node_s pt) apk"
    and "\<forall>ri \<in> set inds. ix_pairs csf pt col apk ri \<subseteq> ix_view h (ix_btr ri)"
  shows "\<exists>h'. runDeleteIndexes fl lg apk col False inds h = Inr h' \<and> heap_room n h' \<and> ix_all csf pt ris h' \<and>
     bh_next h \<le> bh_next h' \<and>
     (\<forall>ri \<in> set ris. ix_view h' (ix_btr ri) = ix_view h (ix_btr ri) - (if ri \<in> set inds then ix_pairs csf pt col apk ri else {})) \<and>
     (\<forall>x. x < bh_next h \<longrightarrow> x \<notin> all_own ris h \<longrightarrow> bh_mem h' x = bh_mem h x \<and> x \<notin> all_own ris h')"
  using assms(1,3-5,8)
proof (induction inds arbitrary: h)
  case Nil
  then show ?case by simp
next
  case (Cons ri inds)
  have ri: "ri \<in> set ris" using Cons.prems by simp
  have pl: "plain_ix ri" "ix_inv (csf ri) pt h (ix_btr ri)" using Cons.prems(1) ri by (simp_all add: ix_all_def)
  have ok: "row_ok csf col [ri]" using row(1) ri by (simp add: row_ok_def)
  have same: "\<forall>rj \<in> set ris. ix_btr rj = ix_btr ri \<longrightarrow> rj = ri" using assms(2) ri by (auto dest: inj_onD)
  obtain h1 where h1: "delFromIndex fl lg apk col False ri h = Inr h1" "heap_room n h1"
    "ix_inv (csf ri) pt h1 (ix_btr ri)" "ix_view h1 (ix_btr ri) = ix_view h (ix_btr ri) - ix_pairs csf pt col apk ri"
    "ix_frame h (ix_btr ri) h1"
    using plain_del [OF pl(1) Cons.prems(4) pl(2) ok row(2), of fl lg] Cons.prems(5) by auto
  note st = ix_all_step [OF Cons.prems(1) ri Cons.prems(4) h1(3,5) same]
  have nx: "bh_next h \<le> bh_next h1" using h1(5) by (simp add: ix_frame_def)
  have nt: "ri \<notin> set inds" using Cons.prems(3) by simp
  have "\<forall>rj \<in> set inds. ix_pairs csf pt col apk rj \<subseteq> ix_view h1 (ix_btr rj)"
  proof
    fix rj
    assume rj: "rj \<in> set inds"
    then have "rj \<in> set ris" "rj \<noteq> ri" using Cons.prems(2) nt by auto
    then show "ix_pairs csf pt col apk rj \<subseteq> ix_view h1 (ix_btr rj)" using st(2) [of rj] Cons.prems(5) rj by simp
  qed
  from Cons.IH [OF st(1) _ _ h1(2) this] Cons.prems(2,3)
  obtain h2 where h2: "runDeleteIndexes fl lg apk col False inds h1 = Inr h2" "heap_room n h2"
    "ix_all csf pt ris h2" "bh_next h1 \<le> bh_next h2"
    "\<forall>rj \<in> set ris. ix_view h2 (ix_btr rj) = ix_view h1 (ix_btr rj) - (if rj \<in> set inds then ix_pairs csf pt col apk rj else {})"
    "\<forall>x. x < bh_next h1 \<longrightarrow> x \<notin> all_own ris h1 \<longrightarrow> bh_mem h2 x = bh_mem h1 x \<and> x \<notin> all_own ris h2"
    by auto
  have "runDeleteIndexes fl lg apk col False (ri # inds) h = Inr h2" using h1(1) h2(1) by simp
  moreover have "bh_next h \<le> bh_next h2" using nx h2(4) by simp
  moreover have "ix_view h2 (ix_btr rj) = ix_view h (ix_btr rj) - (if rj \<in> set (ri # inds) then ix_pairs csf pt col apk rj else {})"
    if "rj \<in> set ris" for rj
    using h2(5) that st(2) [OF that] h1(4) nt by (cases "rj = ri") auto
  moreover have "bh_mem h2 x = bh_mem h x \<and> x \<notin> all_own ris h2" if "x < bh_next h" "x \<notin> all_own ris h" for x
    using st(3) [OF that] h2(6) order_less_le_trans [OF that(1) nx] by simp
  ultimately show ?case using h2(2,3) by blast
qed

lemma ix_all_put:
  assumes "ix_all csf pt ris h" "x \<notin> all_own ris h"
  shows "ix_all csf pt ris (bh_put x t h)" "\<And>ri. ri \<in> set ris \<Longrightarrow> ix_view (bh_put x t h) (ix_btr ri) = ix_view h (ix_btr ri)"
proof -
  have s: "ix_inv (csf ri) pt (bh_put x t h) (ix_btr ri) \<and> ix_view (bh_put x t h) (ix_btr ri) = ix_view h (ix_btr ri) \<and>
      ix_own (bh_put x t h) (ix_btr ri) = ix_own h (ix_btr ri)" if "ri \<in> set ris" for ri
  proof -
    have "\<forall>y \<in> ix_own h (ix_btr ri). bh_mem (bh_put x t h) y = bh_mem h y"
      using assms(2) that by (auto simp: bh_put_def all_own_def)
    moreover have "ix_inv (csf ri) pt h (ix_btr ri)" using assms(1) that by (simp add: ix_all_def)
    ultimately show ?thesis using ix_same [of h "ix_btr ri" "bh_put x t h" "csf ri" pt] by blast
  qed
  then show "ix_all csf pt ris (bh_put x t h)" using assms(1) by (auto simp: ix_all_def)
  show "\<And>ri. ri \<in> set ris \<Longrightarrow> ix_view (bh_put x t h) (ix_btr ri) = ix_view h (ix_btr ri)" using s by blast
qed

lemma abt_del_keys:
  assumes "abt_wf t" "key_ok (abt_s t) k" "abt_rank t k \<in> abt_keys t"
  shows "\<exists>t' r. btDelete fl t k = Inr (t', r) \<and> abt_wf t' \<and> abt_keys t' = abt_keys t - {abt_rank t k}"
proof -
  obtain e where "abt_entry t (abt_rank t k) = Some e" using assms(3) by (auto simp: abt_keys_def)
  from abt_del_entry [OF assms(1,2) this, of fl] obtain t' r where "abt_del fl t k = Inr (t', r)" "abt_wf t'"
    "\<And>r. abt_entry t' r = (if r = abt_rank t k then None else abt_entry t r)" by auto
  then show ?thesis by (auto simp: btDelete_def abt_keys_def simp del: split_paired_All split_paired_Ex)
qed

subsection \<open>Properties of the component\<close>


text \<open>An example: LONG columns, indexes at the addresses 1 and 2.\<close>

definition ix_rt :: r_tbl where
  "ix_rt = \<lparr>rt_col = [COL_TYPE_LONG, COL_TYPE_LONG, COL_TYPE_LONG], rt_lrud = False, rt_lruc = 0, rt_lfu = False, rt_lfuc = 0\<rparr>"

definition ix_col :: "ulong list \<Rightarrow> icol_t \<Rightarrow> aobj c_res" where
  "ix_col row ic = c_bind (c_read row (nat (cmatch ic))) (\<lambda>v. Inr (initAobjLong v))"

definition ix_on :: "int list \<Rightarrow> ulong \<Rightarrow> bool \<Rightarrow> ix_t" where
  "ix_on cols a u =
     \<lparr>ri_virt = False, ri_icol = DECLARE_ICOL (hd cols), ri_obc = DECLARE_ICOL (- 1), ri_bclist = map DECLARE_ICOL cols,
      ix_btr = a, ix_num = 0, ix_uniq = u, ix_clist = 1 < length cols, ix_lru = False, ix_lfu = False, ix_hlt = False,
      ix_luat = False, ix_fname = False, ix_dtype = COL_TYPE_NONE\<rparr>"

definition two_ix :: "ix_t list" where "two_ix = [ix_on [1] 1 False, ix_on [2] 2 False]"

definition two_heap :: bheap where
  "two_heap = \<lparr>bh_mem = [1 \<mapsto> createIndexBT COL_TYPE_LONG 0, 2 \<mapsto> createIndexBT COL_TYPE_LONG 0], bh_next = 3\<rparr>"

lemma ix_fresh:
  assumes "kt \<in> {COL_TYPE_INT, COL_TYPE_LONG, COL_TYPE_STRING}" "bh_mem h ib = Some (createIndexBT kt im)"
  shows "ix_inv (ib_s kt im) pt h ib" "ix_view h ib = {}" "ix_own h ib = {ib}" "abt_keys (createIndexBT kt im) = {}"
proof -
  let ?b = "createIndexBT kt im"
  have f: "abt_wf ?b" "abt_keys ?b = {}"
    using abt_fresh_keys [of ?b] createIBT_wf [OF assms(1), of BTREE_INDEX im] by (simp_all add: createIndexBT_def)
  then have none: "abt_entry ?b r = None" for r by (auto simp: abt_keys_def simp del: split_paired_All)
  then have p: "ptr_at ?b r = 0" for r by (simp add: ptr_at_def)
  have "ptr_tree ?b" using f(1) none ib_s_kind [OF assms(1), of im] by (simp add: ptr_tree_def ib_s_def)
  then show "ix_inv (ib_s kt im) pt h ib" using assms(2) p by (simp add: ix_inv_def ib_s_def)
  show "ix_view h ib = {}" "ix_own h ib = {ib}" "abt_keys ?b = {}"
    using assms(2) p f(2) by (simp_all add: ix_view_def ix_own_def)
qed

lemma two_heap_room: "heap_room 2 two_heap"
  using ix_fresh(4) [where kt = COL_TYPE_LONG and h = two_heap and ib = 1 and im = 0] by (auto simp: heap_room_def two_heap_def split: if_splits)

lemma two_heap_ix: "ix_all (\<lambda>_. ib_s COL_TYPE_LONG 0) COL_TYPE_LONG two_ix two_heap"
  using ix_fresh [where kt = COL_TYPE_LONG and h = two_heap and ib = 1 and im = 0] ix_fresh [where kt = COL_TYPE_LONG and h = two_heap and ib = 2 and im = 0]
  by (auto simp: ix_all_def two_ix_def plain_ix_def ix_on_def DECLARE_ICOL_def two_heap_def)

lemma two_heap_view: "ri \<in> set two_ix \<Longrightarrow> ix_view two_heap (ix_btr ri) = {}"
  using ix_fresh(2) [where kt = COL_TYPE_LONG and h = two_heap and ib = 1 and im = 0] ix_fresh(2) [where kt = COL_TYPE_LONG and h = two_heap and ib = 2 and im = 0]
  by (auto simp: two_ix_def ix_on_def two_heap_def)

lemma long_keys: "key_ok (ib_s COL_TYPE_LONG im) (initAobjLong k)" "key_ok (node_s COL_TYPE_LONG) (initAobjLong k) \<longleftrightarrow> k \<noteq> 0"
  by (simp_all add: key_ok_def ib_s_def node_s_def createIndexBT_def createIBT_def createIndexNode_def CREATE_OBT_def flag_simps initAobjLong_def)



definition row_tree :: abt where
  "row_tree = (case btAdd demo_float demo_table (initAobjInt 5) (Mem [1, 3, 2, 65, 66]) of Inr (b, _) \<Rightarrow> b | Inl _ \<Rightarrow> demo_table)"

definition row_heap :: bheap where
  "row_heap = (case runFailableInsertIndexes demo_float id (ix_rt\<lparr>rt_col := [COL_TYPE_INT]\<rparr>) (initAobjInt 5) (ix_col [5, 8, 9]) two_ix
       (bh_put 3 row_tree (two_heap\<lparr>bh_next := 4\<rparr>)) of Inr (h, _) \<Rightarrow> h | Inl _ \<Rightarrow> two_heap)"

lemma row_tree_ok:
  "abt_wf row_tree" "abt_s row_tree = abt_s demo_table" "abt_keys row_tree = {key_rank_of COL_TYPE_INT (initAobjInt 5)}"
  "btFind demo_float row_tree (initAobjInt 5) = Inr (Mem [1, 3, 2, 65, 66])" "key_ok (abt_s row_tree) (initAobjInt 5)"
proof -
  have wf: "abt_wf demo_table" "abt_keys demo_table = {}" using abt_fresh_keys [OF demo_table_fresh] by simp_all
  have k: "key_ok (abt_s demo_table) (initAobjInt 5)" by (simp add: demo_table_spec key_ok_def INODE_I_def INODE_L_def)
  have "getRowMallocSize (Some (Normal_row [1, 3, 2, 65, 66])) = Inr 5" by code_simp
  then have v: "val_ok (abt_s demo_table) (Mem [1, 3, 2, 65, 66])"
    by (simp add: demo_table_spec val_ok_def NORM_BT_def BTFLAG_NONE_def)
  have none: "abt_entry demo_table r = None" for r using wf(2) by (auto simp: abt_keys_def simp del: split_paired_All)
  have nk: "bt_numkeys (abt_tree demo_table) \<noteq> - 1" using numkeys_max [OF wf(1)] wf(2) by simp
  have kt: "ktype (abt_s demo_table) = COL_TYPE_INT" by (simp add: demo_table_spec)
  have fv: "found_val (abt_s demo_table) (initAobjInt 5) (Mem [1, 3, 2, 65, 66]) = Mem [1, 3, 2, 65, 66]"
    by (simp add: demo_table_spec found_val_def NORM_BT_def BTFLAG_NONE_def)
  obtain b n st where b: "abt_insert demo_float demo_table (initAobjInt 5) (Mem [1, 3, 2, 65, 66]) = Inr (b, n)" "abt_wf b"
    "abt_s b = abt_s demo_table" "parseStream st (abt_s demo_table) = Inr (Mem [1, 3, 2, 65, 66])"
    "\<And>r. abt_entry b r = (if r = abt_rank demo_table (initAobjInt 5) then Some st else None)"
    using abt_insert_entry [OF wf(1) k v none nk, of demo_float] fv none by auto
  have rt: "row_tree = b" using b(1) by (simp add: row_tree_def btAdd_def)
  show "abt_wf row_tree" "abt_s row_tree = abt_s demo_table" "abt_keys row_tree = {key_rank_of COL_TYPE_INT (initAobjInt 5)}"
    using b(2,3,5) kt by (auto simp: rt abt_keys_def simp del: split_paired_All)
  show "key_ok (abt_s row_tree) (initAobjInt 5)" using k b(3) by (simp add: rt)
  show "btFind demo_float row_tree (initAobjInt 5) = Inr (Mem [1, 3, 2, 65, 66])"
    using abt_find_entry [OF b(2), of "initAobjInt 5" demo_float] k b(3,4,5) by (simp add: rt btFind_def)
qed

abbreviation row_pairs :: "ix_t \<Rightarrow> (key_rank \<times> key_rank) set" where
  "row_pairs \<equiv> ix_pairs (\<lambda>_. ib_s COL_TYPE_LONG 0) COL_TYPE_INT (ix_col [5, 8, 9]) (initAobjInt 5)"

lemma row_row_ok: "row_ok (\<lambda>_. ib_s COL_TYPE_LONG 0) (ix_col [5, 8, 9]) two_ix"
  using long_keys(1) by (simp add: row_ok_def two_ix_def ix_on_def ix_col_def DECLARE_ICOL_def c_read_def)

lemma row_pk_ok: "key_ok (node_s COL_TYPE_INT) (initAobjInt 5)"
  by (simp add: key_ok_def node_s_def createIndexNode_def CREATE_OBT_def flag_simps initAobjInt_def initAobjZeroNum_def)

lemma two_ix_inj: "inj_on ix_btr (set two_ix)" "distinct two_ix"
  by (simp_all add: two_ix_def ix_on_def)

lemma row_heap_ok:
  "heap_room 0 row_heap" "ix_all (\<lambda>_. ib_s COL_TYPE_LONG 0) COL_TYPE_INT two_ix row_heap"
  "\<forall>ri \<in> set two_ix. row_pairs ri \<subseteq> ix_view row_heap (ix_btr ri)"
  "bh_mem row_heap 3 = Some row_tree" "3 \<notin> all_own two_ix row_heap"
proof -
  let ?h = "bh_put 3 row_tree (two_heap\<lparr>bh_next := 4\<rparr>)"
  have mem: "bh_mem ?h 1 = Some (createIndexBT COL_TYPE_LONG 0)" "bh_mem ?h 2 = Some (createIndexBT COL_TYPE_LONG 0)"
    by (simp_all add: bh_put_def two_heap_def)
  note f = ix_fresh [where kt = COL_TYPE_LONG and im = 0, OF _ mem(1)] ix_fresh [where kt = COL_TYPE_LONG and im = 0, OF _ mem(2)]
  have room: "heap_room (length two_ix + 0) ?h"
    using f(4) row_tree_ok(3) by (auto simp: heap_room_def two_heap_def two_ix_def bh_put_def split: if_splits)
  have all: "ix_all (\<lambda>_. ib_s COL_TYPE_LONG 0) COL_TYPE_INT two_ix ?h"
    using f by (simp add: ix_all_def two_ix_def plain_ix_def ix_on_def DECLARE_ICOL_def)
  have none: "\<forall>ri \<in> set two_ix. row_pairs ri \<inter> ix_view ?h (ix_btr ri) = {}" using f by (simp add: two_ix_def ix_on_def)
  have own: "3 \<notin> all_own two_ix ?h" using f by (simp add: all_own_def two_ix_def ix_on_def)
  obtain h1 where h1: "runInsertIndexes demo_float id (ix_rt\<lparr>rt_col := [COL_TYPE_INT]\<rparr>) (initAobjInt 5) (ix_col [5, 8, 9]) False [] two_ix ?h = Inr (h1, True)"
    "heap_room 0 h1" "ix_all (\<lambda>_. ib_s COL_TYPE_LONG 0) COL_TYPE_INT two_ix h1"
    "\<forall>ri \<in> set two_ix. ix_view h1 (ix_btr ri) = ix_view ?h (ix_btr ri) \<union> row_pairs ri"
    "\<forall>x. x < bh_next ?h \<longrightarrow> x \<notin> all_own two_ix ?h \<longrightarrow> bh_mem h1 x = bh_mem ?h x \<and> x \<notin> all_own two_ix h1"
    using insert_indexes [OF all two_ix_inj(1) order_refl two_ix_inj(2) room _ _ row_row_ok row_pk_ok none,
        of "ix_rt\<lparr>rt_col := [COL_TYPE_INT]\<rparr>" "[]" demo_float id "[]"] by auto
  have "row_heap = h1" using h1(1) by (simp add: row_heap_def runFailableInsertIndexes_def)
  moreover have "bh_mem h1 3 = Some row_tree" "3 \<notin> all_own two_ix h1"
    using h1(5) [rule_format, of 3] own by (simp_all add: bh_put_def)
  ultimately show "heap_room 0 row_heap" "ix_all (\<lambda>_. ib_s COL_TYPE_LONG 0) COL_TYPE_INT two_ix row_heap"
    "\<forall>ri \<in> set two_ix. row_pairs ri \<subseteq> ix_view row_heap (ix_btr ri)"
    "bh_mem row_heap 3 = Some row_tree" "3 \<notin> all_own two_ix row_heap"
    using h1(2-4) by auto
qed


subsection \<open>Unique indexes on LONG columns\<close>

definition ll_tree :: "abt \<Rightarrow> bool" where
  "ll_tree b \<longleftrightarrow> (\<exists>im bty. bty \<in> {BT_SIMP_UNIQ, BT_MCI_UNIQ} \<and> abt_s b = abt_s (createLLBT im bty)) \<and> abt_wf b \<and>
     (\<forall>r e. abt_entry b r = Some e \<longrightarrow> (\<exists>v. parseStream e (abt_s b) = Inr (Mem v)))"

abbreviation lrank :: "ulong \<Rightarrow> key_rank" where "lrank k \<equiv> key_rank_of COL_TYPE_LONG (initAobjLong k)"

lemma ll_spec:
  assumes "ll_tree b"
  shows "ktype (abt_s b) = COL_TYPE_LONG" "key_ok (abt_s b) k" "LL (abt_s b)" "\<not> UL (abt_s b)"
    "length v = 16 \<Longrightarrow> val_ok (abt_s b) (Mem v)" "\<exists>w. found_val (abt_s b) k (Mem v) = Mem w"
  using assms by (auto simp: ll_tree_def create_bt_defs key_ok_def val_ok_def found_val_def val_size_def key_bytes_def flag_simps UKEY_def LKEY_def is_word_def)

lemma ll_new: "bty \<in> {BT_SIMP_UNIQ, BT_MCI_UNIQ} \<Longrightarrow> ll_tree (createLLBT im bty) \<and> abt_keys (createLLBT im bty) = {}"
proof -
  assume bty: "bty \<in> {BT_SIMP_UNIQ, BT_MCI_UNIQ}"
  have "createOBT COL_TYPE_LONG COL_TYPE_LONG im bty = Some (createLLBT im bty)" by (simp add: createOBT_def)
  then have "abt_fresh (createLLBT im bty)" using createOBT_wf [of COL_TYPE_LONG COL_TYPE_LONG im bty] bty by auto
  from abt_fresh_keys [OF this] bty show ?thesis
    by (auto simp: ll_tree_def abt_keys_def simp del: split_paired_All)
qed

lemma ll_find: "ll_tree b \<Longrightarrow> \<exists>r. btFind fl b (initAobjLong k) = Inr r \<and> (r = NULL \<longleftrightarrow> lrank k \<notin> abt_keys b)"
  using ll_spec(1,2) [of b] abt_find_entry [of b "initAobjLong k" fl]
  by (fastforce simp: btFind_def abt_keys_def ll_tree_def simp del: split_paired_All split: option.splits)

lemma ll_add:
  assumes "ll_tree b" "lrank k \<notin> abt_keys b" "card (abt_keys b) < 2 ^ 32 - 1"
  shows "\<exists>b'. iAddUniq fl b COL_TYPE_LONG apk (initAobjLong k) = Inr b' \<and> ll_tree b' \<and> abt_keys b' = insert (lrank k) (abt_keys b)"
proof -
  let ?v = "Mem (le_bytes 8 (0 :: uint128) @ le_bytes 8 (a_l apk))"
  note sp = ll_spec [OF assms(1)]
  have wf: "abt_wf b" using assms(1) by (simp add: ll_tree_def)
  have none: "abt_entry b (abt_rank b (initAobjLong k)) = None" using assms(2) sp(1) by (simp add: abt_keys_def)
  have "val_ok (abt_s b) ?v" by (rule sp(5)) simp
  from abt_insert_entry [OF wf sp(2) this none numkeys_max [OF wf assms(3)], of fl]
  obtain b' n st where b': "abt_insert fl b (initAobjLong k) ?v = Inr (b', n)" "abt_wf b'" "abt_s b' = abt_s b"
    "parseStream st (abt_s b) = Inr (found_val (abt_s b) (initAobjLong k) ?v)"
    "\<And>r. abt_entry b' r = (if r = lrank k then Some st else abt_entry b r)" by (auto simp: sp(1))
  have "iAddUniq fl b COL_TYPE_LONG apk (initAobjLong k) = Inr b'" using b'(1) sp(3,4) by (simp add: iAddUniq_def btAdd_def Let_def)
  moreover have "ll_tree b'"
    using assms(1) b'(2-5) sp(6) [of "initAobjLong k" "le_bytes 8 (0 :: uint128) @ le_bytes 8 (a_l apk)"]
    by (auto simp: ll_tree_def simp del: split_paired_All)
  moreover have "abt_keys b' = insert (lrank k) (abt_keys b)" using b'(5) by (auto simp: abt_keys_def simp del: split_paired_All)
  ultimately show ?thesis by blast
qed

lemma ll_del:
  assumes "ll_tree b" "lrank k \<in> abt_keys b"
  shows "\<exists>b' r. btDelete fl b (initAobjLong k) = Inr (b', r) \<and> ll_tree b' \<and> abt_keys b' = abt_keys b - {lrank k}"
proof -
  note sp = ll_spec [OF assms(1)]
  have wf: "abt_wf b" using assms(1) by (simp add: ll_tree_def)
  obtain e where "abt_entry b (abt_rank b (initAobjLong k)) = Some e" using assms(2) sp(1) by (auto simp: abt_keys_def)
  from abt_del_entry [OF wf sp(2) this, of fl] obtain b' r where b': "abt_del fl b (initAobjLong k) = Inr (b', r)" "abt_wf b'"
    "abt_s b' = abt_s b" "\<And>r. abt_entry b' r = (if r = lrank k then None else abt_entry b r)" by (auto simp: sp(1))
  have "ll_tree b'" using assms(1) b'(2-4) by (auto simp: ll_tree_def simp del: split_paired_All split: if_splits)
  moreover have "abt_keys b' = abt_keys b - {lrank k}" using b'(4) by (auto simp: abt_keys_def simp del: split_paired_All split: if_splits)
  ultimately show ?thesis using b'(1) by (auto simp: btDelete_def)
qed

text \<open>Heaps that hold unique indexes with known keys.\<close>

definition ll_heap :: "(ulong \<Rightarrow> key_rank set option) \<Rightarrow> bheap \<Rightarrow> bool" where
  "ll_heap f h \<longleftrightarrow> (\<forall>a K. f a = Some K \<longrightarrow> card K < 1000 \<and> (\<exists>b. bh_mem h a = Some b \<and> ll_tree b \<and> abt_keys b = K))"

lemma ll_iAdd:
  assumes "ll_heap f h" "f ib = Some K"
  shows "lrank k \<in> K \<Longrightarrow> iAdd fl True ib (initAobjLong k) apk COL_TYPE_LONG ocol h = Inr (h, False)"
    "lrank k \<notin> K \<Longrightarrow> card K < 999 \<Longrightarrow>
      \<exists>h'. iAdd fl True ib (initAobjLong k) apk COL_TYPE_LONG ocol h = Inr (h', True) \<and> ll_heap (f(ib \<mapsto> insert (lrank k) K)) h'"
proof -
  obtain b where b: "bh_mem h ib = Some b" "ll_tree b" "abt_keys b = K" using assms by (auto simp: ll_heap_def)
  obtain r where r: "btFind fl b (initAobjLong k) = Inr r" "r = NULL \<longleftrightarrow> lrank k \<notin> K" using ll_find [OF b(2)] b(3) by blast
  show "iAdd fl True ib (initAobjLong k) apk COL_TYPE_LONG ocol h = Inr (h, False)" if "lrank k \<in> K"
    using that b(1) r by (simp add: iAdd_def bh_get_def)
  assume k: "lrank k \<notin> K" and c: "card K < 999"
  obtain b' where b': "iAddUniq fl b COL_TYPE_LONG apk (initAobjLong k) = Inr b'" "ll_tree b'" "abt_keys b' = insert (lrank k) K"
    using ll_add [OF b(2), of k fl apk] k c b(3) by auto
  have fin: "finite K" using abt_keys_card(1) [of b] b(2,3) by (simp add: ll_tree_def)
  have "iAdd fl True ib (initAobjLong k) apk COL_TYPE_LONG ocol h = Inr (bh_put ib b' h, True)"
    using b(1) r k b'(1) by (simp add: iAdd_def bh_get_def)
  moreover have "ll_heap (f(ib \<mapsto> insert (lrank k) K)) (bh_put ib b' h)"
    using assms(1) b'(2,3) k c fin by (auto simp: ll_heap_def bh_put_def)
  ultimately show "\<exists>h'. iAdd fl True ib (initAobjLong k) apk COL_TYPE_LONG ocol h = Inr (h', True) \<and> ll_heap (f(ib \<mapsto> insert (lrank k) K)) h'"
    by blast
qed

lemma ll_iRem:
  assumes "ll_heap f h" "f ib = Some K" "lrank k \<in> K"
  shows "\<exists>h'. iRem fl True ib (initAobjLong k) apk ocol gost h = Inr h' \<and> ll_heap (f(ib \<mapsto> K - {lrank k})) h'"
proof -
  obtain b where b: "bh_mem h ib = Some b" "ll_tree b" "abt_keys b = K" "card K < 1000" using assms by (auto simp: ll_heap_def)
  obtain b' r where b': "btDelete fl b (initAobjLong k) = Inr (b', r)" "ll_tree b'" "abt_keys b' = K - {lrank k}"
    using ll_del [OF b(2), of k fl] assms(3) b(3) by blast
  have fin: "finite K" using abt_keys_card(1) [of b] b(2,3) by (simp add: ll_tree_def)
  have "card (K - {lrank k}) < 1000" using b(4) card_mono [OF fin, of "K - {lrank k}"] by fastforce
  then have "ll_heap (f(ib \<mapsto> K - {lrank k})) (bh_put ib b' h)" using assms(1) b'(2,3) by (auto simp: ll_heap_def bh_put_def)
  moreover have "iRem fl True ib (initAobjLong k) apk ocol gost h = Inr (bh_put ib b' h)" using b(1) b'(1) by (simp add: iRem_def bh_get_def)
  ultimately show ?thesis by blast
qed

subsection \<open>Defects\<close>

definition mci_ix :: ix_t where "mci_ix = ix_on [1, 2] 1 True"
definition uniq_ix :: "ix_t list" where "uniq_ix = [ix_on [1] 1 True, ix_on [2] 2 True]"

definition mci_heap :: bheap where
  "mci_heap = \<lparr>bh_mem = [1 \<mapsto> createIBT COL_TYPE_LONG 0 BTREE_MCI], bh_next = 2\<rparr>"

definition uniq_heap :: bheap where
  "uniq_heap = \<lparr>bh_mem = [1 \<mapsto> createLLBT 0 BT_SIMP_UNIQ, 2 \<mapsto> createLLBT 1 BT_SIMP_UNIQ], bh_next = 3\<rparr>"

definition ix_add :: "ix_t list \<Rightarrow> ulong list \<Rightarrow> bheap \<Rightarrow> (bheap \<times> bool) c_res" where
  "ix_add inds row h = runFailableInsertIndexes demo_float id ix_rt (initAobjLong (hd row)) (ix_col row) inds h"

definition ix_del :: "ix_t list \<Rightarrow> ulong list \<Rightarrow> bheap \<Rightarrow> bheap c_res" where
  "ix_del inds row h = runDeleteIndexes demo_float id (initAobjLong (hd row)) (ix_col row) False inds h"

definition ix_up :: "ulong list \<Rightarrow> ulong list \<Rightarrow> bheap \<Rightarrow> (bheap \<times> bool) c_res" where
  "ix_up row row' h = upEffectedFailableIndexes demo_float id ix_rt (initAobjLong (hd row)) (ix_col row) (initAobjLong (hd row'))
     (ix_col row') (\<lambda>c. 0 < c) uniq_ix h"

lemma lrank_eq: "lrank a = lrank b \<longleftrightarrow> a = b"
  by (simp add: key_rank_of_def initAobjLong_def num_rank_eq)

lemmas ix_on_simps = ix_on_def DECLARE_ICOL_def ix_col_def ix_rt_def obc_col_def c_read_def

lemma uniq_ops:
  "addToIndex fl lg ix_rt apk (ix_col [p, a, b]) (ix_on [1] i True) h = iAdd fl True i (initAobjLong a) apk COL_TYPE_LONG None h"
  "addToIndex fl lg ix_rt apk (ix_col [p, a, b]) (ix_on [2] i True) h = iAdd fl True i (initAobjLong b) apk COL_TYPE_LONG None h"
  "delFromIndex fl lg apk (ix_col [p, a, b]) g (ix_on [1] i True) h = iRem fl True i (initAobjLong a) apk None g h"
  "delFromIndex fl lg apk (ix_col [p, a, b]) g (ix_on [2] i True) h = iRem fl True i (initAobjLong b) apk None g h"
  by (simp_all add: addToIndex_def delFromIndex_def ix_on_simps initAobjLong_def)

lemma uniq_heap_keys: "ll_heap [1 \<mapsto> {}, 2 \<mapsto> {}] uniq_heap"
  using ll_new [of BT_SIMP_UNIQ] by (auto simp: ll_heap_def uniq_heap_def)

lemma uniq_add:
  assumes "ll_heap [1 \<mapsto> A, 2 \<mapsto> B] h" "lrank a \<notin> A" "lrank b \<notin> B" "card A < 999" "card B < 999"
  shows "\<exists>h'. ix_add uniq_ix [p, a, b] h = Inr (h', True) \<and> ll_heap [1 \<mapsto> insert (lrank a) A, 2 \<mapsto> insert (lrank b) B] h'"
proof -
  obtain h1 where h1: "iAdd demo_float True 1 (initAobjLong a) (initAobjLong p) COL_TYPE_LONG None h = Inr (h1, True)"
    "ll_heap [1 \<mapsto> insert (lrank a) A, 2 \<mapsto> B] h1"
    using ll_iAdd(2) [OF assms(1), of 1 A a demo_float "initAobjLong p" None] assms(2,4) by (auto simp: fun_upd_twist)
  obtain h2 where "iAdd demo_float True 2 (initAobjLong b) (initAobjLong p) COL_TYPE_LONG None h1 = Inr (h2, True)"
    "ll_heap [1 \<mapsto> insert (lrank a) A, 2 \<mapsto> insert (lrank b) B] h2"
    using ll_iAdd(2) [OF h1(2), of 2 B b demo_float "initAobjLong p" None] assms(3,5) by auto
  with h1(1) show ?thesis
    by (simp add: ix_add_def uniq_ix_def runFailableInsertIndexes_def uniq_ops) (simp add: ix_on_def)
qed

lemma uniq_up_loses:
  assumes "ll_heap [1 \<mapsto> A, 2 \<mapsto> B] h" "lrank a \<in> A" "lrank a' \<notin> A" "lrank b' \<in> B" "card A < 999"
  shows "\<exists>h'. ix_up [p, a, b] [p, a', b'] h = Inr (h', False) \<and> ll_heap [1 \<mapsto> A - {lrank a}, 2 \<mapsto> B] h'"
proof -
  have ne: "a \<noteq> a'" using assms(2,3) by auto
  obtain h1 where h1: "iAdd demo_float True 1 (initAobjLong a') (initAobjLong p) COL_TYPE_LONG None h = Inr (h1, True)"
    "ll_heap [1 \<mapsto> insert (lrank a') A, 2 \<mapsto> B] h1"
    using ll_iAdd(2) [OF assms(1), of 1 A a' demo_float "initAobjLong p" None] assms(3,5) by (auto simp: fun_upd_twist)
  obtain h2 where h2: "iRem demo_float True 1 (initAobjLong a) (initAobjLong p) None False h1 = Inr h2"
    "ll_heap [1 \<mapsto> insert (lrank a') A - {lrank a}, 2 \<mapsto> B] h2"
    using ll_iRem [OF h1(2), of 1 _ a demo_float "initAobjLong p" None False] assms(2) by (auto simp: fun_upd_twist)
  have h3: "iAdd demo_float True 2 (initAobjLong b') (initAobjLong p) COL_TYPE_LONG None h2 = Inr (h2, False)"
    using ll_iAdd(1) [OF h2(2), of 2 B b'] assms(4) by simp
  obtain h4 where h4: "iRem demo_float True 1 (initAobjLong a') (initAobjLong p) None False h2 = Inr h4"
    "ll_heap [1 \<mapsto> insert (lrank a') A - {lrank a} - {lrank a'}, 2 \<mapsto> B] h4"
    using ll_iRem [OF h2(2), of 1 _ a' demo_float "initAobjLong p" None False] ne lrank_eq by (auto simp: fun_upd_twist)
  have "insert (lrank a') A - {lrank a} - {lrank a'} = A - {lrank a}" using assms(3) by auto
  moreover have "filter (ix_effected (\<lambda>c. 0 < c)) uniq_ix = uniq_ix"
    by (simp add: uniq_ix_def ix_effected_def ix_on_def DECLARE_ICOL_def)
  ultimately show ?thesis
    using h1(1) h2(1) h3 h4 by (simp add: ix_up_def upEffectedFailableIndexes_def uniq_ix_def uniq_ops)
qed

text \<open>The tree of the index over two columns; the trees below it are unique indexes on the second column.\<close>

definition mci_root :: "abt \<Rightarrow> bool" where
  "mci_root b \<longleftrightarrow> ptr_tree b \<and> abt_s b = abt_s (createIBT COL_TYPE_LONG 0 BTREE_MCI) \<and> card (abt_keys b) < 1000"

lemma mci_root_spec:
  assumes "mci_root b"
  shows "btIndFind fl b (initAobjLong x) = Inr (Word (ptr_at b (lrank x)))" "key_ok (abt_s b) (initAobjLong x)" "abt_rank b (initAobjLong x) = lrank x"
proof -
  show r: "abt_rank b (initAobjLong x) = lrank x" and k: "key_ok (abt_s b) (initAobjLong x)"
    using assms by (simp_all add: mci_root_def createIBT_def CREATE_OBT_def key_ok_def flag_simps)
  show "btIndFind fl b (initAobjLong x) = Inr (Word (ptr_at b (lrank x)))"
    using ptr_find [of b "initAobjLong x" fl] assms k r by (simp add: mci_root_def)
qed

lemma mci_root_fresh: "mci_root (createIBT COL_TYPE_LONG 0 BTREE_MCI)" "ptr_at (createIBT COL_TYPE_LONG 0 BTREE_MCI) r = 0"
proof -
  let ?b = "createIBT COL_TYPE_LONG 0 BTREE_MCI"
  have f: "abt_wf ?b" "abt_keys ?b = {}" using abt_fresh_keys [OF createIBT_wf [of COL_TYPE_LONG BTREE_MCI 0]] by simp_all
  have none: "abt_entry ?b r = None" for r using f(2) by (auto simp: abt_keys_def simp del: split_paired_All)
  show "ptr_at ?b r = 0" by (simp add: ptr_at_def none)
  have "ptr_kind (abt_s ?b)"
    by (auto simp: ptr_kind_def createIBT_def CREATE_OBT_def val_ok_def found_val_def is_word_def flag_simps)
  then show "mci_root ?b" using f none by (simp add: mci_root_def ptr_tree_def)
qed

lemma long_not_empty: "\<not> a_empty (initAobjLong x)"
  by (simp add: initAobjLong_def)

lemmas mci_simps = mci_ix_def mci_depth_def ix_on_simps long_not_empty

lemma mci_add_new:
  assumes b: "bh_mem h 1 = Some b" "mci_root b" "ptr_at b (lrank x) = 0" "card (abt_keys b) < 999" and nx: "bh_next h \<noteq> 0" "bh_next h \<noteq> 1"
  shows "\<exists>h' b' c. ix_add [mci_ix] [p, x, y] h = Inr (h', True) \<and> bh_mem h' = (bh_mem h)(1 \<mapsto> b', bh_next h \<mapsto> c) \<and>
     bh_next h' = bh_next h + 1 \<and> mci_root b' \<and> ptr_at b' = (ptr_at b)(lrank x := bh_next h) \<and> ll_tree c \<and> abt_keys c = {lrank y}"
proof -
  note sp = mci_root_spec [OF b(2)]
  have pt: "ptr_tree b" using b(2) by (simp add: mci_root_def)
  obtain b' where b': "btIndAdd demo_float b (initAobjLong x) (bh_next h) = Inr b'" "ptr_tree b'" "abt_s b' = abt_s b"
    "ptr_at b' = (ptr_at b)(lrank x := bh_next h)"
    using ptr_add [OF pt sp(2) _ _ nx(1), of x demo_float] b(3,4) sp(3) by auto
  have r': "mci_root b'"
    using ptr_keys_card [OF pt b'(2,4)] b(2,4) b'(2,3) by (simp add: mci_root_def)
  note l = ll_new [of BT_MCI_UNIQ 0]
  obtain r where r: "btFind demo_float (createLLBT 0 BT_MCI_UNIQ) (initAobjLong y) = Inr r" "r = NULL"
    using ll_find [of "createLLBT 0 BT_MCI_UNIQ" demo_float y] l by auto
  obtain c where c: "iAddUniq demo_float (createLLBT 0 BT_MCI_UNIQ) COL_TYPE_LONG (initAobjLong p) (initAobjLong y) = Inr c"
    "ll_tree c" "abt_keys c = {lrank y}"
    using ll_add [of "createLLBT 0 BT_MCI_UNIQ" y demo_float "initAobjLong p"] l by auto
  let ?h = "bh_put (bh_next h) c (bh_put 1 b' (fst (bh_new (createLLBT 0 BT_MCI_UNIQ) h)))"
  have "iAddMCI demo_float ix_rt mci_ix COL_TYPE_LONG (ix_col [p, x, y]) (initAobjLong p) None h = Inr (?h, True)"
    using b(1,3) sp(1) b'(1) r c(1) nx
    by (simp add: iAddMCI_def mci_simps mci_tree_def createU_MCI_IBT_def createUIBT_def bh_get_def bh_new_def bh_put_def ptr_word_def Let_def)
  then have "ix_add [mci_ix] [p, x, y] h = Inr (?h, True)"
    by (simp add: ix_add_def runFailableInsertIndexes_def addToIndex_def) (simp add: mci_simps)
  moreover have "bh_mem ?h = (bh_mem h)(1 \<mapsto> b', bh_next h \<mapsto> c)" "bh_next ?h = bh_next h + 1"
    using nx by (auto simp: bh_put_def bh_new_def fun_eq_iff)
  ultimately show ?thesis using r' b'(4) c(2,3) by blast
qed

lemma mci_add_dup:
  assumes b: "bh_mem h 1 = Some b" "mci_root b" "abt_keys b = {lrank x}" and nb: "ptr_at b (lrank x) = nb" "nb \<noteq> 1"
    and c: "bh_mem h nb = Some c" "ll_tree c" "lrank y \<in> abt_keys c"
  shows "\<exists>b'. ix_add [mci_ix] [p, x, y] h = Inr (bt_destroy nb (bh_put 1 b' h), False) \<and> mci_root b' \<and> abt_keys b' = {}"
proof -
  note sp = mci_root_spec [OF b(2)]
  have pt: "ptr_tree b" using b(2) by (simp add: mci_root_def)
  then have wf: "abt_wf b" by (simp add: ptr_tree_def)
  have nz: "nb \<noteq> 0" using b(3) ptr_keys [OF pt] nb(1) by auto
  have one: "bt_numkeys (abt_tree b) = 1" using numkeys_one [OF wf] b(3) by simp
  obtain b' n where b': "btIndDelete demo_float b (initAobjLong x) = Inr (b', n)" "ptr_tree b'" "abt_s b' = abt_s b"
    "ptr_at b' = (ptr_at b)(lrank x := 0)"
    using ptr_del [OF pt sp(2), of x demo_float] nz nb(1) sp(3) by auto
  have e: "abt_keys b' = {}" using b(3) unfolding ptr_keys [OF pt] ptr_keys [OF b'(2)] b'(4) by auto
  obtain r where r: "btFind demo_float c (initAobjLong y) = Inr r" "r \<noteq> NULL" using ll_find [OF c(2), of demo_float y] c(3) by auto
  have "iAddMCI demo_float ix_rt mci_ix COL_TYPE_LONG (ix_col [p, x, y]) (initAobjLong p) None h =
      Inr (bt_destroy nb (bh_put 1 b' h), False)"
    using b(1) c(1) nb(1) nz sp(1) b'(1) r one
    by (simp add: iAddMCI_def mci_simps bh_get_def ptr_word_def Let_def)
  then have "ix_add [mci_ix] [p, x, y] h = Inr (bt_destroy nb (bh_put 1 b' h), False)"
    by (simp add: ix_add_def runFailableInsertIndexes_def addToIndex_def) (simp add: mci_simps)
  moreover have "mci_root b'" using b(2) b'(2,3) e by (simp add: mci_root_def)
  ultimately show ?thesis using e by blast
qed

lemma mci_del_missing:
  assumes "bh_mem h 1 = Some b" "mci_root b" "abt_keys b = {}" "bh_mem h 0 = None"
  shows "ix_del [mci_ix] [p, x, y] h = Inl Null_deref"
proof -
  have "ptr_at b (lrank x) = 0" using assms(2,3) ptr_keys [of b] unfolding mci_root_def by blast
  with assms(1,4) mci_root_spec(1) [OF assms(2)]
  have "iRemMCI demo_float mci_ix (ix_col [p, x, y]) (initAobjLong p) None False h = Inl Null_deref"
    by (simp add: iRemMCI_def mci_simps bh_get_def ptr_word_def Let_def)
  then show ?thesis by (simp add: ix_del_def delFromIndex_def) (simp add: mci_simps)
qed

text \<open>After the row (1, 5, 6) and a refused duplicate the index over two columns is empty.\<close>

lemma mci_emptied:
  "\<exists>h1 h2 b. ix_add [mci_ix] [1, 5, 6] mci_heap = Inr (h1, True) \<and> ix_add [mci_ix] [2, 5, 6] h1 = Inr (h2, False) \<and>
     bh_mem h2 1 = Some b \<and> mci_root b \<and> abt_keys b = {} \<and> bh_mem h2 0 = None \<and> bh_next h2 = 3"
proof -
  have k0: "abt_keys (createIBT COL_TYPE_LONG 0 BTREE_MCI) = {}"
    using ptr_keys [of "createIBT COL_TYPE_LONG 0 BTREE_MCI"] mci_root_fresh by (simp add: mci_root_def)
  obtain h1 b1 c where h1: "ix_add [mci_ix] [1, 5, 6] mci_heap = Inr (h1, True)"
    "bh_mem h1 = (bh_mem mci_heap)(1 \<mapsto> b1, 2 \<mapsto> c)" "bh_next h1 = 3" "mci_root b1"
    "ptr_at b1 = (ptr_at (createIBT COL_TYPE_LONG 0 BTREE_MCI))(lrank 5 := 2)" "ll_tree c" "abt_keys c = {lrank 6}"
    using mci_add_new [of mci_heap "createIBT COL_TYPE_LONG 0 BTREE_MCI" 5 1 6] mci_root_fresh k0 by (auto simp: mci_heap_def)
  have "ptr_tree b1" using h1(4) by (simp add: mci_root_def)
  from ptr_keys [OF this] have "abt_keys b1 = {lrank 5}" unfolding h1(5) by (auto simp: mci_root_fresh(2) simp del: split_paired_All)
  from mci_add_dup [OF _ h1(4) this _ _ _ h1(6), of h1 2 6 2] h1(2,5,7)
  obtain b2 where "ix_add [mci_ix] [2, 5, 6] h1 = Inr (bt_destroy 2 (bh_put 1 b2 h1), False)" "mci_root b2" "abt_keys b2 = {}" by auto
  with h1(1-3) show ?thesis
    by (intro exI [of _ h1] exI [of _ "bt_destroy 2 (bh_put 1 b2 h1)"] exI [of _ b2]) (simp add: bt_destroy_def bh_put_def mci_heap_def)
qed

text \<open>
  C40. Defects of index maintenance. On a UNIQUE index over two columns that holds the row (1, 5, 6), inserting the duplicate
  (2, 5, 6) is refused, but the roll-back deletes the entry of the first row, because it takes a tree with one key for one
  that the insertion has made: then a second duplicate is accepted, and deleting the first row dereferences \<^verbatim>\<open>NULL\<close>. With
  UNIQUE indexes on two columns, an UPDATE of the row (2, 7, 8) to (2, 9, 6) is refused by the second index, which holds 6,
  but the first index has lost the row: neither 7 nor 9 is found. And an UPDATE that sets a UNIQUE column to the value it
  already has is refused.
\<close>

theorem index_defects:
  "c_bind (ix_add [mci_ix] [1, 5, 6] mci_heap) (\<lambda>(h, ok1). c_bind (ix_add [mci_ix] [2, 5, 6] h) (\<lambda>(h, ok2).
     c_bind (ix_add [mci_ix] [3, 5, 6] h) (\<lambda>(h, ok3). Inr (ok1, ok2, ok3)))) = Inr (True, False, True) \<and>
   c_bind (ix_add [mci_ix] [1, 5, 6] mci_heap) (\<lambda>(h, ok1). c_bind (ix_add [mci_ix] [2, 5, 6] h) (\<lambda>(h, ok2).
     c_bind (ix_del [mci_ix] [1, 5, 6] h) (\<lambda>h. Inr ()))) = Inl Null_deref \<and>
   c_bind (ix_add uniq_ix [1, 5, 6] uniq_heap) (\<lambda>(h, ok1). c_bind (ix_add uniq_ix [2, 7, 8] h) (\<lambda>(h, ok2).
     c_bind (ix_up [2, 7, 8] [2, 9, 6] h) (\<lambda>(h, ok3). c_bind (bh_get h 1) (\<lambda>b.
       c_bind (btFind demo_float b (initAobjLong 7)) (\<lambda>r7. c_bind (btFind demo_float b (initAobjLong 9)) (\<lambda>r9.
         Inr (ok1, ok2, ok3, r7 = NULL, r9 = NULL))))))) = Inr (True, True, False, True, True) \<and>
   c_bind (ix_add uniq_ix [1, 5, 6] uniq_heap) (\<lambda>(h, ok1). c_bind (ix_up [1, 5, 6] [1, 5, 7] h) (\<lambda>(h, ok2). Inr (ok1, ok2))) =
     Inr (True, False)"
proof (intro conjI)
  obtain h1 h2 b where m: "ix_add [mci_ix] [1, 5, 6] mci_heap = Inr (h1, True)" "ix_add [mci_ix] [2, 5, 6] h1 = Inr (h2, False)"
    "bh_mem h2 1 = Some b" "mci_root b" "abt_keys b = {}" "bh_mem h2 0 = None" "bh_next h2 = 3" using mci_emptied by blast
  have "ptr_at b (lrank 5) = 0" using m(4,5) ptr_keys [of b] unfolding mci_root_def by blast
  then obtain h3 where "ix_add [mci_ix] [3, 5, 6] h2 = Inr (h3, True)" using mci_add_new [OF m(3,4), of 5 3 6] m(5,7) by auto
  with m(1,2) show "c_bind (ix_add [mci_ix] [1, 5, 6] mci_heap) (\<lambda>(h, ok1). c_bind (ix_add [mci_ix] [2, 5, 6] h) (\<lambda>(h, ok2).
     c_bind (ix_add [mci_ix] [3, 5, 6] h) (\<lambda>(h, ok3). Inr (ok1, ok2, ok3)))) = Inr (True, False, True)" by simp
  show "c_bind (ix_add [mci_ix] [1, 5, 6] mci_heap) (\<lambda>(h, ok1). c_bind (ix_add [mci_ix] [2, 5, 6] h) (\<lambda>(h, ok2).
     c_bind (ix_del [mci_ix] [1, 5, 6] h) (\<lambda>h. Inr ()))) = Inl Null_deref"
    using m(1,2) mci_del_missing [OF m(3-6), of 1 5 6] by simp
next
  obtain u1 where u1: "ix_add uniq_ix [1, 5, 6] uniq_heap = Inr (u1, True)" "ll_heap [1 \<mapsto> {lrank 5}, 2 \<mapsto> {lrank 6}] u1"
    using uniq_add [OF uniq_heap_keys, of 5 6 1] by auto
  have ix: "ix_effected (\<lambda>c. 0 < c) (ix_on [1] 1 True)" by (simp add: ix_effected_def ix_on_def DECLARE_ICOL_def)
  have "ix_up [1, 5, 6] [1, 5, 7] u1 = Inr (u1, False)"
    using ll_iAdd(1) [OF u1(2), of 1 "{lrank 5}" 5 demo_float "initAobjLong 1" None] ix
    by (simp add: ix_up_def upEffectedFailableIndexes_def uniq_ix_def uniq_ops)
  with u1(1) show "c_bind (ix_add uniq_ix [1, 5, 6] uniq_heap) (\<lambda>(h, ok1). c_bind (ix_up [1, 5, 6] [1, 5, 7] h) (\<lambda>(h, ok2). Inr (ok1, ok2))) =
     Inr (True, False)" by simp
  obtain u2 where u2: "ix_add uniq_ix [2, 7, 8] u1 = Inr (u2, True)"
    "ll_heap [1 \<mapsto> {lrank 7, lrank 5}, 2 \<mapsto> {lrank 8, lrank 6}] u2"
    using uniq_add [OF u1(2), of 7 8 2] by (auto simp: lrank_eq)
  obtain u3 where u3: "ix_up [2, 7, 8] [2, 9, 6] u2 = Inr (u3, False)"
    "ll_heap [1 \<mapsto> {lrank 7, lrank 5} - {lrank 7}, 2 \<mapsto> {lrank 8, lrank 6}] u3"
    using uniq_up_loses [OF u2(2), of 7 9 6 2 8] by (auto simp: lrank_eq card_insert_if)
  obtain b where b: "bh_mem u3 1 = Some b" "ll_tree b" "abt_keys b = {lrank 7, lrank 5} - {lrank 7}"
    using u3(2) [unfolded ll_heap_def, rule_format, of 1 "{lrank 7, lrank 5} - {lrank 7}"] by auto
  obtain r7 r9 where "btFind demo_float b (initAobjLong 7) = Inr r7" "r7 = NULL" "btFind demo_float b (initAobjLong 9) = Inr r9" "r9 = NULL"
    using ll_find [OF b(2), of demo_float 7] ll_find [OF b(2), of demo_float 9] b(3) by (auto simp: lrank_eq)
  with u1(1) u2(1) u3(1) b(1) show "c_bind (ix_add uniq_ix [1, 5, 6] uniq_heap) (\<lambda>(h, ok1). c_bind (ix_add uniq_ix [2, 7, 8] h) (\<lambda>(h, ok2).
     c_bind (ix_up [2, 7, 8] [2, 9, 6] h) (\<lambda>(h, ok3). c_bind (bh_get h 1) (\<lambda>b.
       c_bind (btFind demo_float b (initAobjLong 7)) (\<lambda>r7. c_bind (btFind demo_float b (initAobjLong 9)) (\<lambda>r9.
         Inr (ok1, ok2, ok3, r7 = NULL, r9 = NULL))))))) = Inr (True, True, False, True, True)"
    by (simp add: bh_get_def)
qed

end
